(* ===== verification/Prelude.thy ===== *)
theory Prelude
  imports Main "HOL-Library.Word" "HOL-Library.AList"
begin

text \<open>
  Shared vocabulary of the development.

  \<^item> Names for the machine integers of the program (\<open>u64\<close>, \<open>u32\<close>).
  \<^item> The standard library's hash containers. A \<^verbatim>\<open>HashMap\<close> is an association list with
    distinct keys and a \<^verbatim>\<open>HashSet\<close> is a distinct list; the order of the list stands for
    the (unspecified) iteration order of the container, and no theorem about the program may
    depend on it. The operations are \<open>map_of\<close>, \<open>AList.update\<close> and \<open>AList.delete\<close> for the
    map, \<open>List.insert\<close> and \<open>removeAll\<close> for the set.
  \<^item> The generic lemmas on those containers, collected in \<open>hash_simps\<close>.
  \<^item> The locale \<open>step_invariant\<close>: what every step keeps holds in every state reached.
\<close>

type_synonym u64 = "64 word"
type_synonym u32 = "32 word"
type_synonym ('k, 'v) hashmap = "('k \<times> 'v) list"
type_synonym 'a hashset = "'a list"

named_theorems hash_simps \<open>rewriting of hash map and hash set operations\<close>

abbreviation keys_distinct :: "('k, 'v) hashmap \<Rightarrow> bool" where
  "keys_distinct m \<equiv> distinct (map fst m)"

section \<open>Hash maps\<close>

text \<open>Lookups stay lookups: membership of the underlying list is not a simplification.\<close>

declare map_of_eq_Some_iff [simp del] Some_eq_map_of_iff [simp del]

lemma map_of_update [hash_simps]: "map_of (AList.update k v m) = (map_of m)(k \<mapsto> v)"
  by (rule AList.update_conv')

lemma map_of_delete [hash_simps]: "map_of (AList.delete k m) = (map_of m)(k := None)"
  by (rule AList.delete_conv')

lemma keys_distinct_update [hash_simps, intro]:
  "keys_distinct m \<Longrightarrow> keys_distinct (AList.update k v m)"
  by (rule AList.distinct_update)

lemma keys_distinct_delete [hash_simps, intro]:
  "keys_distinct m \<Longrightarrow> keys_distinct (AList.delete k m)"
  by (rule AList.distinct_delete)

lemma keys_update [hash_simps]: "fst ` set (AList.update k v m) = insert k (fst ` set m)"
  by (induction m) auto

lemma keys_delete [hash_simps]: "fst ` set (AList.delete k m) = fst ` set m - {k}"
  by (induction m) (auto simp: AList.delete_eq)

lemma map_fst_update_present [hash_simps]:
  "k \<in> fst ` set m \<Longrightarrow> map fst (AList.update k v m) = map fst m"
  by (simp add: AList.update_keys)

lemma map_fst_update_fresh [hash_simps]:
  "k \<notin> fst ` set m \<Longrightarrow> map fst (AList.update k v m) = map fst m @ [k]"
  by (simp add: AList.update_keys)

lemma map_of_eq_None_keys: "map_of m k = None \<longleftrightarrow> k \<notin> fst ` set m"
  by (rule map_of_eq_None_iff)

lemma map_of_SomeD_key: "map_of m k = Some v \<Longrightarrow> k \<in> fst ` set m"
  by (metis map_of_eq_None_iff option.distinct(1))

lemma length_update_present:
  "k \<in> fst ` set m \<Longrightarrow> length (AList.update k v m) = length m"
  by (metis length_map map_fst_update_present)

lemma length_update_fresh:
  "k \<notin> fst ` set m \<Longrightarrow> length (AList.update k v m) = Suc (length m)"
  by (metis length_append_singleton length_map map_fst_update_fresh)

lemma length_delete_present:
  assumes "keys_distinct m" and "k \<in> fst ` set m"
  shows "Suc (length (AList.delete k m)) = length m"
proof -
  have "length (AList.delete k m) = card (fst ` set m - {k})"
    using keys_distinct_delete [OF assms(1), of k]
    by (metis distinct_card keys_delete length_map list.set_map)
  moreover have "length m = card (fst ` set m)"
    using assms(1) by (metis distinct_card length_map list.set_map)
  ultimately show ?thesis
    using assms(2) by (metis card_Suc_Diff1 finite_imageI List.finite_set)
qed

lemma keys_distinct_map_of:
  "keys_distinct m \<Longrightarrow> (k, v) \<in> set m \<longleftrightarrow> map_of m k = Some v"
  by (rule map_of_eq_Some_iff [symmetric])

lemma length_eq_card_dom: "keys_distinct m \<Longrightarrow> length m = card (dom (map_of m))"
  by (metis distinct_card dom_map_of_conv_image_fst length_map list.set_map)

lemma dom_map_of_keys [simp]: "dom (map_of m) = fst ` set m"
  by (rule dom_map_of_conv_image_fst)

section \<open>Hash sets\<close>

lemma distinct_insert_set [hash_simps, intro]: "distinct s \<Longrightarrow> distinct (List.insert x s)"
  by simp

lemma distinct_removeAll_set [hash_simps, intro]: "distinct s \<Longrightarrow> distinct (removeAll x s)"
  by (rule distinct_removeAll)

lemma removeAll_eq_Nil [hash_simps]: "removeAll x s = [] \<longleftrightarrow> set s \<subseteq> {x}"
  by (induction s) auto

lemma insert_set_neq_Nil [simp]: "List.insert x s \<noteq> []"
  by (auto simp: List.insert_def)

lemma map_filter_cong_set:
  "(\<And>x. x \<in> set xs \<Longrightarrow> g x = h x) \<Longrightarrow> List.map_filter g xs = List.map_filter h xs"
  by (induction xs) (auto simp: List.map_filter_simps split: option.splits)

lemma map_filter_lookup_keys:
  "keys_distinct m \<Longrightarrow> List.map_filter (map_of m) (map fst m) = map snd m"
proof (induction m)
  case (Cons kv m)
  have "List.map_filter (map_of (kv # m)) (map fst m) = List.map_filter (map_of m) (map fst m)"
    using Cons.prems by (intro map_filter_cong_set) (auto simp: image_iff)
  then show ?case using Cons by (simp add: List.map_filter_simps fun_upd_def)
qed (simp add: List.map_filter_simps)

section \<open>Options and words\<close>

lemma case_option_if: "(case (if b then Some x else None) of None \<Rightarrow> n | Some y \<Rightarrow> f y) = (if b then f x else n)"
  by simp

lemma unat_Suc_u64: "Suc (unat (w :: u64)) < 2 ^ 64 \<Longrightarrow> unat (w + 1) = Suc (unat w)"
  by (simp add: unat_word_ariths)

lemma unat_max_u64: "unat (- 1 :: u64) = 2 ^ 64 - 1"
  by (simp add: unsigned_minus_1_eq_mask mask_eq_exp_minus_1)

lemma length_filter_update:
  "k < length xs \<Longrightarrow>
     length (filter P (xs[k := y])) + (if P (xs ! k) then 1 else 0) = length (filter P xs) + (if P y then 1 else 0)"
proof (induction xs arbitrary: k)
  case (Cons x xs)
  then show ?case by (cases k) auto
qed simp

section \<open>Invariants of step relations\<close>

locale step_invariant =
  fixes start :: "'s \<Rightarrow> bool"
    and step :: "'s \<Rightarrow> 's \<Rightarrow> bool"
    and inv :: "'s \<Rightarrow> bool"
  assumes start_inv: "start s \<Longrightarrow> inv s"
    and step_inv: "inv s \<Longrightarrow> step s s' \<Longrightarrow> inv s'"
begin

lemma invariant: "start s \<Longrightarrow> step\<^sup>*\<^sup>* s s' \<Longrightarrow> inv s'"
  by (rotate_tac, induction rule: rtranclp_induct) (auto intro: start_inv step_inv)

end

end
