(* ===== verification/Protocol.thy ===== *)
theory Protocol
  imports Prelude
begin

text \<open>
  The wire protocol, \<^verbatim>\<open>src/src/protocol.rs\<close>, and the error type, \<^verbatim>\<open>src/src/error.rs\<close>.

  A Rust \<^verbatim>\<open>String\<close> is its UTF-8 bytes, so it is a HOL \<open>string\<close> (a list of bytes) and
  \<open>length\<close> is \<^verbatim>\<open>str::len\<close>. A \<^verbatim>\<open>RawValue\<close> is the JSON text it carries.

  \<open>serialize\<close> is what the \<^verbatim>\<open>Serialize\<close> derive makes of the attributes written in the source:
  the tag first, then the fields in declaration order, fields with
  \<^verbatim>\<open>skip_serializing_if\<close> left out. \<open>render\<close> is the compact JSON text of such a value. What the
  JSON library does with a string (escaping) and a number (decimal digits), and its parser for
  client messages, are the three fields of the parameter \<open>serde\<close>; \<open>serde_ok\<close> names what is
  relied on: a quoted string starts with a quotation mark, the end of a quoted string can be
  told from its beginning, and different numbers are written differently.
\<close>

section \<open>Messages\<close>

datatype client_message =
    Auth string
  | Subscribe "string list"
  | Unsubscribe "string list"
  | Ping u64

record rejected =
  channel :: string
  reason :: string

datatype server_message =
    Authenticated string
  | Subscribed "string list" "rejected list"
  | Unsubscribed "string list"
  | Data string string
  | Snapshot string string
  | Resync "string list"
  | Pong u64
  | Error string string

datatype frame = Frame string

fun as_str :: "frame \<Rightarrow> string" where
  "as_str (Frame s) = s"

text \<open>The WebSocket library's messages, as far as the program tells them apart.\<close>

datatype message =
    Text string
  | Binary string
  | WsPing string
  | WsPong string
  | Close
  | RawFrame

fun to_message :: "frame \<Rightarrow> message" where
  "to_message (Frame s) = Text s"

section \<open>Errors\<close>

datatype ws_error =
    Io string
  | WebSocket string
  | Protocol string
  | Unauthenticated string
  | Config string

text \<open>The conversion of an error of the WebSocket library, which \<^verbatim>\<open>?\<close> and \<^verbatim>\<open>into\<close> apply.\<close>

abbreviation (input) Error_from :: "string \<Rightarrow> ws_error" where
  "Error_from e \<equiv> WebSocket e"

text \<open>The \<^verbatim>\<open>Display\<close> text of an error, as its \<^verbatim>\<open>#[error]\<close> attributes give it.\<close>

fun to_string :: "ws_error \<Rightarrow> string" where
  "to_string (Io e) = ''io: '' @ e"
| "to_string (WebSocket e) = ''websocket: '' @ e"
| "to_string (Protocol m) = ''protocol: '' @ m"
| "to_string (Unauthenticated m) = ''unauthenticated: '' @ m"
| "to_string (Config m) = ''invalid config: '' @ m"

section \<open>Serialisation\<close>

datatype json =
    JStr string
  | JNum u64
  | JArr "json list"
  | JObj "(string \<times> json) list"
  | JRaw string

record serde =
  from_str :: "string \<Rightarrow> string + client_message"
  quote :: "string \<Rightarrow> string"
  number :: "u64 \<Rightarrow> string"

definition serialize_rejected :: "rejected \<Rightarrow> json" where
  "serialize_rejected r = JObj [(''channel'', JStr (channel r)), (''reason'', JStr (reason r))]"

fun serialize :: "server_message \<Rightarrow> json" where
  "serialize (Authenticated subject) =
     JObj [(''type'', JStr ''authenticated''), (''subject'', JStr subject)]"
| "serialize (Subscribed channels rejected) =
     JObj ([(''type'', JStr ''subscribed''), (''channels'', JArr (map JStr channels))]
       @ (if rejected = [] then [] else [(''rejected'', JArr (map serialize_rejected rejected))]))"
| "serialize (Unsubscribed channels) =
     JObj [(''type'', JStr ''unsubscribed''), (''channels'', JArr (map JStr channels))]"
| "serialize (Data ch payload) =
     JObj [(''type'', JStr ''data''), (''channel'', JStr ch), (''payload'', JRaw payload)]"
| "serialize (Snapshot ch payload) =
     JObj [(''type'', JStr ''snapshot''), (''channel'', JStr ch), (''payload'', JRaw payload)]"
| "serialize (Resync channels) =
     JObj ([(''type'', JStr ''resync'')]
       @ (if channels = [] then [] else [(''channels'', JArr (map JStr channels))]))"
| "serialize (Pong timestamp) =
     JObj [(''type'', JStr ''pong''), (''timestamp'', JNum timestamp)]"
| "serialize (Error code msg) =
     JObj [(''type'', JStr ''error''), (''code'', JStr code), (''message'', JStr msg)]"

fun join :: "string list \<Rightarrow> string" where
  "join [] = []"
| "join [x] = x"
| "join (x # xs) = x @ '','' @ join xs"

fun render :: "'x serde_scheme \<Rightarrow> json \<Rightarrow> string" where
  "render S (JStr s) = quote S s"
| "render S (JNum n) = number S n"
| "render S (JArr xs) = ''['' @ join (map (render S) xs) @ '']''"
| "render S (JObj fs) =
     ''{'' @ join (map (\<lambda>f. quote S (fst f) @ '':'' @ render S (snd f)) fs) @ ''}''"
| "render S (JRaw s) = s"

definition to_frame :: "'x serde_scheme \<Rightarrow> server_message \<Rightarrow> frame" where
  "to_frame S m = Frame (render S (serialize m))"

text \<open>What the program relies on of the JSON library.\<close>

definition serde_ok :: "'x serde_scheme \<Rightarrow> bool" where
  "serde_ok S \<longleftrightarrow>
     (\<forall>s. \<exists>t. quote S s = CHR 0x22 # t) \<and>
     (\<forall>s t x y. quote S s @ x = quote S t @ y \<longrightarrow> s = t \<and> x = y) \<and>
     inj (number S)"


text \<open>
  A JSON library that meets \<open>serde_ok\<close>, for concrete runs: it escapes the quotation mark and
  the backslash, writes decimal digits, and reads nothing.
\<close>

fun escape :: "string \<Rightarrow> string" where
  "escape [] = []"
| "escape (c # cs) =
     (if c = CHR 0x22 \<or> c = CHR 0x5C then CHR 0x5C # c # escape cs else c # escape cs)"

fun digits :: "nat \<Rightarrow> string" where
  "digits n = (if n < 10 then [char_of (48 + n)] else digits (n div 10) @ [char_of (48 + n mod 10)])"

definition ref_serde :: serde where
  "ref_serde = \<lparr>from_str = (\<lambda>_. Inl ''unsupported''),
     quote = (\<lambda>s. CHR 0x22 # escape s @ [CHR 0x22]), number = (\<lambda>n. digits (unat n))\<rparr>"

section \<open>Self-delimiting codes\<close>

definition self_delimiting :: "('a \<Rightarrow> string) \<Rightarrow> bool" where
  "self_delimiting f \<longleftrightarrow> (\<forall>a b x y. f a @ x = f b @ y \<longrightarrow> a = b \<and> x = y)"

lemma self_delimiting_cancel:
  "self_delimiting f \<Longrightarrow> f a @ x = f b @ y \<longleftrightarrow> a = b \<and> x = y"
  unfolding self_delimiting_def by metis

lemma join_Cons: "join (x # xs) = x @ concat (map (\<lambda>y. CHR '','' # y) xs)"
proof (induction xs arbitrary: x)
  case (Cons y ys)
  show ?case by (simp add: Cons.IH [of y])
qed simp

lemma concat_delimited:
  assumes "self_delimiting f"
  shows "concat (map (\<lambda>y. CHR '','' # f y) xs) @ CHR '']'' # r =
         concat (map (\<lambda>y. CHR '','' # f y) ys) @ CHR '']'' # r' \<longleftrightarrow> xs = ys \<and> r = r'"
proof (induction xs arbitrary: ys)
  case Nil
  show ?case by (cases ys) auto
next
  case (Cons x xs)
  show ?case by (cases ys) (auto simp: self_delimiting_cancel [OF assms] Cons.IH)
qed

lemma join_delimited:
  assumes f: "self_delimiting f" and start: "\<And>a. \<exists>c t. f a = c # t \<and> c \<noteq> CHR '']''"
  shows "join (map f xs) @ CHR '']'' # r = join (map f ys) @ CHR '']'' # r' \<longleftrightarrow> xs = ys \<and> r = r'"
proof -
  have no_start: "f a @ z \<noteq> CHR '']'' # w" for a z w
    using start [of a] by auto
  show ?thesis
  proof (cases xs)
    case Nil
    then show ?thesis using no_start
      by (cases ys) (auto simp: join_Cons eq_commute [of "CHR '']'' # _"])
  next
    case (Cons x xs')
    then show ?thesis using no_start
      by (cases ys) (auto simp: join_Cons o_def self_delimiting_cancel [OF f] concat_delimited [OF f])
  qed
qed

section \<open>Frames can be told apart\<close>

lemma quote_cancel:
  "serde_ok S \<Longrightarrow> quote S s @ x = quote S t @ y \<longleftrightarrow> s = t \<and> x = y"
  unfolding serde_ok_def by metis

lemma quote_start: "serde_ok S \<Longrightarrow> \<exists>t. quote S s = CHR 0x22 # t"
  unfolding serde_ok_def by metis

lemma quote_delimiting: "serde_ok S \<Longrightarrow> self_delimiting (quote S)"
  by (simp add: self_delimiting_def quote_cancel)

lemma render_channels:
  assumes "serde_ok S"
  shows "join (map (render S) (map JStr xs)) @ CHR '']'' # r =
         join (map (render S) (map JStr ys)) @ CHR '']'' # r' \<longleftrightarrow> xs = ys \<and> r = r'"
proof -
  have "\<exists>c t. quote S a = c # t \<and> c \<noteq> CHR '']''" for a
    using quote_start [OF assms, of a] by auto
  from join_delimited [OF quote_delimiting [OF assms] this]
  show ?thesis by (simp add: o_def)
qed

lemma render_rejected:
  "render S (serialize_rejected r) @ x =
     CHR ''{'' # quote S ''channel'' @ CHR '':'' # quote S (channel r) @ CHR '','' #
       quote S ''reason'' @ CHR '':'' # quote S (reason r) @ CHR ''}'' # x"
  by (simp add: serialize_rejected_def)

lemma rejected_delimiting:
  assumes "serde_ok S"
  shows "self_delimiting (render S \<circ> serialize_rejected)"
  using quote_cancel [OF assms]
  by (simp add: self_delimiting_def render_rejected del: render.simps)

lemma render_rejections:
  assumes "serde_ok S"
  shows "join (map (render S) (map serialize_rejected xs)) @ CHR '']'' # r =
         join (map (render S) (map serialize_rejected ys)) @ CHR '']'' # r' \<longleftrightarrow> xs = ys \<and> r = r'"
proof -
  have "\<exists>c t. (render S \<circ> serialize_rejected) a = c # t \<and> c \<noteq> CHR '']''" for a
    by (simp add: serialize_rejected_def)
  from join_delimited [OF rejected_delimiting [OF assms] this]
  show ?thesis by (simp add: o_def)
qed

text \<open>The text of a frame: the tag, then the fields.\<close>

fun tag :: "server_message \<Rightarrow> string" where
  "tag (Authenticated _) = ''authenticated''"
| "tag (Subscribed _ _) = ''subscribed''"
| "tag (Unsubscribed _) = ''unsubscribed''"
| "tag (Data _ _) = ''data''"
| "tag (Snapshot _ _) = ''snapshot''"
| "tag (Resync _) = ''resync''"
| "tag (Pong _) = ''pong''"
| "tag (Error _ _) = ''error''"

fun fields :: "'x serde_scheme \<Rightarrow> server_message \<Rightarrow> string" where
  "fields S (Authenticated subject) = CHR '','' # quote S ''subject'' @ CHR '':'' # quote S subject @ ''}''"
| "fields S (Subscribed chs rej) =
     CHR '','' # quote S ''channels'' @ CHR '':'' # CHR ''['' # join (map (render S) (map JStr chs)) @ CHR '']'' #
     (if rej = [] then ''}''
      else CHR '','' # quote S ''rejected'' @ CHR '':'' # CHR ''['' #
        join (map (render S) (map serialize_rejected rej)) @ CHR '']'' # ''}'')"
| "fields S (Unsubscribed chs) =
     CHR '','' # quote S ''channels'' @ CHR '':'' # CHR ''['' # join (map (render S) (map JStr chs)) @ CHR '']'' # ''}''"
| "fields S (Data ch p) =
     CHR '','' # quote S ''channel'' @ CHR '':'' # quote S ch @ CHR '','' # quote S ''payload'' @ CHR '':'' # p @ ''}''"
| "fields S (Snapshot ch p) =
     CHR '','' # quote S ''channel'' @ CHR '':'' # quote S ch @ CHR '','' # quote S ''payload'' @ CHR '':'' # p @ ''}''"
| "fields S (Resync chs) =
     (if chs = [] then ''}''
      else CHR '','' # quote S ''channels'' @ CHR '':'' # CHR ''['' # join (map (render S) (map JStr chs)) @ CHR '']'' # ''}'')"
| "fields S (Pong n) = CHR '','' # quote S ''timestamp'' @ CHR '':'' # number S n @ ''}''"
| "fields S (Error code msg) =
     CHR '','' # quote S ''code'' @ CHR '':'' # quote S code @ CHR '','' # quote S ''message'' @ CHR '':'' # quote S msg @ ''}''"

lemma to_frame_text:
  "as_str (to_frame S m) = CHR ''{'' # quote S ''type'' @ CHR '':'' # quote S (tag m) @ fields S m"
  by (cases m) (simp_all add: to_frame_def)

lemma fields_inject:
  assumes S: "serde_ok S" and tag: "tag m = tag m'" and eq: "fields S m = fields S m'"
  shows "m = m'"
proof -
  note inject = quote_cancel [OF S] render_channels [OF S] render_rejections [OF S]
  have num: "number S a = number S b \<Longrightarrow> a = b" for a b
    using S unfolding serde_ok_def by (metis injD)
  have qs: "quote S a = quote S b \<Longrightarrow> a = b" for a b
    using quote_cancel [OF S, of a "[]" b "[]"] by simp
  have chs: "join (map (render S) (map JStr xs)) = join (map (render S) (map JStr ys)) \<Longrightarrow> xs = ys"
    for xs ys using render_channels [OF S, of xs "[]" ys "[]"] by (simp del: map_map)
  have rej: "join (map (render S) (map serialize_rejected xs)) =
      join (map (render S) (map serialize_rejected ys)) \<Longrightarrow> xs = ys"
    for xs ys using render_rejections [OF S, of xs "[]" ys "[]"] by (simp del: map_map)
  show ?thesis
    using tag eq
    by (cases m; cases m'; simp add: inject del: map_map split: if_splits)
      (auto dest: num qs chs rej simp del: map_map)
qed

lemma to_frame_inject:
  assumes "serde_ok S"
  shows "to_frame S m = to_frame S m' \<longleftrightarrow> m = m'"
proof
  assume "to_frame S m = to_frame S m'"
  then have "as_str (to_frame S m) = as_str (to_frame S m')" by simp
  then have "tag m = tag m'" and "fields S m = fields S m'"
    by (simp_all add: to_frame_text quote_cancel [OF assms])
  then show "m = m'" by (rule fields_inject [OF assms])
qed simp

section \<open>The reference JSON library meets its contract\<close>

lemma escape_delimited:
  "escape s @ CHR 0x22 # x = escape t @ CHR 0x22 # y \<longleftrightarrow> s = t \<and> x = y"
proof (induction s arbitrary: t)
  case Nil
  show ?case by (cases t) auto
next
  case (Cons c s)
  show ?case by (cases t) (auto simp: Cons.IH)
qed

fun digits_val :: "string \<Rightarrow> nat" where
  "digits_val [] = 0"
| "digits_val (c # cs) = (of_char c - 48) * 10 ^ length cs + digits_val cs"

lemma digits_val_snoc: "digits_val (s @ [c]) = digits_val s * 10 + (of_char c - 48)"
  by (induction s) (auto simp: algebra_simps)

lemma digit_val: "n < 10 \<Longrightarrow> of_char (char_of (48 + n) :: char) - 48 = (n :: nat)"
  by (simp add: of_char_of)

lemma digits_val_digits: "digits_val (digits n) = n"
proof (induction n rule: digits.induct)
  case (1 n)
  show ?case
  proof (cases "n < 10")
    case True
    then show ?thesis by (subst digits.simps) (simp add: digit_val del: digits.simps)
  next
    case False
    then have "digits_val (digits n) = digits_val (digits (n div 10)) * 10 + n mod 10"
      by (subst digits.simps) (simp add: digits_val_snoc digit_val del: digits.simps)
    with False 1 show ?thesis by simp
  qed
qed

lemma ref_serde_ok: "serde_ok ref_serde"
proof -
  have "inj (\<lambda>n :: u64. digits (unat n))"
    by (rule injI) (metis digits_val_digits word_unat_eq_iff)
  then show ?thesis
    by (simp add: serde_ok_def ref_serde_def escape_delimited)
qed

section \<open>Properties\<close>

text \<open>
  C27: A client can tell any two messages of the server apart: under a JSON library that meets its
  contract, two server messages are written as the same frame only if they are the same message, field
  by field, although empty lists of rejections and channels are left out.
\<close>

theorem frames_tell_messages_apart:
  assumes "serde_ok S"
  shows "to_frame S m = to_frame S m' \<longleftrightarrow> m = m'"
  by (rule to_frame_inject [OF assms])

theorem frames_tell_messages_apart_witness:
  "serde_ok ref_serde \<and>
   (to_frame ref_serde (Subscribed [''a''] []) = to_frame ref_serde (Unsubscribed [''a'']) \<longleftrightarrow>
    Subscribed [''a''] [] = Unsubscribed [''a''])"
  using ref_serde_ok frames_tell_messages_apart [OF ref_serde_ok, of "Subscribed [''a''] []" "Unsubscribed [''a'']"]
  by blast

text \<open>
  The text of a \<open>data\<close> frame is the tag, the channel as a JSON string, and then the bytes of the
  publisher's payload, unchanged, whatever they are.
\<close>

theorem data_frame_embeds_payload_verbatim:
  "as_str (to_frame S (Data ch payload)) =
     ''{'' @ quote S ''type'' @ '':'' @ quote S ''data'' @ '','' @ quote S ''channel'' @ '':'' @ quote S ch @
     '','' @ quote S ''payload'' @ '':'' @ payload @ ''}''"
  by (simp add: to_frame_def)

end
