(* ===== verification/Settings.thy ===== *)
theory Settings
  imports Protocol
begin

text \<open>
  The server's tunables and their validation: \<^verbatim>\<open>Config\<close> of \<^verbatim>\<open>src/src/server.rs\<close>. Sizes are \<open>nat\<close> (the
  program only compares them), the drop limit keeps its 64 bits, a \<^verbatim>\<open>Duration\<close> is its nanoseconds.
  The largest permit count of the runtime's semaphore is the parameter \<open>max_permits\<close>.
\<close>

record config =
  max_connections :: nat
  max_message_size :: nat
  max_subscriptions :: nat
  max_channel_len :: nat
  send_queue :: nat
  max_consecutive_drops :: u64
  auth_timeout :: nat
  heartbeat_interval :: nat
  heartbeat_timeout :: nat

definition from_secs :: "nat \<Rightarrow> nat" where
  "from_secs n = n * 1000000000"

definition Config_default :: config where
  "Config_default = \<lparr>max_connections = 10000, max_message_size = 64 * 1024, max_subscriptions = 256,
     max_channel_len = 256, send_queue = 256, max_consecutive_drops = 1000,
     auth_timeout = from_secs 10, heartbeat_interval = from_secs 30, heartbeat_timeout = from_secs 90\<rparr>"

definition Config_validate :: "nat \<Rightarrow> config \<Rightarrow> ws_error + unit" where
  "Config_validate max_permits c =
     (let bad = (\<lambda>field. Inl (Config field)) in
      if max_connections c = 0 then bad ''max_connections must be non-zero''
      else if max_connections c > max_permits then bad ''max_connections exceeds the permit limit''
      else if max_message_size c = 0 then bad ''max_message_size must be non-zero''
      else if max_subscriptions c = 0 then bad ''max_subscriptions must be non-zero''
      else if max_channel_len c = 0 then bad ''max_channel_len must be non-zero''
      else if send_queue c = 0 then bad ''send_queue must be non-zero''
      else if heartbeat_interval c = 0 then bad ''heartbeat_interval must be non-zero''
      else Inr ())"

text \<open>
  What a configuration that passes has to offer: the limits are non-zero and the semaphore can count
  the connections. Nothing bounds \<open>send_queue\<close> from above, nor asks for a drop limit.
\<close>

lemma Config_validate_accepts:
  assumes "Config_validate mp c = Inr ()"
  shows "0 < max_connections c" and "max_connections c \<le> mp" and "0 < send_queue c"
  using assms by (auto simp: Config_validate_def Let_def split: if_splits)

lemma Config_validate_send_queue:
  "Config_validate mp c = Inr () \<Longrightarrow> 0 < n \<Longrightarrow> Config_validate mp (c\<lparr>send_queue := n\<rparr>) = Inr ()"
  by (auto simp: Config_validate_def Let_def split: if_splits)

end
