(* ===== verification/Auth.thy ===== *)
theory Auth
  imports Prelude
begin

text \<open>
  Identity and authorisation, \<^verbatim>\<open>src/src/auth.rs\<close>.

  The two traits are function types: a \<^verbatim>\<open>TokenValidator\<close> is \<open>string \<Rightarrow> string + claims\<close> (left: the
  refusal sent to the client) and an \<^verbatim>\<open>Authorizer\<close> is \<open>claims \<Rightarrow> string \<Rightarrow> bool\<close>. The JWT library is
  the parameter \<open>jwt\<close>: how it makes a key of a secret, and its decoder. The locale
  \<open>token_validator\<close> is the trait's contract on refusals: the client learns that its token was
  refused and nothing that depends on the token. Both bundled validators are interpretations.
\<close>

section \<open>Claims\<close>

datatype json_value =
    Null
  | Bool bool
  | Number string
  | String string
  | Array "json_value list"
  | Object "(string \<times> json_value) list"

record claims =
  subject :: string
  attributes :: "string \<rightharpoonup> json_value"

definition Claims_new :: "string \<Rightarrow> claims" where
  "Claims_new s = \<lparr>subject = s, attributes = Map.empty\<rparr>"

definition as_string :: "json_value \<Rightarrow> string option" where
  "as_string v = (case v of String s \<Rightarrow> Some s | _ \<Rightarrow> None)"

definition get_str :: "claims \<Rightarrow> string \<Rightarrow> string option" where
  "get_str c key = Option.bind (attributes c key) as_string"

type_synonym validator = "string \<Rightarrow> string + claims"
type_synonym authorizer = "claims \<Rightarrow> string \<Rightarrow> bool"

section \<open>Bundled authorizer and validators\<close>

definition AllowAll_may_subscribe :: authorizer where
  "AllowAll_may_subscribe c ch = True"

record static_token =
  token :: string
  token_subject :: string

definition StaticToken_new :: "string \<Rightarrow> string \<Rightarrow> static_token" where
  "StaticToken_new t s = \<lparr>token = t, token_subject = s\<rparr>"

definition StaticToken_validate :: "static_token \<Rightarrow> validator" where
  "StaticToken_validate self t =
     (if t = token self then Inr (Claims_new (token_subject self)) else Inl ''invalid token'')"

datatype algorithm = HS256 | HS384 | HS512

record validation =
  algorithm :: algorithm
  required_spec_claims :: "string list"

text \<open>The JWT library: the key made of a secret, and the claims of a token that passes.\<close>

record 'k jwt =
  from_secret :: "string \<Rightarrow> 'k"
  decode :: "string \<Rightarrow> 'k \<Rightarrow> validation \<Rightarrow> (string \<rightharpoonup> json_value) option"

record 'k hmac_jwt =
  key :: 'k
  validation :: validation

definition HmacJwt_new :: "('k, 'x) jwt_scheme \<Rightarrow> string \<Rightarrow> 'k hmac_jwt" where
  "HmacJwt_new J secret =
     \<lparr>key = from_secret J secret,
      validation = \<lparr>algorithm = HS256, required_spec_claims = [''exp'', ''sub'']\<rparr>\<rparr>"

definition HmacJwt_validate :: "('k, 'x) jwt_scheme \<Rightarrow> 'k hmac_jwt \<Rightarrow> validator" where
  "HmacJwt_validate J self t =
     (case decode J t (key self) (validation self) of
        None \<Rightarrow> Inl ''invalid token''
      | Some attrs \<Rightarrow>
          (case attrs ''sub'' of
             Some (String s) \<Rightarrow> Inr \<lparr>subject = s, attributes = attrs(''sub'' := None)\<rparr>
           | _ \<Rightarrow> Inl ''invalid token''))"

text \<open>The text of the value in logs and error messages.\<close>

definition HmacJwt_fmt :: "'k hmac_jwt \<Rightarrow> string" where
  "HmacJwt_fmt self = ''HmacJwt { .. }''"

text \<open>A decoder for concrete runs: the one good token is the key itself, with \<open>exp\<close> and \<open>sub\<close> of the claims one can require.\<close>

definition demo_jwt :: "string jwt" where
  "demo_jwt = \<lparr>from_secret = (\<lambda>s. s),
     decode = (\<lambda>t k v. if t = k \<and> set (required_spec_claims v) \<inter> {''aud'', ''iss'', ''nbf''} = {}
        then Some [''sub'' \<mapsto> String ''alice'', ''exp'' \<mapsto> Number ''60'', ''tier'' \<mapsto> String ''pro''] else None)\<rparr>"

definition demo_claims :: claims where
  "demo_claims = \<lparr>subject = ''alice'',
     attributes = [''exp'' \<mapsto> Number ''60'', ''tier'' \<mapsto> String ''pro'']\<rparr>"

section \<open>The contract of a validator\<close>

locale token_validator =
  fixes validate :: validator
  assumes uniform_refusal: "validate t = Inl e \<Longrightarrow> validate t' = Inl e' \<Longrightarrow> e = e'"
begin

lemma refusal_constant: "\<exists>e. \<forall>t. validate t = Inl e \<or> (\<exists>c. validate t = Inr c)"
proof (cases "\<exists>t e. validate t = Inl e")
  case True
  then obtain t e where e: "validate t = Inl e" by blast
  have "validate t' = Inl e \<or> (\<exists>c. validate t' = Inr c)" for t'
    by (cases "validate t'") (auto dest: uniform_refusal [OF e])
  then show ?thesis by blast
next
  case False
  then have "\<exists>c. validate t = Inr c" for t
    by (cases "validate t") auto
  then show ?thesis by blast
qed

end

lemma HmacJwt_refusal: "HmacJwt_validate J self t = Inl e \<Longrightarrow> e = ''invalid token''"
  by (auto simp: HmacJwt_validate_def split: option.splits json_value.splits)

interpretation static: token_validator "StaticToken_validate self" for self
  by unfold_locales (auto simp: StaticToken_validate_def split: if_splits)

interpretation hmac: token_validator "HmacJwt_validate J self" for J self
  by unfold_locales (auto dest: HmacJwt_refusal)

section \<open>What the validators accept\<close>

lemma HmacJwt_accepts_iff:
  "HmacJwt_validate J self t = Inr c \<longleftrightarrow>
     (\<exists>m s. decode J t (key self) (validation self) = Some m \<and> m ''sub'' = Some (String s) \<and>
        c = \<lparr>subject = s, attributes = m(''sub'' := None)\<rparr>)"
  by (auto simp: HmacJwt_validate_def split: option.splits json_value.splits)

text \<open>
  \<^verbatim>\<open>StaticToken\<close> accepts exactly its own token, and then as its configured subject with no
  other claims; every other token gets the same refusal.
\<close>

theorem static_token_accepts_only_its_token:
  "StaticToken_validate (StaticToken_new tok sub) t =
     (if t = tok then Inr \<lparr>subject = sub, attributes = Map.empty\<rparr> else Inl ''invalid token'')"
  by (simp add: StaticToken_validate_def StaticToken_new_def Claims_new_def)

end
