(* ===== verification/Snapshots.thy ===== *)
theory Snapshots
  imports Prelude
begin

text \<open>
  Snapshot sources, \<^verbatim>\<open>src/src/snapshot.rs\<close>. A \<^verbatim>\<open>SnapshotSource\<close> is a function from channel to the
  JSON text of its snapshot, if it has one; \<^verbatim>\<open>LastValue\<close> is the map behind its lock. The locale
  \<open>last_value_store\<close> is what a caller of \<open>record\<close> and \<open>snapshot\<close> relies on.
\<close>

type_synonym snapshot_source = "string \<Rightarrow> string option"

definition NoSnapshots_snapshot :: snapshot_source where
  "NoSnapshots_snapshot ch = None"

record last_value =
  last_map :: "(string, string) hashmap"

definition LastValue_new :: last_value where
  "LastValue_new = \<lparr>last_map = []\<rparr>"

definition LastValue_record :: "string \<Rightarrow> string \<Rightarrow> last_value \<Rightarrow> last_value" where
  "LastValue_record ch payload s = s\<lparr>last_map := AList.update ch payload (last_map s)\<rparr>"

definition LastValue_snapshot :: "last_value \<Rightarrow> snapshot_source" where
  "LastValue_snapshot s ch = map_of (last_map s) ch"

text \<open>A publisher's recordings, in order.\<close>

definition record_all :: "('s \<Rightarrow> string \<Rightarrow> string \<Rightarrow> 's) \<Rightarrow> (string \<times> string) list \<Rightarrow> 's \<Rightarrow> 's" where
  "record_all rec ps s = fold (\<lambda>(ch, p) s. rec s ch p) ps s"

locale last_value_store =
  fixes new :: 's
    and rec :: "'s \<Rightarrow> string \<Rightarrow> string \<Rightarrow> 's"
    and snap :: "'s \<Rightarrow> string \<Rightarrow> string option"
  assumes snap_new: "snap new ch = None"
    and snap_rec: "snap (rec s ch p) ch' = (if ch' = ch then Some p else snap s ch')"
begin

lemma snap_record_all:
  "snap (record_all rec ps s) ch =
     (case filter (\<lambda>q. fst q = ch) ps of [] \<Rightarrow> snap s ch | q # qs \<Rightarrow> Some (snd (last (q # qs))))"
proof (induction ps rule: rev_induct)
  case (snoc q ps)
  then show ?case
    by (auto simp: record_all_def snap_rec split: list.splits prod.splits)
qed (simp add: record_all_def)

end

interpretation lv: last_value_store LastValue_new "\<lambda>s ch p. LastValue_record ch p s" LastValue_snapshot
  by unfold_locales (auto simp: LastValue_new_def LastValue_record_def LastValue_snapshot_def hash_simps)

text \<open>
  After any sequence of \<^verbatim>\<open>record\<close> calls on a new \<^verbatim>\<open>LastValue\<close>, the snapshot of a channel is the
  payload recorded last on that channel, and there is none exactly when none was recorded.
\<close>

theorem last_value_serves_the_latest:
  "LastValue_snapshot (record_all (\<lambda>s ch p. LastValue_record ch p s) ps LastValue_new) ch =
     (case filter (\<lambda>q. fst q = ch) ps of [] \<Rightarrow> None | q # qs \<Rightarrow> Some (snd (last (q # qs))))"
  by (simp only: lv.snap_record_all lv.snap_new)

end
