(* ===== verification/Channel.thy ===== *)
theory Channel
  imports Protocol
begin

text \<open>
  The bounded channel between publishers and a connection's task (\<^verbatim>\<open>tokio::sync::mpsc\<close>), a library
  the program only calls. It is the parameter \<open>'q mpsc\<close>: one value of type \<open>'q\<close> is the channel both
  ends share, \<open>view\<close> is what its documentation speaks of (capacity, frames buffered in order,
  receiver gone or not), and \<open>mpsc_ok\<close> names the documented behaviour as hypotheses on the
  operations. \<open>ref_mpsc\<close> is a channel that meets them, for concrete runs.
\<close>

datatype send_result = SendOk | SendFull | SendClosed

record chan =
  capacity :: nat
  buffered :: "frame list"
  rx_gone :: bool

record 'q mpsc =
  new_channel :: "nat \<Rightarrow> 'q"
  try_send :: "'q \<Rightarrow> frame \<Rightarrow> send_result \<times> 'q"
  recv :: "'q \<Rightarrow> frame option \<times> 'q"
  drop_rx :: "'q \<Rightarrow> 'q"
  view :: "'q \<Rightarrow> chan"

definition chan_try_send :: "chan \<Rightarrow> frame \<Rightarrow> send_result \<times> chan" where
  "chan_try_send c f =
     (if rx_gone c then (SendClosed, c)
      else if length (buffered c) < capacity c then (SendOk, c\<lparr>buffered := buffered c @ [f]\<rparr>)
      else (SendFull, c))"

definition chan_recv :: "chan \<Rightarrow> frame option \<times> chan" where
  "chan_recv c =
     (case buffered c of [] \<Rightarrow> (None, c) | f # fs \<Rightarrow> (Some f, c\<lparr>buffered := fs\<rparr>))"

text \<open>
  A channel keeps its free places in a semaphore, so \<^verbatim>\<open>mpsc::channel\<close> is documented to panic for a
  capacity of zero and for one above \<^verbatim>\<open>Semaphore::MAX_PERMITS\<close>, which is \<^verbatim>\<open>usize::MAX >> 3\<close>. Callers
  ask for \<open>new_channel\<close> only below that bound and write the panic out above it.
\<close>

definition MAX_PERMITS :: nat where
  "MAX_PERMITS = 2 ^ 61 - 1"

definition mpsc_ok :: "('q, 'x) mpsc_scheme \<Rightarrow> bool" where
  "mpsc_ok Q \<longleftrightarrow>
     (\<forall>n. 0 < n \<and> n \<le> MAX_PERMITS \<longrightarrow> view Q (new_channel Q n) = \<lparr>capacity = n, buffered = [], rx_gone = False\<rparr>) \<and>
     (\<forall>q f. (fst (try_send Q q f), view Q (snd (try_send Q q f))) = chan_try_send (view Q q) f) \<and>
     (\<forall>q. (fst (recv Q q), view Q (snd (recv Q q))) = chan_recv (view Q q)) \<and>
     (\<forall>q. rx_gone (view Q (drop_rx Q q)) \<and> capacity (view Q (drop_rx Q q)) = capacity (view Q q) \<and>
        set (buffered (view Q (drop_rx Q q))) \<subseteq> set (buffered (view Q q)) \<and>
        length (buffered (view Q (drop_rx Q q))) \<le> length (buffered (view Q q)))"

definition ref_mpsc :: "chan mpsc" where
  "ref_mpsc = \<lparr>new_channel = (\<lambda>n. \<lparr>capacity = n, buffered = [], rx_gone = False\<rparr>),
     try_send = chan_try_send, recv = chan_recv,
     drop_rx = (\<lambda>c. c\<lparr>buffered := [], rx_gone := True\<rparr>), view = (\<lambda>c. c)\<rparr>"

text \<open>A channel never holds more frames than it has room for.\<close>

definition within_capacity :: "('q, 'x) mpsc_scheme \<Rightarrow> 'q \<Rightarrow> bool" where
  "within_capacity Q q \<longleftrightarrow> length (buffered (view Q q)) \<le> capacity (view Q q)"

text \<open>A channel that takes the next frame.\<close>

definition accepts :: "('q, 'x) mpsc_scheme \<Rightarrow> 'q \<Rightarrow> bool" where
  "accepts Q q \<longleftrightarrow> \<not> rx_gone (view Q q) \<and> length (buffered (view Q q)) < capacity (view Q q)"

definition full :: "('q, 'x) mpsc_scheme \<Rightarrow> 'q \<Rightarrow> bool" where
  "full Q q \<longleftrightarrow> \<not> rx_gone (view Q q) \<and> capacity (view Q q) \<le> length (buffered (view Q q))"

definition room :: "('q, 'x) mpsc_scheme \<Rightarrow> 'q \<Rightarrow> nat" where
  "room Q q = capacity (view Q q) - length (buffered (view Q q))"

lemma ref_mpsc_ok: "mpsc_ok ref_mpsc"
  by (simp add: mpsc_ok_def ref_mpsc_def)

lemma mpsc_try_send:
  "mpsc_ok Q \<Longrightarrow> (fst (try_send Q q f), view Q (snd (try_send Q q f))) = chan_try_send (view Q q) f"
  by (simp add: mpsc_ok_def)

lemma mpsc_try_send_result:
  assumes "mpsc_ok Q"
  shows "fst (try_send Q q f) =
     (if rx_gone (view Q q) then SendClosed
      else if length (buffered (view Q q)) < capacity (view Q q) then SendOk else SendFull)"
  using mpsc_try_send [OF assms, of q f] by (auto simp: chan_try_send_def split: if_splits)

lemma mpsc_try_send_view:
  assumes "mpsc_ok Q"
  shows "view Q (snd (try_send Q q f)) =
     (if fst (try_send Q q f) = SendOk then (view Q q)\<lparr>buffered := buffered (view Q q) @ [f]\<rparr>
      else view Q q)"
  using mpsc_try_send [OF assms, of q f] by (auto simp: chan_try_send_def split: if_splits)

lemma mpsc_recv:
  assumes "mpsc_ok Q"
  shows "fst (recv Q q) = fst (chan_recv (view Q q))"
    and "view Q (snd (recv Q q)) = snd (chan_recv (view Q q))"
  using assms unfolding mpsc_ok_def by (metis fst_conv, metis snd_conv)

lemma mpsc_new:
  "mpsc_ok Q \<Longrightarrow> 0 < n \<Longrightarrow> n \<le> MAX_PERMITS \<Longrightarrow>
   view Q (new_channel Q n) = \<lparr>capacity = n, buffered = [], rx_gone = False\<rparr>"
  by (simp add: mpsc_ok_def)

lemma mpsc_drop_rx:
  assumes "mpsc_ok Q"
  shows "rx_gone (view Q (drop_rx Q q))" and "capacity (view Q (drop_rx Q q)) = capacity (view Q q)"
    and "set (buffered (view Q (drop_rx Q q))) \<subseteq> set (buffered (view Q q))"
    and "length (buffered (view Q (drop_rx Q q))) \<le> length (buffered (view Q q))"
  using assms by (simp_all add: mpsc_ok_def)

lemma within_capacity_try_send:
  "mpsc_ok Q \<Longrightarrow> within_capacity Q q \<Longrightarrow> within_capacity Q (snd (try_send Q q f))"
  by (auto simp: within_capacity_def mpsc_try_send_view mpsc_try_send_result split: if_splits)

lemma within_capacity_recv:
  "mpsc_ok Q \<Longrightarrow> within_capacity Q q \<Longrightarrow> within_capacity Q (snd (recv Q q))"
  by (auto simp: within_capacity_def mpsc_recv chan_recv_def split: list.splits)

lemma try_send_SendOk_iff: "mpsc_ok Q \<Longrightarrow> fst (try_send Q q f) = SendOk \<longleftrightarrow> accepts Q q"
  by (auto simp: mpsc_try_send_result accepts_def)

lemma try_send_SendFull_iff: "mpsc_ok Q \<Longrightarrow> fst (try_send Q q f) = SendFull \<longleftrightarrow> full Q q"
  by (auto simp: mpsc_try_send_result full_def)

end
