(* ===== verification/Registry.thy ===== *)
theory Registry
  imports Channel
begin

text \<open>
  The connection registry, \<^verbatim>\<open>src/src/registry.rs\<close>: connections by id, the index from channel to
  subscribers, the id counter and the metrics. An operation is a function on the whole registry, as
  if it held the lock from beginning to end. The source takes the id before the lock and updates
  counters outside it, so a counter read at that moment may lag, and publishers share the lock as
  readers, which the theory of interleavings accounts for. The fields of \<^verbatim>\<open>Inner\<close> are fields of
  the registry here. A channel's sending end and receiving end are the same value \<open>tx\<close>.
  Counters are 64-bit words, as the atomics are. Counts returned to the caller are \<open>nat\<close>: they
  are bounded by the size of a collection.
\<close>

section \<open>State\<close>

datatype connection_id = ConnectionId u64

record 'q connection =
  conn_subject :: string
  subscriptions :: "string hashset"
  tx :: 'q
  dropped :: u64

record metrics =
  connections_active :: u64
  connections_total :: u64
  heartbeat_timeouts :: u64
  refused_full :: u64
  frames_sent :: u64
  frames_dropped :: u64

record 'q registry =
  connections :: "(connection_id, 'q connection) hashmap"
  by_channel :: "(string, connection_id hashset) hashmap"
  next_id :: u64
  metrics :: metrics

definition Metrics_default :: metrics where
  "Metrics_default = \<lparr>connections_active = 0, connections_total = 0, heartbeat_timeouts = 0,
     refused_full = 0, frames_sent = 0, frames_dropped = 0\<rparr>"

text \<open>\<^verbatim>\<open>Metrics::add\<close> wraps around, as \<^verbatim>\<open>fetch_add\<close> does; \<^verbatim>\<open>Registry::metrics\<close> is the field.\<close>

abbreviation (input) Metrics_add :: "u64 \<Rightarrow> u64 \<Rightarrow> u64" where
  "Metrics_add counter n \<equiv> counter + n"

abbreviation (input) Registry_metrics :: "'q registry \<Rightarrow> metrics" where
  "Registry_metrics reg \<equiv> metrics reg"

definition Registry_new :: "metrics \<Rightarrow> 'q registry" where
  "Registry_new m = \<lparr>connections = [], by_channel = [], next_id = 1, metrics = m\<rparr>"

section \<open>Connections come and go\<close>

definition Registry_add :: "string \<Rightarrow> 'q \<Rightarrow> 'q registry \<Rightarrow> connection_id \<times> 'q registry" where
  "Registry_add subj q reg =
     (let i = ConnectionId (next_id reg);
          m = metrics reg
      in (i, reg\<lparr>next_id := next_id reg + 1,
           connections := AList.update i
             \<lparr>conn_subject = subj, subscriptions = [], tx = q, dropped = 0\<rparr> (connections reg),
           metrics := m\<lparr>connections_total := Metrics_add (connections_total m) 1,
             connections_active := Metrics_add (connections_active m) 1\<rparr>\<rparr>))"

definition index_remove ::
    "connection_id \<Rightarrow> string \<Rightarrow> (string, connection_id hashset) hashmap \<Rightarrow>
     (string, connection_id hashset) hashmap" where
  "index_remove i ch bc =
     (case map_of bc ch of
        None \<Rightarrow> bc
      | Some s \<Rightarrow>
          let s' = removeAll i s
          in if s' = [] then AList.delete ch bc else AList.update ch s' bc)"

definition Registry_remove :: "connection_id \<Rightarrow> 'q registry \<Rightarrow> 'q registry" where
  "Registry_remove i reg =
     (case map_of (connections reg) i of
        None \<Rightarrow> reg
      | Some conn \<Rightarrow>
          reg\<lparr>connections := AList.delete i (connections reg),
             by_channel := fold (index_remove i) (subscriptions conn) (by_channel reg),
             metrics := (metrics reg)\<lparr>connections_active := connections_active (metrics reg) - 1\<rparr>\<rparr>)"

definition Registry_len :: "'q registry \<Rightarrow> nat" where
  "Registry_len reg = length (connections reg)"

definition Registry_is_empty :: "'q registry \<Rightarrow> bool" where
  "Registry_is_empty reg = (Registry_len reg = 0)"

definition Registry_subscribers :: "string \<Rightarrow> 'q registry \<Rightarrow> nat" where
  "Registry_subscribers ch reg =
     (case map_of (by_channel reg) ch of None \<Rightarrow> 0 | Some s \<Rightarrow> length s)"

section \<open>Subscriptions\<close>

fun subscribe_loop ::
    "nat \<Rightarrow> string list \<Rightarrow> string hashset \<Rightarrow> string list \<Rightarrow> string list \<Rightarrow>
     string hashset \<times> string list \<times> string list" where
  "subscribe_loop mx [] subs added over = (subs, added, over)"
| "subscribe_loop mx (ch # chs) subs added over =
     (if ch \<in> set subs then subscribe_loop mx chs subs added over
      else if mx \<le> length subs then subscribe_loop mx chs subs added (over @ [ch])
      else subscribe_loop mx chs (List.insert ch subs) (added @ [ch]) over)"

definition index_insert ::
    "connection_id \<Rightarrow> string \<Rightarrow> (string, connection_id hashset) hashmap \<Rightarrow>
     (string, connection_id hashset) hashmap" where
  "index_insert i ch bc =
     AList.update ch (List.insert i (case map_of bc ch of None \<Rightarrow> [] | Some s \<Rightarrow> s)) bc"

definition Registry_subscribe ::
    "connection_id \<Rightarrow> string list \<Rightarrow> nat \<Rightarrow> 'q registry \<Rightarrow> (string list \<times> string list) \<times> 'q registry" where
  "Registry_subscribe i channels mx reg =
     (case map_of (connections reg) i of
        None \<Rightarrow> (([], []), reg)
      | Some conn \<Rightarrow>
          let (subs, added, over) = subscribe_loop mx channels (subscriptions conn) [] []
          in ((added, over),
              reg\<lparr>connections := AList.update i (conn\<lparr>subscriptions := subs\<rparr>) (connections reg),
                 by_channel := fold (index_insert i) added (by_channel reg)\<rparr>))"

fun unsubscribe_loop ::
    "string list \<Rightarrow> string hashset \<Rightarrow> string list \<Rightarrow> string hashset \<times> string list" where
  "unsubscribe_loop [] subs removed = (subs, removed)"
| "unsubscribe_loop (ch # chs) subs removed =
     (if ch \<in> set subs then unsubscribe_loop chs (removeAll ch subs) (removed @ [ch])
      else unsubscribe_loop chs subs removed)"

definition Registry_unsubscribe ::
    "connection_id \<Rightarrow> string list \<Rightarrow> 'q registry \<Rightarrow> string list \<times> 'q registry" where
  "Registry_unsubscribe i channels reg =
     (case map_of (connections reg) i of
        None \<Rightarrow> ([], reg)
      | Some conn \<Rightarrow>
          let (subs, removed) = unsubscribe_loop channels (subscriptions conn) []
          in (removed,
              reg\<lparr>connections := AList.update i (conn\<lparr>subscriptions := subs\<rparr>) (connections reg),
                 by_channel := fold (index_remove i) removed (by_channel reg)\<rparr>))"

section \<open>Delivery\<close>

definition deliver ::
    "('q, 'x) mpsc_scheme \<Rightarrow> 'q connection \<Rightarrow> frame \<Rightarrow> metrics \<Rightarrow> bool \<times> 'q connection \<times> metrics" where
  "deliver Q conn f m =
     (case try_send Q (tx conn) f of
        (SendOk, q) \<Rightarrow>
          (True, conn\<lparr>tx := q, dropped := 0\<rparr>, m\<lparr>frames_sent := Metrics_add (frames_sent m) 1\<rparr>)
      | (SendFull, q) \<Rightarrow>
          (False, conn\<lparr>tx := q, dropped := dropped conn + 1\<rparr>,
           m\<lparr>frames_dropped := Metrics_add (frames_dropped m) 1\<rparr>)
      | (SendClosed, q) \<Rightarrow> (False, conn\<lparr>tx := q\<rparr>, m))"

fun publish_loop ::
    "('q, 'x) mpsc_scheme \<Rightarrow> frame \<Rightarrow> connection_id list \<Rightarrow> nat \<Rightarrow> 'q registry \<Rightarrow> nat \<times> 'q registry" where
  "publish_loop Q f [] n reg = (n, reg)"
| "publish_loop Q f (i # is) n reg =
     (case map_of (connections reg) i of
        None \<Rightarrow> publish_loop Q f is n reg
      | Some conn \<Rightarrow>
          let (ok, conn', m') = deliver Q conn f (metrics reg)
          in publish_loop Q f is (if ok then n + 1 else n)
               (reg\<lparr>connections := AList.update i conn' (connections reg), metrics := m'\<rparr>))"

definition Registry_publish ::
    "('q, 'x) mpsc_scheme \<Rightarrow> string \<Rightarrow> frame \<Rightarrow> 'q registry \<Rightarrow> nat \<times> 'q registry" where
  "Registry_publish Q ch f reg =
     (case map_of (by_channel reg) ch of
        None \<Rightarrow> (0, reg)
      | Some ids \<Rightarrow> publish_loop Q f ids 0 reg)"

fun broadcast_loop ::
    "('q, 'x) mpsc_scheme \<Rightarrow> frame \<Rightarrow> (connection_id, 'q connection) hashmap \<Rightarrow> metrics \<Rightarrow>
     nat \<times> (connection_id, 'q connection) hashmap \<times> metrics" where
  "broadcast_loop Q f [] m = (0, [], m)"
| "broadcast_loop Q f ((i, conn) # cs) m =
     (let (ok, conn', m') = deliver Q conn f m;
          (n, cs', m'') = broadcast_loop Q f cs m'
      in (if ok then n + 1 else n, (i, conn') # cs', m''))"

definition Registry_broadcast ::
    "('q, 'x) mpsc_scheme \<Rightarrow> frame \<Rightarrow> 'q registry \<Rightarrow> nat \<times> 'q registry" where
  "Registry_broadcast Q f reg =
     (let (n, cs, m) = broadcast_loop Q f (connections reg) (metrics reg)
      in (n, reg\<lparr>connections := cs, metrics := m\<rparr>))"

definition Registry_send ::
    "('q, 'x) mpsc_scheme \<Rightarrow> connection_id \<Rightarrow> frame \<Rightarrow> 'q registry \<Rightarrow> bool \<times> 'q registry" where
  "Registry_send Q i f reg =
     (case map_of (connections reg) i of
        None \<Rightarrow> (False, reg)
      | Some conn \<Rightarrow>
          let (ok, conn', m') = deliver Q conn f (metrics reg)
          in (ok, reg\<lparr>connections := AList.update i conn' (connections reg), metrics := m'\<rparr>))"

definition Registry_drops :: "connection_id \<Rightarrow> 'q registry \<Rightarrow> u64" where
  "Registry_drops i reg =
     (case map_of (connections reg) i of None \<Rightarrow> 0 | Some c \<Rightarrow> dropped c)"

section \<open>The invariant\<close>

definition subs_of :: "'q registry \<Rightarrow> connection_id \<Rightarrow> string set" where
  "subs_of reg i = (case map_of (connections reg) i of None \<Rightarrow> {} | Some c \<Rightarrow> set (subscriptions c))"

definition indexed :: "(string, connection_id hashset) hashmap \<Rightarrow> string \<Rightarrow> connection_id set" where
  "indexed bc ch = (case map_of bc ch of None \<Rightarrow> {} | Some s \<Rightarrow> set s)"

definition index_wf :: "(string, connection_id hashset) hashmap \<Rightarrow> bool" where
  "index_wf bc \<longleftrightarrow> keys_distinct bc \<and> (\<forall>ch s. map_of bc ch = Some s \<longrightarrow> s \<noteq> [] \<and> distinct s)"

definition connections_wf :: "'q registry \<Rightarrow> bool" where
  "connections_wf reg \<longleftrightarrow> keys_distinct (connections reg) \<and>
     (\<forall>i c. map_of (connections reg) i = Some c \<longrightarrow> distinct (subscriptions c))"

definition ids_issued :: "'q registry \<Rightarrow> bool" where
  "ids_issued reg \<longleftrightarrow> 0 < next_id reg \<and>
     (\<forall>n. ConnectionId n \<in> fst ` set (connections reg) \<longrightarrow> 0 < n \<and> n < next_id reg)"

definition registry_inv :: "'q registry \<Rightarrow> bool" where
  "registry_inv reg \<longleftrightarrow>
     connections_wf reg \<and> index_wf (by_channel reg) \<and> ids_issued reg \<and>
     (\<forall>ch i. i \<in> indexed (by_channel reg) ch \<longleftrightarrow> ch \<in> subs_of reg i) \<and>
     connections_active (metrics reg) = of_nat (length (connections reg))"

text \<open>What delivering frames leaves alone: ids, subjects, subscriptions, index and counts.\<close>

definition routing ::
    "'q registry \<Rightarrow> connection_id list \<times> (connection_id \<rightharpoonup> string \<times> string hashset) \<times>
       (string, connection_id hashset) hashmap \<times> u64 \<times> u64" where
  "routing reg = (map fst (connections reg),
     \<lambda>i. map_option (\<lambda>c. (conn_subject c, subscriptions c)) (map_of (connections reg) i),
     by_channel reg, next_id reg, connections_active (metrics reg))"

text \<open>The parts of one delivery: whether it succeeds, and what it leaves behind.\<close>

definition delivered :: "('q, 'x) mpsc_scheme \<Rightarrow> frame \<Rightarrow> 'q connection \<Rightarrow> bool" where
  "delivered Q f c \<longleftrightarrow> fst (try_send Q (tx c) f) = SendOk"

definition after_deliver :: "('q, 'x) mpsc_scheme \<Rightarrow> frame \<Rightarrow> 'q connection \<Rightarrow> 'q connection" where
  "after_deliver Q f c = c\<lparr>tx := snd (try_send Q (tx c) f),
     dropped := (case fst (try_send Q (tx c) f) of
       SendOk \<Rightarrow> 0 | SendFull \<Rightarrow> dropped c + 1 | SendClosed \<Rightarrow> dropped c)\<rparr>"

definition tally :: "('q, 'x) mpsc_scheme \<Rightarrow> frame \<Rightarrow> 'q connection \<Rightarrow> metrics \<Rightarrow> metrics" where
  "tally Q f c m = (case fst (try_send Q (tx c) f) of
       SendOk \<Rightarrow> m\<lparr>frames_sent := frames_sent m + 1\<rparr>
     | SendFull \<Rightarrow> m\<lparr>frames_dropped := frames_dropped m + 1\<rparr>
     | SendClosed \<Rightarrow> m)"

text \<open>The channels of a request that are not subscribed yet, at their first occurrence.\<close>

fun fresh :: "string set \<Rightarrow> string list \<Rightarrow> string list" where
  "fresh S [] = []"
| "fresh S (x # xs) = (if x \<in> S then fresh S xs else x # fresh (insert x S) xs)"

section \<open>Delivery leaves the routing alone\<close>

lemma deliver_eq: "deliver Q c f m = (delivered Q f c, after_deliver Q f c, tally Q f c m)"
  by (auto simp: deliver_def delivered_def after_deliver_def tally_def
      split: prod.splits send_result.splits)

lemma after_deliver_fields [simp]:
  "conn_subject (after_deliver Q f c) = conn_subject c"
  "subscriptions (after_deliver Q f c) = subscriptions c"
  by (simp_all add: after_deliver_def)

lemma tally_active [simp]: "connections_active (tally Q f c m) = connections_active m"
  by (simp add: tally_def split: send_result.splits)

lemma routing_update_delivered:
  assumes "map_of (connections reg) i = Some c"
  shows "routing (reg\<lparr>connections := AList.update i (after_deliver Q f c) (connections reg),
           metrics := tally Q f c' (metrics reg)\<rparr>) = routing reg"
  using assms map_of_SomeD_key [OF assms]
  by (auto simp: routing_def hash_simps)

lemma publish_loop_routing: "routing (snd (publish_loop Q f ids n reg)) = routing reg"
  by (induction ids arbitrary: n reg)
    (auto simp: deliver_eq Let_def routing_update_delivered split: option.splits)

lemma broadcast_loop_eq:
  "broadcast_loop Q f cs m =
     (length (filter (\<lambda>ic. delivered Q f (snd ic)) cs), map (\<lambda>(i, c). (i, after_deliver Q f c)) cs,
      fold (\<lambda>ic. tally Q f (snd ic)) cs m)"
proof (induction cs arbitrary: m)
  case (Cons ic cs)
  then show ?case by (cases ic) (simp add: deliver_eq)
qed simp

lemma fold_tally_active [simp]:
  "connections_active (fold (\<lambda>ic. tally Q f (snd ic)) cs m) = connections_active m"
  by (induction cs arbitrary: m) simp_all

lemma map_of_map_snd: "map_of (map (\<lambda>(i, c). (i, g c)) cs) i = map_option g (map_of cs i)"
  by (induction cs) auto

lemma broadcast_eq:
  "Registry_broadcast Q f reg =
     (length (filter (\<lambda>ic. delivered Q f (snd ic)) (connections reg)),
      reg\<lparr>connections := map (\<lambda>(i, c). (i, after_deliver Q f c)) (connections reg),
         metrics := fold (\<lambda>ic. tally Q f (snd ic)) (connections reg) (metrics reg)\<rparr>)"
  by (simp add: Registry_broadcast_def broadcast_loop_eq)

locale delivery_op =
  fixes deliver_op :: "'q registry \<Rightarrow> 'a \<times> 'q registry"
  assumes keeps_routing: "routing (snd (deliver_op reg)) = routing reg"
begin

lemma keeps_index: "by_channel (snd (deliver_op reg)) = by_channel reg"
  using keeps_routing [of reg] by (simp add: routing_def)

lemma keeps_keys: "map fst (connections (snd (deliver_op reg))) = map fst (connections reg)"
  using keeps_routing [of reg] by (simp add: routing_def)

lemma keeps_empty: "connections (snd (deliver_op reg)) = [] \<longleftrightarrow> connections reg = []"
  by (metis keeps_keys map_is_Nil_conv)

lemma keeps_len: "Registry_len (snd (deliver_op reg)) = Registry_len reg"
  unfolding Registry_len_def by (metis keeps_keys length_map)

lemma keeps_subscribers: "Registry_subscribers ch (snd (deliver_op reg)) = Registry_subscribers ch reg"
  by (simp add: Registry_subscribers_def keeps_index)

lemma keeps_subs: "subs_of (snd (deliver_op reg)) i = subs_of reg i"
proof -
  have "map_option (\<lambda>c. (conn_subject c, subscriptions c)) (map_of (connections (snd (deliver_op reg))) i) =
        map_option (\<lambda>c. (conn_subject c, subscriptions c)) (map_of (connections reg) i)"
    using keeps_routing [of reg] by (auto simp: routing_def dest: fun_cong [of _ _ i])
  then show ?thesis
    by (auto simp: subs_of_def split: option.splits)
qed

end

interpretation publish: delivery_op "Registry_publish Q ch f" for Q ch f
  by unfold_locales (simp add: Registry_publish_def publish_loop_routing split: option.splits)

interpretation broadcast: delivery_op "Registry_broadcast Q f" for Q f
  by unfold_locales
    (auto simp: routing_def broadcast_eq map_of_map_snd option.map_comp o_def split_beta)

interpretation send: delivery_op "Registry_send Q i f" for Q i f
  by unfold_locales
    (simp add: Registry_send_def deliver_eq routing_update_delivered split: option.splits)

section \<open>The invariant is about the routing\<close>

lemma subs_of_routing: "routing r = routing r' \<Longrightarrow> subs_of r i = subs_of r' i"
proof -
  assume "routing r = routing r'"
  then have "map_option (\<lambda>c. (conn_subject c, subscriptions c)) (map_of (connections r) i) =
        map_option (\<lambda>c. (conn_subject c, subscriptions c)) (map_of (connections r') i)"
    by (auto simp: routing_def dest: fun_cong [of _ _ i])
  then show ?thesis by (auto simp: subs_of_def split: option.splits)
qed

lemma connections_wf_routing:
  assumes "routing r = routing r'" and "connections_wf r"
  shows "connections_wf r'"
proof -
  have "distinct (subscriptions c)" if "map_of (connections r') i = Some c" for i c
  proof -
    from assms(1) have "map_option (\<lambda>c. (conn_subject c, subscriptions c)) (map_of (connections r) i) =
        map_option (\<lambda>c. (conn_subject c, subscriptions c)) (map_of (connections r') i)"
      by (auto simp: routing_def dest: fun_cong [of _ _ i])
    with that obtain c' where "map_of (connections r) i = Some c'" "subscriptions c' = subscriptions c"
      by auto
    with assms(2) show ?thesis unfolding connections_wf_def by metis
  qed
  with assms show ?thesis by (simp add: connections_wf_def routing_def)
qed

lemma registry_inv_routing:
  assumes "routing r = routing r'" and "registry_inv r"
  shows "registry_inv r'"
proof -
  have keys: "fst ` set (connections r) = fst ` set (connections r')"
    and len: "length (connections r) = length (connections r')"
    using arg_cong [OF assms(1), of "\<lambda>t. set (fst t)"] arg_cong [OF assms(1), of "\<lambda>t. length (fst t)"]
    by (simp_all add: routing_def)
  show ?thesis
    using assms keys len connections_wf_routing [OF assms(1)] subs_of_routing [OF assms(1)]
    by (simp add: registry_inv_def ids_issued_def routing_def)
qed

context delivery_op
begin

lemma keeps_inv: "registry_inv reg \<Longrightarrow> registry_inv (snd (deliver_op reg))"
  by (rule registry_inv_routing [OF keeps_routing [symmetric]])

end

section \<open>The index\<close>

lemma indexed_insert:
  "indexed (index_insert i ch bc) ch' = (if ch' = ch then insert i (indexed bc ch') else indexed bc ch')"
  by (auto simp: indexed_def index_insert_def hash_simps split: option.splits)

lemma index_wf_insert: "index_wf bc \<Longrightarrow> index_wf (index_insert i ch bc)"
  by (auto simp: index_wf_def index_insert_def hash_simps split: option.splits if_splits)

lemma indexed_remove:
  "indexed (index_remove i ch bc) ch' = (if ch' = ch then indexed bc ch' - {i} else indexed bc ch')"
  by (auto simp: indexed_def index_remove_def Let_def hash_simps split: option.splits if_splits)

lemma index_wf_remove: "index_wf bc \<Longrightarrow> index_wf (index_remove i ch bc)"
  by (auto simp: index_wf_def index_remove_def Let_def hash_simps split: option.splits if_splits)

lemma indexed_fold_insert:
  "indexed (fold (index_insert i) chs bc) ch = (if ch \<in> set chs then insert i (indexed bc ch) else indexed bc ch)"
  by (induction chs arbitrary: bc) (auto simp: indexed_insert)

lemma index_wf_fold_insert: "index_wf bc \<Longrightarrow> index_wf (fold (index_insert i) chs bc)"
  by (induction chs arbitrary: bc) (auto simp: index_wf_insert)

lemma indexed_fold_remove:
  "indexed (fold (index_remove i) chs bc) ch = (if ch \<in> set chs then indexed bc ch - {i} else indexed bc ch)"
  by (induction chs arbitrary: bc) (auto simp: indexed_remove)

lemma index_wf_fold_remove: "index_wf bc \<Longrightarrow> index_wf (fold (index_remove i) chs bc)"
  by (induction chs arbitrary: bc) (auto simp: index_wf_remove)

lemmas index_simps = indexed_fold_insert index_wf_fold_insert indexed_fold_remove index_wf_fold_remove

section \<open>The subscribe and unsubscribe loops\<close>

lemma set_fresh: "set (fresh S xs) = set xs - S"
  by (induction S xs rule: fresh.induct) auto

lemma distinct_fresh: "distinct (fresh S xs)"
  by (induction S xs rule: fresh.induct) (auto simp: set_fresh)

lemma subscribe_loop_eq:
  assumes "distinct subs"
  shows "subscribe_loop mx chs subs added over = (subs', added', over') \<Longrightarrow>
    distinct subs' \<and>
    added' = added @ take (mx - length subs) (fresh (set subs) chs) \<and>
    set subs' = set subs \<union> set (take (mx - length subs) (fresh (set subs) chs)) \<and>
    over' = over @ filter (\<lambda>ch. ch \<notin> set subs') chs"
  using assms
proof (induction mx chs subs added over arbitrary: subs' added' over' rule: subscribe_loop.induct)
  case (2 mx ch chs subs added over)
  consider (old) "ch \<in> set subs" | (full) "ch \<notin> set subs" "mx \<le> length subs"
    | (new) "ch \<notin> set subs" "length subs < mx" by linarith
  then show ?case
  proof cases
    case old
    with "2.prems" have "subscribe_loop mx chs subs added over = (subs', added', over')" by simp
    from "2.IH"(1) [OF old this "2.prems"(2)] old show ?thesis by simp
  next
    case full
    with "2.prems" have "subscribe_loop mx chs subs added (over @ [ch]) = (subs', added', over')" by simp
    from "2.IH"(2) [OF full this "2.prems"(2)] full show ?thesis by simp
  next
    case new
    then have "Suc (mx - Suc (length subs)) = mx - length subs" by simp
    then have tk: "take (mx - length subs) (ch # xs) = ch # take (mx - Suc (length subs)) xs" for xs
      by (metis take_Suc_Cons)
    from new "2.prems" have
      "subscribe_loop mx chs (List.insert ch subs) (added @ [ch]) over = (subs', added', over')" by simp
    moreover have "distinct (List.insert ch subs)" using "2.prems"(2) by simp
    moreover have "\<not> mx \<le> length subs" using new by simp
    ultimately show ?thesis
      using "2.IH"(3) [of subs' added' over'] new by (simp add: tk)
  qed
qed simp

lemma unsubscribe_loop_eq:
  "unsubscribe_loop chs subs removed = (subs', removed') \<Longrightarrow> distinct subs \<Longrightarrow>
    distinct subs' \<and> set subs' = set subs - set chs \<and> removed' = removed @ fresh (- set subs) chs"
proof (induction chs subs removed arbitrary: subs' removed' rule: unsubscribe_loop.induct)
  case (2 ch chs subs removed)
  show ?case
  proof (cases "ch \<in> set subs")
    case True
    with "2.prems" have "unsubscribe_loop chs (removeAll ch subs) (removed @ [ch]) = (subs', removed')"
      by simp
    moreover have "- (set subs - {ch}) = insert ch (- set subs)" by auto
    ultimately show ?thesis
      using "2.IH"(1) [OF True _ distinct_removeAll [OF "2.prems"(2)], of subs' removed'] True by auto
  next
    case False
    with "2.prems" have "unsubscribe_loop chs subs removed = (subs', removed')" by simp
    from "2.IH"(2) [OF False this "2.prems"(2)] False show ?thesis by auto
  qed
qed simp

section \<open>Every operation keeps the invariant\<close>

lemma subs_of_update:
  "subs_of (reg\<lparr>connections := AList.update i c (connections reg), by_channel := bc\<rparr>) j =
     (if j = i then set (subscriptions c) else subs_of reg j)"
  by (simp add: subs_of_def hash_simps)

lemma registry_inv_indexed: "registry_inv reg \<Longrightarrow> i \<in> indexed (by_channel reg) ch \<longleftrightarrow> ch \<in> subs_of reg i"
  by (simp add: registry_inv_def)

lemma registry_inv_resubscribe:
  assumes inv: "registry_inv reg" and c: "map_of (connections reg) i = Some c"
    and subs: "distinct subs" and bc: "index_wf bc"
    and agree: "\<And>ch j. j \<in> indexed bc ch \<longleftrightarrow> (if j = i then ch \<in> set subs else ch \<in> subs_of reg j)"
  shows "registry_inv (reg\<lparr>connections := AList.update i (c\<lparr>subscriptions := subs\<rparr>) (connections reg),
           by_channel := bc\<rparr>)"
proof -
  have i: "i \<in> fst ` set (connections reg)" using c by (rule map_of_SomeD_key)
  show ?thesis
    using inv subs bc i
    by (auto simp: registry_inv_def connections_wf_def ids_issued_def subs_of_update agree hash_simps
        length_update_present insert_absorb)
qed

lemma connection_subs_distinct:
  "registry_inv reg \<Longrightarrow> map_of (connections reg) i = Some c \<Longrightarrow> distinct (subscriptions c)"
  by (auto simp: registry_inv_def connections_wf_def)

lemma subs_of_Some: "map_of (connections reg) i = Some c \<Longrightarrow> subs_of reg i = set (subscriptions c)"
  by (simp add: subs_of_def)

lemma registry_inv_new: "connections_active m = 0 \<Longrightarrow> registry_inv (Registry_new m)"
  by (simp add: registry_inv_def Registry_new_def connections_wf_def index_wf_def ids_issued_def
      indexed_def subs_of_def)

lemma next_id_fresh: "registry_inv reg \<Longrightarrow> ConnectionId (next_id reg) \<notin> fst ` set (connections reg)"
  by (auto simp: registry_inv_def ids_issued_def)

lemma add_fields:
  assumes "Registry_add subj q reg = (i, reg')"
  shows "i = ConnectionId (next_id reg)" and "next_id reg' = next_id reg + 1"
    and "by_channel reg' = by_channel reg"
    and "connections reg' = AList.update i
           \<lparr>conn_subject = subj, subscriptions = [], tx = q, dropped = 0\<rparr> (connections reg)"
    and "connections_active (metrics reg') = connections_active (metrics reg) + 1"
  using assms by (auto simp: Registry_add_def Let_def)

lemma subs_of_add:
  assumes inv: "registry_inv reg" and add: "Registry_add subj q reg = (i, reg')"
  shows "subs_of reg' j = subs_of reg j"
proof -
  have "map_of (connections reg) i = None"
    using next_id_fresh [OF inv] add_fields(1) [OF add] by (simp add: map_of_eq_None_keys)
  then show ?thesis by (auto simp: subs_of_def add_fields [OF add] hash_simps)
qed

lemma registry_inv_add:
  assumes inv: "registry_inv reg" and room: "next_id reg \<noteq> - 1"
    and add: "Registry_add subj q reg = (i, reg')"
  shows "registry_inv reg'"
proof -
  note flds = add_fields [OF add]
  have less: "next_id reg < next_id reg + 1"
    using room by (metis inc_less_eq_self_iff_eq linorder_not_le)
  have fresh: "i \<notin> fst ` set (connections reg)"
    using next_id_fresh [OF inv] flds(1) by simp
  have "connections_wf reg'"
    using inv by (auto simp: registry_inv_def connections_wf_def flds hash_simps split: if_splits)
  moreover have "ids_issued reg'"
    using inv less
    by (auto simp: registry_inv_def ids_issued_def flds hash_simps intro: less_trans)
  ultimately show ?thesis
    using inv fresh
    by (simp add: registry_inv_def subs_of_add [OF inv add] flds(3,4,5) length_update_fresh)
qed

lemma remove_fields:
  assumes "map_of (connections reg) i = Some c"
  shows "connections (Registry_remove i reg) = AList.delete i (connections reg)"
    and "by_channel (Registry_remove i reg) = fold (index_remove i) (subscriptions c) (by_channel reg)"
    and "next_id (Registry_remove i reg) = next_id reg"
    and "connections_active (metrics (Registry_remove i reg)) = connections_active (metrics reg) - 1"
  using assms by (simp_all add: Registry_remove_def)

lemma subs_of_remove: "subs_of (Registry_remove i reg) j = (if j = i then {} else subs_of reg j)"
  by (auto simp: Registry_remove_def subs_of_def hash_simps split: option.splits)

lemma registry_inv_remove:
  assumes inv: "registry_inv reg"
  shows "registry_inv (Registry_remove i reg)"
proof (cases "map_of (connections reg) i")
  case None
  then show ?thesis using inv by (simp add: Registry_remove_def)
next
  case (Some c)
  note flds = remove_fields [OF Some]
  have dist: "keys_distinct (connections reg)"
    using inv by (simp add: registry_inv_def connections_wf_def)
  have "connections_wf (Registry_remove i reg)"
    using inv by (auto simp: registry_inv_def connections_wf_def flds hash_simps split: if_splits)
  moreover have "index_wf (by_channel (Registry_remove i reg))"
    using inv by (simp add: registry_inv_def flds index_simps)
  moreover have "ids_issued (Registry_remove i reg)"
    using inv by (simp add: registry_inv_def ids_issued_def flds hash_simps)
  moreover have "j \<in> indexed (by_channel (Registry_remove i reg)) ch \<longleftrightarrow> ch \<in> subs_of (Registry_remove i reg) j"
    for ch j
    using registry_inv_indexed [OF inv, of j ch] subs_of_Some [OF Some]
    by (auto simp: flds index_simps subs_of_remove)
  moreover have "connections_active (metrics (Registry_remove i reg)) =
      of_nat (length (connections (Registry_remove i reg)))"
    using inv length_delete_present [OF dist map_of_SomeD_key [OF Some]]
    by (simp add: registry_inv_def flds) (metis add_diff_cancel_left' of_nat_Suc)
  ultimately show ?thesis by (simp add: registry_inv_def)
qed

lemma subscribe_known:
  assumes inv: "registry_inv reg" and c: "map_of (connections reg) i = Some c"
    and sub: "Registry_subscribe i chs mx reg = ((added, over), reg')"
  shows "added = take (mx - length (subscriptions c)) (fresh (subs_of reg i) chs)"
    and "subs_of reg' j = (if j = i then subs_of reg i \<union> set added else subs_of reg j)"
    and "over = filter (\<lambda>ch. ch \<notin> subs_of reg' i) chs"
    and "registry_inv reg'"
proof -
  obtain subs where loop: "subscribe_loop mx chs (subscriptions c) [] [] = (subs, added, over)"
    and reg': "reg' = reg\<lparr>connections := AList.update i (c\<lparr>subscriptions := subs\<rparr>) (connections reg),
           by_channel := fold (index_insert i) added (by_channel reg)\<rparr>"
    using sub c by (auto simp: Registry_subscribe_def split: prod.splits)
  note eq = subscribe_loop_eq [OF connection_subs_distinct [OF inv c] loop]
  have subs: "subs_of reg' j = (if j = i then set subs else subs_of reg j)" for j
    by (simp add: reg' subs_of_update)
  show "added = take (mx - length (subscriptions c)) (fresh (subs_of reg i) chs)"
    using eq by (simp add: subs_of_Some [OF c])
  show "subs_of reg' j = (if j = i then subs_of reg i \<union> set added else subs_of reg j)"
    using eq by (simp add: subs subs_of_Some [OF c])
  show "over = filter (\<lambda>ch. ch \<notin> subs_of reg' i) chs"
    using eq by (simp add: subs)
  have set_subs: "set subs = subs_of reg i \<union> set added" using eq by (simp add: subs_of_Some [OF c])
  have dist: "distinct subs" using eq by simp
  have "j \<in> indexed (fold (index_insert i) added (by_channel reg)) ch \<longleftrightarrow>
      (if j = i then ch \<in> set subs else ch \<in> subs_of reg j)" for ch j
    using registry_inv_indexed [OF inv, of j ch] by (auto simp: index_simps set_subs)
  moreover have "index_wf (fold (index_insert i) added (by_channel reg))"
    using inv by (simp add: registry_inv_def index_simps)
  ultimately show "registry_inv reg'"
    unfolding reg' by (intro registry_inv_resubscribe [OF inv c dist])
qed

lemma subscribe_unknown:
  "map_of (connections reg) i = None \<Longrightarrow> Registry_subscribe i chs mx reg = (([], []), reg)"
  by (simp add: Registry_subscribe_def)

lemma unsubscribe_known:
  assumes inv: "registry_inv reg" and c: "map_of (connections reg) i = Some c"
    and unsub: "Registry_unsubscribe i chs reg = (removed, reg')"
  shows "distinct removed" and "set removed = subs_of reg i \<inter> set chs"
    and "subs_of reg' j = (if j = i then subs_of reg i - set chs else subs_of reg j)"
    and "registry_inv reg'"
proof -
  obtain subs where loop: "unsubscribe_loop chs (subscriptions c) [] = (subs, removed)"
    and reg': "reg' = reg\<lparr>connections := AList.update i (c\<lparr>subscriptions := subs\<rparr>) (connections reg),
           by_channel := fold (index_remove i) removed (by_channel reg)\<rparr>"
    using unsub c by (auto simp: Registry_unsubscribe_def split: prod.splits)
  note eq = unsubscribe_loop_eq [OF loop connection_subs_distinct [OF inv c]]
  show "distinct removed" and rem: "set removed = subs_of reg i \<inter> set chs"
    using eq by (auto simp: subs_of_Some [OF c] set_fresh distinct_fresh)
  show "subs_of reg' j = (if j = i then subs_of reg i - set chs else subs_of reg j)"
    using eq by (simp add: reg' subs_of_update subs_of_Some [OF c])
  have subs: "set subs = subs_of reg i - set chs" using eq by (simp add: subs_of_Some [OF c])
  have dist: "distinct subs" using eq by simp
  have "j \<in> indexed (fold (index_remove i) removed (by_channel reg)) ch \<longleftrightarrow>
      (if j = i then ch \<in> set subs else ch \<in> subs_of reg j)" for ch j
    using registry_inv_indexed [OF inv, of j ch] by (auto simp: index_simps rem subs)
  moreover have "index_wf (fold (index_remove i) removed (by_channel reg))"
    using inv by (simp add: registry_inv_def index_simps)
  ultimately show "registry_inv reg'"
    unfolding reg' by (intro registry_inv_resubscribe [OF inv c dist])
qed

lemma unsubscribe_unknown:
  "map_of (connections reg) i = None \<Longrightarrow> Registry_unsubscribe i chs reg = ([], reg)"
  by (simp add: Registry_unsubscribe_def)

section \<open>The registry as a store of subscriptions\<close>

text \<open>
  What the protocol handler relies on of the registry: which channels each connection holds, and
  how the operations change that. A property of every held channel is kept as long as only
  channels with the property are asked for.
\<close>

locale subscription_store =
  fixes inv :: "'r \<Rightarrow> bool"
    and subs :: "'r \<Rightarrow> 'i \<Rightarrow> string set"
    and subscribe :: "'i \<Rightarrow> string list \<Rightarrow> nat \<Rightarrow> 'r \<Rightarrow> (string list \<times> string list) \<times> 'r"
    and unsubscribe :: "'i \<Rightarrow> string list \<Rightarrow> 'r \<Rightarrow> string list \<times> 'r"
    and remove :: "'i \<Rightarrow> 'r \<Rightarrow> 'r"
  assumes inv_subscribe: "inv r \<Longrightarrow> inv (snd (subscribe i chs mx r))"
    and inv_unsubscribe: "inv r \<Longrightarrow> inv (snd (unsubscribe i chs r))"
    and inv_remove: "inv r \<Longrightarrow> inv (remove i r)"
    and subs_subscribe: "inv r \<Longrightarrow> subs (snd (subscribe i chs mx r)) j =
          (if j = i then subs r i \<union> set (fst (fst (subscribe i chs mx r))) else subs r j)"
    and added_requested: "inv r \<Longrightarrow> set (fst (fst (subscribe i chs mx r))) \<subseteq> set chs - subs r i"
    and added_limit: "inv r \<Longrightarrow> finite (subs r i) \<and> (card (subs r i) \<le> mx \<longrightarrow>
          card (subs (snd (subscribe i chs mx r)) i) \<le> mx)"
    and subs_unsubscribe: "inv r \<Longrightarrow> subs (snd (unsubscribe i chs r)) j =
          (if j = i then subs r i - set chs else subs r j)"
    and subs_remove: "inv r \<Longrightarrow> subs (remove i r) j = (if j = i then {} else subs r j)"
begin

lemma guarded_subscribe:
  assumes "inv r" and "\<forall>ch \<in> subs r j. P j ch" and "\<forall>ch \<in> set chs. P i ch"
  shows "\<forall>ch \<in> subs (snd (subscribe i chs mx r)) j. P j ch"
  using assms subs_subscribe [OF assms(1)] added_requested [OF assms(1), of i chs mx] by auto

lemma guarded_unsubscribe:
  "inv r \<Longrightarrow> \<forall>ch \<in> subs r j. P j ch \<Longrightarrow> \<forall>ch \<in> subs (snd (unsubscribe i chs r)) j. P j ch"
  by (auto simp: subs_unsubscribe)

lemma limit_unsubscribe:
  assumes "inv r" and "card (subs r j) \<le> mx"
  shows "card (subs (snd (unsubscribe i chs r)) j) \<le> mx"
proof -
  have "subs (snd (unsubscribe i chs r)) j \<subseteq> subs r j"
    using assms(1) by (auto simp: subs_unsubscribe)
  then show ?thesis
    using assms added_limit [OF assms(1), of j] by (meson card_mono le_trans)
qed

lemma limit_subscribe:
  assumes "inv r" and "card (subs r j) \<le> mx"
  shows "card (subs (snd (subscribe i chs mx r)) j) \<le> mx"
  using assms added_limit [OF assms(1), of i mx chs] by (cases "j = i") (auto simp: subs_subscribe)

text \<open>Asking again for what is already held adds nothing.\<close>

lemma resubscribe_adds_nothing:
  assumes "inv r" and "set chs \<subseteq> subs r i"
  shows "fst (fst (subscribe i chs mx r)) = []"
proof -
  have "set (fst (fst (subscribe i chs mx r))) = {}"
    using added_requested [OF assms(1), of i chs mx] assms(2) by (metis Diff_eq_empty_iff subset_empty)
  then show ?thesis by simp
qed

text \<open>Unsubscribing what a subscription just added restores the subscriptions.\<close>

lemma subscribe_unsubscribe:
  assumes "inv r"
  shows "subs (snd (unsubscribe i (fst (fst (subscribe i chs mx r))) (snd (subscribe i chs mx r)))) j = subs r j"
  using assms inv_subscribe [OF assms, of i chs mx] added_requested [OF assms, of i chs mx]
  by (auto simp: subs_unsubscribe subs_subscribe)

end

lemma card_take_fresh:
  assumes "distinct subs" and "length subs \<le> mx"
  shows "card (set subs \<union> set (take (mx - length subs) (fresh (set subs) chs))) \<le> mx"
proof -
  have "card (set subs \<union> set (take (mx - length subs) (fresh (set subs) chs)))
      \<le> card (set subs) + card (set (take (mx - length subs) (fresh (set subs) chs)))"
    by (rule card_Un_le)
  also have "\<dots> \<le> length subs + (mx - length subs)"
    by (intro add_mono card_length order_trans [OF card_length]) simp
  finally show ?thesis using assms(2) by simp
qed

interpretation store: subscription_store registry_inv subs_of Registry_subscribe Registry_unsubscribe
  Registry_remove
proof unfold_locales
  fix r :: "'q registry" and i j chs mx
  assume inv: "registry_inv r"
  obtain added over r' where sub: "Registry_subscribe i chs mx r = ((added, over), r')"
    by (metis prod.exhaust)
  obtain removed r'' where unsub: "Registry_unsubscribe i chs r = (removed, r'')"
    by (metis prod.exhaust)
  show "registry_inv (snd (Registry_subscribe i chs mx r))"
    using subscribe_known(4) [OF inv _ sub] inv sub
    by (cases "map_of (connections r) i") (auto simp: subscribe_unknown)
  show "registry_inv (snd (Registry_unsubscribe i chs r))"
    using unsubscribe_known(4) [OF inv _ unsub] inv unsub
    by (cases "map_of (connections r) i") (auto simp: unsubscribe_unknown)
  show "registry_inv (Registry_remove i r)" using inv by (rule registry_inv_remove)
  show "subs_of (snd (Registry_subscribe i chs mx r)) j =
      (if j = i then subs_of r i \<union> set (fst (fst (Registry_subscribe i chs mx r))) else subs_of r j)"
    using subscribe_known(2) [OF inv _ sub] sub
    by (cases "map_of (connections r) i") (auto simp: subscribe_unknown)
  show "set (fst (fst (Registry_subscribe i chs mx r))) \<subseteq> set chs - subs_of r i"
    using subscribe_known(1) [OF inv _ sub] sub
    by (cases "map_of (connections r) i")
      (auto simp: subscribe_unknown set_fresh dest!: in_set_takeD)
  show "finite (subs_of r i) \<and> (card (subs_of r i) \<le> mx \<longrightarrow>
      card (subs_of (snd (Registry_subscribe i chs mx r)) i) \<le> mx)"
  proof (cases "map_of (connections r) i")
    case None
    then show ?thesis by (simp add: subs_of_def subscribe_unknown)
  next
    case (Some c)
    have d: "distinct (subscriptions c)" by (rule connection_subs_distinct [OF inv Some])
    show ?thesis
      using card_take_fresh [OF d] subscribe_known(1,2) [OF inv Some sub] sub
      by (auto simp: subs_of_Some [OF Some] distinct_card [OF d])
  qed
  show "subs_of (snd (Registry_unsubscribe i chs r)) j = (if j = i then subs_of r i - set chs else subs_of r j)"
    using unsubscribe_known(3) [OF inv _ unsub] unsub
    by (cases "map_of (connections r) i") (auto simp: unsubscribe_unknown subs_of_def)
  show "subs_of (Registry_remove i r) j = (if j = i then {} else subs_of r j)"
    by (rule subs_of_remove)
qed

end
