(* ===== verification/Registry_Spec.thy ===== *)
theory Registry_Spec
  imports Registry
begin

text \<open>
  What the registry promises, without the channel index and without any iteration order: a map
  from connection id to subject, set of channels, queue and drop streak. \<open>spec_publish\<close> looks at
  every connection and delivers to those that hold the channel. \<open>abs_registry\<close> reads a registry as
  such a map, and the refinement lemmas say that every operation of the registry computes, on the
  abstraction, what the specification computes: in particular that the lookup in the index reaches
  exactly the connections a scan would reach, that each is served once, and that the iteration
  order of the hash containers cannot be observed.
\<close>

section \<open>Abstract registry\<close>

record 'q aconn =
  a_subject :: string
  a_subs :: "string set"
  a_queue :: 'q
  a_streak :: u64

record 'q areg =
  a_conns :: "connection_id \<rightharpoonup> 'q aconn"
  a_next :: u64
  a_metrics :: metrics

definition abs_conn :: "'q connection \<Rightarrow> 'q aconn" where
  "abs_conn c = \<lparr>a_subject = conn_subject c, a_subs = set (subscriptions c), a_queue = tx c, a_streak = dropped c\<rparr>"

definition abs_registry :: "'q registry \<Rightarrow> 'q areg" where
  "abs_registry reg = \<lparr>a_conns = (\<lambda>i. map_option abs_conn (map_of (connections reg) i)),
     a_next = next_id reg, a_metrics = metrics reg\<rparr>"

section \<open>Abstract operations\<close>

definition spec_sent :: "('q, 'x) mpsc_scheme \<Rightarrow> frame \<Rightarrow> 'q aconn \<Rightarrow> bool" where
  "spec_sent Q f c \<longleftrightarrow> fst (try_send Q (a_queue c) f) = SendOk"

definition spec_overflow :: "('q, 'x) mpsc_scheme \<Rightarrow> frame \<Rightarrow> 'q aconn \<Rightarrow> bool" where
  "spec_overflow Q f c \<longleftrightarrow> fst (try_send Q (a_queue c) f) = SendFull"

definition spec_deliver :: "('q, 'x) mpsc_scheme \<Rightarrow> frame \<Rightarrow> 'q aconn \<Rightarrow> 'q aconn" where
  "spec_deliver Q f c = c\<lparr>a_queue := snd (try_send Q (a_queue c) f),
     a_streak := (if spec_sent Q f c then 0 else if spec_overflow Q f c then a_streak c + 1 else a_streak c)\<rparr>"

text \<open>Delivery of one frame to every connection of a set, and the number that took it.\<close>

definition spec_fanout ::
    "('q, 'x) mpsc_scheme \<Rightarrow> frame \<Rightarrow> connection_id set \<Rightarrow> 'q areg \<Rightarrow> nat \<times> 'q areg" where
  "spec_fanout Q f I a =
     (let sent = {i \<in> I. \<exists>c. a_conns a i = Some c \<and> spec_sent Q f c};
          full = {i \<in> I. \<exists>c. a_conns a i = Some c \<and> spec_overflow Q f c}
      in (card sent,
          a\<lparr>a_conns := (\<lambda>i. if i \<in> I then map_option (spec_deliver Q f) (a_conns a i) else a_conns a i),
            a_metrics := (a_metrics a)\<lparr>frames_sent := frames_sent (a_metrics a) + of_nat (card sent),
              frames_dropped := frames_dropped (a_metrics a) + of_nat (card full)\<rparr>\<rparr>))"

definition spec_publish ::
    "('q, 'x) mpsc_scheme \<Rightarrow> string \<Rightarrow> frame \<Rightarrow> 'q areg \<Rightarrow> nat \<times> 'q areg" where
  "spec_publish Q ch f a = spec_fanout Q f {i. \<exists>c. a_conns a i = Some c \<and> ch \<in> a_subs c} a"

definition spec_broadcast :: "('q, 'x) mpsc_scheme \<Rightarrow> frame \<Rightarrow> 'q areg \<Rightarrow> nat \<times> 'q areg" where
  "spec_broadcast Q f a = spec_fanout Q f (dom (a_conns a)) a"

definition spec_send ::
    "('q, 'x) mpsc_scheme \<Rightarrow> connection_id \<Rightarrow> frame \<Rightarrow> 'q areg \<Rightarrow> bool \<times> 'q areg" where
  "spec_send Q i f a = (fst (spec_fanout Q f {i} a) = 1, snd (spec_fanout Q f {i} a))"

definition spec_add :: "string \<Rightarrow> 'q \<Rightarrow> 'q areg \<Rightarrow> connection_id \<times> 'q areg" where
  "spec_add subj q a =
     (ConnectionId (a_next a),
      a\<lparr>a_conns := (a_conns a)(ConnectionId (a_next a) \<mapsto>
            \<lparr>a_subject = subj, a_subs = {}, a_queue = q, a_streak = 0\<rparr>),
        a_next := a_next a + 1,
        a_metrics := (a_metrics a)\<lparr>connections_total := connections_total (a_metrics a) + 1,
          connections_active := connections_active (a_metrics a) + 1\<rparr>\<rparr>)"

definition spec_remove :: "connection_id \<Rightarrow> 'q areg \<Rightarrow> 'q areg" where
  "spec_remove i a =
     (if a_conns a i = None then a
      else a\<lparr>a_conns := (a_conns a)(i := None),
             a_metrics := (a_metrics a)\<lparr>connections_active := connections_active (a_metrics a) - 1\<rparr>\<rparr>)"

definition spec_subscribe ::
    "connection_id \<Rightarrow> string list \<Rightarrow> nat \<Rightarrow> 'q areg \<Rightarrow> (string list \<times> string list) \<times> 'q areg" where
  "spec_subscribe i chs mx a =
     (case a_conns a i of
        None \<Rightarrow> (([], []), a)
      | Some c \<Rightarrow>
          let added = take (mx - card (a_subs c)) (fresh (a_subs c) chs);
              subs = a_subs c \<union> set added
          in ((added, filter (\<lambda>ch. ch \<notin> subs) chs),
              a\<lparr>a_conns := (a_conns a)(i \<mapsto> c\<lparr>a_subs := subs\<rparr>)\<rparr>))"

definition spec_unsubscribe ::
    "connection_id \<Rightarrow> string list \<Rightarrow> 'q areg \<Rightarrow> string list \<times> 'q areg" where
  "spec_unsubscribe i chs a =
     (case a_conns a i of
        None \<Rightarrow> ([], a)
      | Some c \<Rightarrow>
          (fresh (- a_subs c) chs, a\<lparr>a_conns := (a_conns a)(i \<mapsto> c\<lparr>a_subs := a_subs c - set chs\<rparr>)\<rparr>))"

section \<open>Runs of operations\<close>

datatype 'q reg_op =
    OpAdd string 'q
  | OpRemove connection_id
  | OpSubscribe connection_id "string list" nat
  | OpUnsubscribe connection_id "string list"
  | OpPublish string frame
  | OpBroadcast frame
  | OpSend connection_id frame

datatype reg_out =
    OutId connection_id
  | OutUnit
  | OutSubscribed "string list" "string list"
  | OutRemoved "string list"
  | OutCount nat
  | OutBool bool

fun reg_exec :: "('q, 'x) mpsc_scheme \<Rightarrow> 'q reg_op \<Rightarrow> 'q registry \<Rightarrow> reg_out \<times> 'q registry" where
  "reg_exec Q (OpAdd subj q) reg = map_prod OutId id (Registry_add subj q reg)"
| "reg_exec Q (OpRemove i) reg = (OutUnit, Registry_remove i reg)"
| "reg_exec Q (OpSubscribe i chs mx) reg = map_prod (\<lambda>(a, b). OutSubscribed a b) id (Registry_subscribe i chs mx reg)"
| "reg_exec Q (OpUnsubscribe i chs) reg = map_prod OutRemoved id (Registry_unsubscribe i chs reg)"
| "reg_exec Q (OpPublish ch f) reg = map_prod OutCount id (Registry_publish Q ch f reg)"
| "reg_exec Q (OpBroadcast f) reg = map_prod OutCount id (Registry_broadcast Q f reg)"
| "reg_exec Q (OpSend i f) reg = map_prod OutBool id (Registry_send Q i f reg)"

fun spec_exec :: "('q, 'x) mpsc_scheme \<Rightarrow> 'q reg_op \<Rightarrow> 'q areg \<Rightarrow> reg_out \<times> 'q areg" where
  "spec_exec Q (OpAdd subj q) a = map_prod OutId id (spec_add subj q a)"
| "spec_exec Q (OpRemove i) a = (OutUnit, spec_remove i a)"
| "spec_exec Q (OpSubscribe i chs mx) a = map_prod (\<lambda>(x, y). OutSubscribed x y) id (spec_subscribe i chs mx a)"
| "spec_exec Q (OpUnsubscribe i chs) a = map_prod OutRemoved id (spec_unsubscribe i chs a)"
| "spec_exec Q (OpPublish ch f) a = map_prod OutCount id (spec_publish Q ch f a)"
| "spec_exec Q (OpBroadcast f) a = map_prod OutCount id (spec_broadcast Q f a)"
| "spec_exec Q (OpSend i f) a = map_prod OutBool id (spec_send Q i f a)"

fun run_ops :: "('o \<Rightarrow> 's \<Rightarrow> reg_out \<times> 's) \<Rightarrow> 'o list \<Rightarrow> 's \<Rightarrow> reg_out list \<times> 's" where
  "run_ops ex [] s = ([], s)"
| "run_ops ex (x # xs) s =
     (let (r, s') = ex x s; (rs, s'') = run_ops ex xs s' in (r # rs, s''))"

text \<open>
  A registry for concrete runs: two connections with queues of one frame, the first subscribed to
  one channel.
\<close>

definition demo_ops :: "chan reg_op list" where
  "demo_ops = [OpAdd ''a'' (new_channel ref_mpsc 1), OpAdd ''b'' (new_channel ref_mpsc 1),
     OpSubscribe (ConnectionId 1) [''t''] 10]"

definition demo_reg :: "chan registry" where
  "demo_reg = snd (run_ops (reg_exec ref_mpsc) demo_ops (Registry_new Metrics_default))"

definition demo_conn :: "chan connection" where
  "demo_conn = \<lparr>conn_subject = ''a'', subscriptions = [''t''],
     tx = \<lparr>capacity = 1, buffered = [], rx_gone = False\<rparr>, dropped = 0\<rparr>"

text \<open>A connection whose queue is full.\<close>

definition overflowed :: "('q, 'x) mpsc_scheme \<Rightarrow> frame \<Rightarrow> 'q connection \<Rightarrow> bool" where
  "overflowed Q f c \<longleftrightarrow> fst (try_send Q (tx c) f) = SendFull"

section \<open>Delivery refines\<close>

lemma spec_sent_abs [simp]: "spec_sent Q f (abs_conn c) = delivered Q f c"
  by (simp add: spec_sent_def abs_conn_def delivered_def)

lemma spec_overflow_abs [simp]: "spec_overflow Q f (abs_conn c) = overflowed Q f c"
  by (simp add: spec_overflow_def abs_conn_def overflowed_def)

lemma abs_after_deliver: "abs_conn (after_deliver Q f c) = spec_deliver Q f (abs_conn c)"
  by (simp add: abs_conn_def after_deliver_def spec_deliver_def spec_sent_def spec_overflow_def
      split: send_result.splits)

lemma fold_tally:
  "fold (tally Q f) cs m =
     m\<lparr>frames_sent := frames_sent m + of_nat (length (filter (delivered Q f) cs)),
       frames_dropped := frames_dropped m + of_nat (length (filter (overflowed Q f) cs))\<rparr>"
  by (induction cs arbitrary: m)
    (simp_all add: tally_def delivered_def overflowed_def algebra_simps split: send_result.splits)

lemma length_filter_lookup:
  "distinct ids \<Longrightarrow> length (filter P (List.map_filter g ids)) = card {i \<in> set ids. \<exists>c. g i = Some c \<and> P c}"
proof (induction ids)
  case (Cons i ids)
  have "{j \<in> set (i # ids). \<exists>c. g j = Some c \<and> P c} =
      (if \<exists>c. g i = Some c \<and> P c then insert i {j \<in> set ids. \<exists>c. g j = Some c \<and> P c}
       else {j \<in> set ids. \<exists>c. g j = Some c \<and> P c})" by auto
  then show ?case using Cons by (auto simp: List.map_filter_simps split: option.splits)
qed (simp add: List.map_filter_simps)

lemma publish_loop_eq:
  assumes "distinct ids"
  shows "fst (publish_loop Q f ids n reg) =
           n + length (filter (delivered Q f) (List.map_filter (map_of (connections reg)) ids)) \<and>
         metrics (snd (publish_loop Q f ids n reg)) =
           fold (tally Q f) (List.map_filter (map_of (connections reg)) ids) (metrics reg) \<and>
         map_of (connections (snd (publish_loop Q f ids n reg))) =
           (\<lambda>i. if i \<in> set ids then map_option (after_deliver Q f) (map_of (connections reg) i)
                else map_of (connections reg) i)"
  using assms
proof (induction ids arbitrary: n reg)
  case Nil
  then show ?case by (simp add: List.map_filter_simps)
next
  case (Cons i ids)
  show ?case
  proof (cases "map_of (connections reg) i")
    case None
    then show ?thesis using Cons by (auto simp: List.map_filter_simps fun_eq_iff)
  next
    case (Some c)
    let ?reg = "reg\<lparr>connections := AList.update i (after_deliver Q f c) (connections reg),
      metrics := tally Q f c (metrics reg)\<rparr>"
    have "List.map_filter (map_of (connections ?reg)) ids = List.map_filter (map_of (connections reg)) ids"
      using Cons.prems by (intro map_filter_cong_set) (auto simp: hash_simps)
    then show ?thesis
      using Some Cons.prems Cons.IH [of "if delivered Q f c then n + 1 else n" ?reg]
      by (auto simp: deliver_eq List.map_filter_simps fun_upd_def fun_eq_iff hash_simps)
  qed
qed

lemma abs_fanout:
  assumes "distinct ids"
    and "metrics reg' = fold (tally Q f) (List.map_filter (map_of (connections reg)) ids) (metrics reg)"
    and "map_of (connections reg') =
           (\<lambda>i. if i \<in> set ids then map_option (after_deliver Q f) (map_of (connections reg) i)
                else map_of (connections reg) i)"
    and "next_id reg' = next_id reg"
  shows "spec_fanout Q f (set ids) (abs_registry reg) =
     (length (filter (delivered Q f) (List.map_filter (map_of (connections reg)) ids)), abs_registry reg')"
proof -
  have "{i \<in> set ids. \<exists>c. a_conns (abs_registry reg) i = Some c \<and> spec_sent Q f c} =
      {i \<in> set ids. \<exists>c. map_of (connections reg) i = Some c \<and> delivered Q f c}"
    and "{i \<in> set ids. \<exists>c. a_conns (abs_registry reg) i = Some c \<and> spec_overflow Q f c} =
      {i \<in> set ids. \<exists>c. map_of (connections reg) i = Some c \<and> overflowed Q f c}"
    by (auto simp: abs_registry_def)
  moreover have "(\<lambda>i. if i \<in> set ids then map_option (spec_deliver Q f) (a_conns (abs_registry reg) i)
        else a_conns (abs_registry reg) i) = a_conns (abs_registry reg')"
    by (auto simp: abs_registry_def assms(3) fun_eq_iff abs_after_deliver option.map_comp o_def)
  ultimately show ?thesis
    using assms(2,4) length_filter_lookup [OF assms(1), of _ "map_of (connections reg)"]
    by (simp add: spec_fanout_def Let_def fold_tally) (simp add: abs_registry_def)
qed

lemma publish_loop_next_id: "next_id (snd (publish_loop Q f ids n reg)) = next_id reg"
  using publish_loop_routing [of Q f ids n reg] by (simp add: routing_def)

lemma abs_publish_loop:
  assumes "distinct ids"
  shows "spec_fanout Q f (set ids) (abs_registry reg) =
     (fst (publish_loop Q f ids 0 reg), abs_registry (snd (publish_loop Q f ids 0 reg)))"
  using abs_fanout [OF assms, of "snd (publish_loop Q f ids 0 reg)" Q f reg]
    publish_loop_eq [OF assms, of Q f 0 reg] publish_loop_next_id [of Q f ids 0 reg]
  by simp

lemma spec_fanout_none: "spec_fanout Q f {} a = (0, a)"
  by (simp add: spec_fanout_def)

lemma publish_refines:
  assumes inv: "registry_inv reg"
  shows "spec_publish Q ch f (abs_registry reg) =
     (fst (Registry_publish Q ch f reg), abs_registry (snd (Registry_publish Q ch f reg)))"
proof -
  have targets: "{i. \<exists>c. a_conns (abs_registry reg) i = Some c \<and> ch \<in> a_subs c} = indexed (by_channel reg) ch"
    using registry_inv_indexed [OF inv]
    by (auto simp: abs_registry_def abs_conn_def subs_of_def split: option.splits)
  show ?thesis
  proof (cases "map_of (by_channel reg) ch")
    case None
    then show ?thesis
      unfolding spec_publish_def targets by (simp add: Registry_publish_def indexed_def spec_fanout_none)
  next
    case (Some ids)
    then have "distinct ids" using inv by (auto simp: registry_inv_def index_wf_def)
    with Some show ?thesis
      unfolding spec_publish_def targets by (simp add: Registry_publish_def indexed_def abs_publish_loop)
  qed
qed

lemma broadcast_refines:
  assumes inv: "registry_inv reg"
  shows "spec_broadcast Q f (abs_registry reg) =
     (fst (Registry_broadcast Q f reg), abs_registry (snd (Registry_broadcast Q f reg)))"
proof -
  have d: "keys_distinct (connections reg)" using inv by (simp add: registry_inv_def connections_wf_def)
  have dom: "dom (a_conns (abs_registry reg)) = set (map fst (connections reg))"
    by (auto simp: abs_registry_def dom_def map_of_eq_None_keys image_iff dest: map_of_SomeD)
  have fold_eq: "fold (\<lambda>ic. tally Q f (snd ic)) cs m = fold (tally Q f) (map snd cs) m" for cs m
    by (simp add: fold_map o_def)
  show ?thesis
    unfolding spec_broadcast_def dom
    by (subst abs_fanout [OF d, where reg' = "snd (Registry_broadcast Q f reg)"])
      (auto simp: broadcast_eq map_filter_lookup_keys [OF d] fold_eq map_of_map_snd fun_eq_iff
        map_of_eq_None_keys [symmetric] filter_map o_def)
qed

lemma send_refines:
  "spec_send Q i f (abs_registry reg) =
     (fst (Registry_send Q i f reg), abs_registry (snd (Registry_send Q i f reg)))"
proof -
  have "Registry_send Q i f reg =
      (fst (publish_loop Q f [i] 0 reg) = 1, snd (publish_loop Q f [i] 0 reg))"
    by (simp add: Registry_send_def deliver_eq split: option.splits)
  then show ?thesis
    using abs_publish_loop [of "[i]" Q f reg] by (simp add: spec_send_def)
qed

section \<open>The other operations refine\<close>

lemma add_refines:
  "spec_add subj q (abs_registry reg) =
     (fst (Registry_add subj q reg), abs_registry (snd (Registry_add subj q reg)))"
  by (auto simp: spec_add_def Registry_add_def abs_registry_def abs_conn_def Let_def hash_simps fun_eq_iff)

lemma remove_refines: "spec_remove i (abs_registry reg) = abs_registry (Registry_remove i reg)"
  by (auto simp: spec_remove_def Registry_remove_def abs_registry_def hash_simps fun_eq_iff split: option.splits)

lemma abs_resubscribe:
  "abs_registry (reg\<lparr>connections := AList.update i (c\<lparr>subscriptions := subs\<rparr>) (connections reg), by_channel := bc\<rparr>) =
     (abs_registry reg)\<lparr>a_conns := (a_conns (abs_registry reg))(i \<mapsto> (abs_conn c)\<lparr>a_subs := set subs\<rparr>)\<rparr>"
  by (auto simp: abs_registry_def abs_conn_def hash_simps fun_eq_iff)

lemma subscribe_refines:
  assumes inv: "registry_inv reg"
  shows "spec_subscribe i chs mx (abs_registry reg) =
     (fst (Registry_subscribe i chs mx reg), abs_registry (snd (Registry_subscribe i chs mx reg)))"
proof (cases "map_of (connections reg) i")
  case None
  then show ?thesis by (simp add: spec_subscribe_def subscribe_unknown abs_registry_def)
next
  case (Some c)
  obtain subs added over where loop: "subscribe_loop mx chs (subscriptions c) [] [] = (subs, added, over)"
    by (metis prod.exhaust)
  have d: "distinct (subscriptions c)" by (rule connection_subs_distinct [OF inv Some])
  have "a_conns (abs_registry reg) i = Some (abs_conn c)" using Some by (simp add: abs_registry_def)
  then show ?thesis
    using subscribe_loop_eq [OF d loop] distinct_card [OF d]
    by (simp add: spec_subscribe_def Registry_subscribe_def Some loop abs_resubscribe)
      (simp add: abs_conn_def Let_def)
qed

lemma unsubscribe_refines:
  assumes inv: "registry_inv reg"
  shows "spec_unsubscribe i chs (abs_registry reg) =
     (fst (Registry_unsubscribe i chs reg), abs_registry (snd (Registry_unsubscribe i chs reg)))"
proof (cases "map_of (connections reg) i")
  case None
  then show ?thesis by (simp add: spec_unsubscribe_def unsubscribe_unknown abs_registry_def)
next
  case (Some c)
  obtain subs removed where loop: "unsubscribe_loop chs (subscriptions c) [] = (subs, removed)"
    by (metis prod.exhaust)
  have d: "distinct (subscriptions c)" by (rule connection_subs_distinct [OF inv Some])
  have "a_conns (abs_registry reg) i = Some (abs_conn c)" using Some by (simp add: abs_registry_def)
  then show ?thesis
    using unsubscribe_loop_eq [OF loop d]
    by (simp add: spec_unsubscribe_def Registry_unsubscribe_def Some loop abs_resubscribe)
      (simp add: abs_conn_def)
qed

section \<open>Runs refine\<close>

lemmas op_refines = add_refines remove_refines subscribe_refines unsubscribe_refines
  publish_refines broadcast_refines send_refines

lemma exec_refines:
  assumes "registry_inv reg"
  shows "spec_exec Q x (abs_registry reg) = (fst (reg_exec Q x reg), abs_registry (snd (reg_exec Q x reg)))"
  by (cases x) (simp_all add: op_refines assms fst_map_prod snd_map_prod)

lemma exec_inv:
  assumes inv: "registry_inv reg" and room: "next_id reg \<noteq> - 1"
  shows "registry_inv (snd (reg_exec Q x reg))"
proof (cases x)
  case (OpAdd subj q)
  then show ?thesis
    using registry_inv_add [OF inv room, of subj q] by (cases "Registry_add subj q reg") simp
qed (simp_all add: store.inv_remove store.inv_subscribe store.inv_unsubscribe publish.keeps_inv
    broadcast.keeps_inv send.keeps_inv inv)

lemma exec_next_id:
  "next_id (snd (reg_exec Q x reg)) = (case x of OpAdd _ _ \<Rightarrow> next_id reg + 1 | _ \<Rightarrow> next_id reg)"
proof (cases x)
  case (OpPublish ch f)
  then show ?thesis using publish.keeps_routing [of Q ch f reg] by (simp add: routing_def)
next
  case (OpBroadcast f)
  then show ?thesis using broadcast.keeps_routing [of Q f reg] by (simp add: routing_def)
next
  case (OpSend i f)
  then show ?thesis using send.keeps_routing [of Q i f reg] by (simp add: routing_def)
qed (auto simp: Registry_add_def Registry_remove_def Registry_subscribe_def Registry_unsubscribe_def Let_def
    split: option.splits prod.splits)

lemma exec_next_id_bound:
  "unat (next_id reg) + 1 < 2 ^ 64 \<Longrightarrow>
     unat (next_id (snd (reg_exec Q x reg))) \<le> unat (next_id reg) + 1"
  unfolding exec_next_id by (simp add: unat_Suc_u64 split: reg_op.splits)

lemma run_refines:
  assumes "registry_inv reg" and "unat (next_id reg) + length ops < 2 ^ 64"
  shows "run_ops (spec_exec Q) ops (abs_registry reg) =
           (fst (run_ops (reg_exec Q) ops reg), abs_registry (snd (run_ops (reg_exec Q) ops reg))) \<and>
         registry_inv (snd (run_ops (reg_exec Q) ops reg))"
  using assms
proof (induction ops arbitrary: reg)
  case (Cons x ops)
  let ?reg = "snd (reg_exec Q x reg)"
  have "next_id reg \<noteq> - 1"
    using Cons.prems(2) unat_max_u64 by fastforce
  then have inv: "registry_inv ?reg" using Cons.prems(1) by (intro exec_inv)
  have "unat (next_id ?reg) + length ops < 2 ^ 64"
    using Cons.prems(2) exec_next_id_bound [of reg Q x] by simp
  from Cons.IH [OF inv this] show ?case
    by (simp add: exec_refines [OF Cons.prems(1)] Let_def split: prod.splits) auto
qed simp

section \<open>What the registry's callers see\<close>

lemma delivered_iff: "mpsc_ok Q \<Longrightarrow> delivered Q f c \<longleftrightarrow> accepts Q (tx c)"
  by (simp add: delivered_def try_send_SendOk_iff)

lemma overflowed_iff: "mpsc_ok Q \<Longrightarrow> overflowed Q f c \<longleftrightarrow> full Q (tx c)"
  by (simp add: overflowed_def try_send_SendFull_iff)

lemma after_deliver_view:
  "mpsc_ok Q \<Longrightarrow> view Q (tx (after_deliver Q f c)) =
     (if accepts Q (tx c) then (view Q (tx c))\<lparr>buffered := buffered (view Q (tx c)) @ [f]\<rparr> else view Q (tx c))"
  by (simp add: after_deliver_def mpsc_try_send_view try_send_SendOk_iff)

lemma after_deliver_dropped:
  assumes "mpsc_ok Q"
  shows "dropped (after_deliver Q f c) =
     (if accepts Q (tx c) then 0 else if full Q (tx c) then dropped c + 1 else dropped c)"
  using try_send_SendOk_iff [OF assms, of "tx c" f] try_send_SendFull_iff [OF assms, of "tx c" f]
  by (cases "fst (try_send Q (tx c) f)") (auto simp: after_deliver_def)

lemma publish_map_of:
  assumes "registry_inv reg"
  shows "map_of (connections (snd (Registry_publish Q ch f reg))) i =
     (if ch \<in> subs_of reg i then map_option (after_deliver Q f) (map_of (connections reg) i)
      else map_of (connections reg) i)"
proof (cases "map_of (by_channel reg) ch")
  case None
  then have "ch \<notin> subs_of reg i"
    using registry_inv_indexed [OF assms, of i ch] by (simp add: indexed_def)
  with None show ?thesis by (simp add: Registry_publish_def)
next
  case (Some ids)
  then have "distinct ids" using assms by (auto simp: registry_inv_def index_wf_def)
  moreover have "i \<in> set ids \<longleftrightarrow> ch \<in> subs_of reg i"
    using registry_inv_indexed [OF assms, of i ch] Some by (simp add: indexed_def)
  ultimately show ?thesis
    using Some publish_loop_eq [of ids Q f 0 reg] by (simp add: Registry_publish_def)
qed

lemma publish_count:
  assumes "registry_inv reg"
  shows "fst (Registry_publish Q ch f reg) =
     card {i. \<exists>c. map_of (connections reg) i = Some c \<and> ch \<in> set (subscriptions c) \<and> delivered Q f c}"
proof -
  have "fst (Registry_publish Q ch f reg) = fst (spec_publish Q ch f (abs_registry reg))"
    by (simp add: publish_refines [OF assms])
  also have "\<dots> = card {i. \<exists>c. map_of (connections reg) i = Some c \<and> ch \<in> set (subscriptions c) \<and> delivered Q f c}"
    by (auto simp: spec_publish_def spec_fanout_def Let_def abs_registry_def abs_conn_def spec_sent_def
        delivered_def intro!: arg_cong [of _ _ card])
  finally show ?thesis .
qed

lemma subscribers_card:
  assumes "registry_inv reg"
  shows "Registry_subscribers ch reg = card {i. ch \<in> subs_of reg i}"
proof -
  have "{i. ch \<in> subs_of reg i} = indexed (by_channel reg) ch"
    using registry_inv_indexed [OF assms] by blast
  moreover have "map_of (by_channel reg) ch = Some s \<Longrightarrow> distinct s" for s
    using assms by (auto simp: registry_inv_def index_wf_def)
  ultimately show ?thesis
    by (auto simp: Registry_subscribers_def indexed_def distinct_card split: option.splits)
qed

text \<open>The same frame sequence delivered to one connection that takes nothing out of its queue.\<close>

lemma deliver_many:
  assumes Q: "mpsc_ok Q" and "\<not> rx_gone (view Q (tx c))" and "length (buffered (view Q (tx c))) \<le> capacity (view Q (tx c))"
  shows "dropped (fold (after_deliver Q) fs c) =
     (if length fs \<le> room Q (tx c) then (if fs = [] then dropped c else 0)
      else (if room Q (tx c) = 0 then dropped c else 0) + of_nat (length fs - room Q (tx c)))"
  using assms(2,3)
proof (induction fs arbitrary: c)
  case (Cons f fs)
  let ?c = "after_deliver Q f c"
  have step: "\<not> rx_gone (view Q (tx ?c))" "length (buffered (view Q (tx ?c))) \<le> capacity (view Q (tx ?c))"
    "room Q (tx ?c) = room Q (tx c) - 1" "dropped ?c = (if room Q (tx c) = 0 then dropped c + 1 else 0)"
    using Cons.prems
    by (auto simp: after_deliver_view [OF Q] after_deliver_dropped [OF Q] room_def accepts_def full_def)
  show ?case
    using Cons.IH [OF step(1,2)] step(3,4)
    by (cases "room Q (tx c)") (auto simp: of_nat_diff)
qed simp

lemma deliver_many_buffer:
  assumes Q: "mpsc_ok Q" and "\<not> rx_gone (view Q (tx c))"
  shows "view Q (tx (fold (after_deliver Q) fs c)) =
     (view Q (tx c))\<lparr>buffered := buffered (view Q (tx c)) @ take (room Q (tx c)) fs\<rparr>"
  using assms(2)
proof (induction fs arbitrary: c)
  case (Cons f fs)
  show ?case
  proof (cases "accepts Q (tx c)")
    case True
    then obtain r where "room Q (tx c) = Suc r" and "room Q (tx (after_deliver Q f c)) = r"
      by (cases "room Q (tx c)") (auto simp: after_deliver_view [OF Q] room_def accepts_def)
    then show ?thesis
      using True Cons by (simp add: after_deliver_view [OF Q])
  next
    case False
    with Cons.prems have "room Q (tx c) = 0" and "room Q (tx (after_deliver Q f c)) = 0"
      by (auto simp: after_deliver_view [OF Q] room_def accepts_def)
    then show ?thesis
      using False Cons by (simp add: after_deliver_view [OF Q])
  qed
qed simp

lemma publish_many:
  assumes "registry_inv reg" and "map_of (connections reg) i = Some c" and "ch \<in> set (subscriptions c)"
  shows "map_of (connections (fold (\<lambda>f r. snd (Registry_publish Q ch f r)) fs reg)) i =
     Some (fold (after_deliver Q) fs c)"
  using assms
proof (induction fs arbitrary: reg c)
  case (Cons f fs)
  have "map_of (connections (snd (Registry_publish Q ch f reg))) i = Some (after_deliver Q f c)"
    using Cons.prems by (simp add: publish_map_of subs_of_def)
  from Cons.IH [OF publish.keeps_inv [OF Cons.prems(1)] this] Cons.prems(3) show ?case by simp
qed simp

section \<open>Properties\<close>

lemma demo_reg_eq:
  "demo_reg = \<lparr>connections =
      [(ConnectionId 1, \<lparr>conn_subject = ''a'', subscriptions = [''t''],
          tx = \<lparr>capacity = 1, buffered = [], rx_gone = False\<rparr>, dropped = 0\<rparr>),
       (ConnectionId 2, \<lparr>conn_subject = ''b'', subscriptions = [],
          tx = \<lparr>capacity = 1, buffered = [], rx_gone = False\<rparr>, dropped = 0\<rparr>)],
     by_channel = [(''t'', [ConnectionId 1])], next_id = 3,
     metrics = \<lparr>connections_active = 2, connections_total = 2, heartbeat_timeouts = 0,
       refused_full = 0, frames_sent = 0, frames_dropped = 0\<rparr>\<rparr>"
  by (simp add: demo_reg_def demo_ops_def Registry_new_def Metrics_default_def Registry_add_def
      Registry_subscribe_def index_insert_def ref_mpsc_def Let_def)

lemma demo_reg_conn: "map_of (connections demo_reg) (ConnectionId 1) = Some demo_conn"
  by (simp add: demo_reg_eq demo_conn_def)

lemma demo_reg_inv: "registry_inv demo_reg"
  unfolding demo_reg_def demo_ops_def
  by (rule run_refines [THEN conjunct2, OF registry_inv_new])
    (simp_all add: Metrics_default_def Registry_new_def)

text \<open>
  C2: Over any run of fewer than \<open>2 ^ 64 - 1\<close> operations on a new registry, the indexed registry
  gives the same answers as the specification that has no index and looks at every connection, and
  ends in a state with the same abstraction; so the index, and the iteration order of the hash
  containers, cannot be observed.
\<close>

theorem registry_refines_specification:
  assumes "connections_active m = 0" and "length ops < 2 ^ 64 - 1"
  shows "run_ops (spec_exec Q) ops (abs_registry (Registry_new m)) =
     map_prod id abs_registry (run_ops (reg_exec Q) ops (Registry_new m))"
  using run_refines [OF registry_inv_new [OF assms(1)], of ops Q] assms(2)
  by (simp add: Registry_new_def map_prod_def split_beta)

theorem registry_refines_specification_witness:
  "connections_active Metrics_default = 0 \<and> length demo_ops < 2 ^ 64 - 1 \<and>
   run_ops (spec_exec ref_mpsc) demo_ops (abs_registry (Registry_new Metrics_default)) =
     map_prod id abs_registry (run_ops (reg_exec ref_mpsc) demo_ops (Registry_new Metrics_default))"
proof -
  have h: "connections_active Metrics_default = 0" "length demo_ops < 2 ^ 64 - 1"
    by (simp_all add: Metrics_default_def demo_ops_def)
  from h registry_refines_specification [OF h] show ?thesis by blast
qed

text \<open>
  C9: Over any run of fewer than \<open>2 ^ 64 - 1\<close> operations on a new registry the invariant holds:
  ids are unique, the index lists a connection under a channel exactly when the connection holds
  that channel, no index entry is empty or repeats a connection, and \<open>connections_active\<close> is the
  number of connections.
\<close>

theorem registry_invariant_holds:
  assumes "connections_active m = 0" and "length ops < 2 ^ 64 - 1"
  shows "registry_inv (snd (run_ops (reg_exec Q) ops (Registry_new m)))"
  using run_refines [OF registry_inv_new [OF assms(1)], of ops Q] assms(2) by (simp add: Registry_new_def)

theorem registry_invariant_holds_witness:
  "connections_active Metrics_default = 0 \<and> length demo_ops < 2 ^ 64 - 1 \<and>
   registry_inv (snd (run_ops (reg_exec ref_mpsc) demo_ops (Registry_new Metrics_default)))"
proof -
  have h: "connections_active Metrics_default = 0" "length demo_ops < 2 ^ 64 - 1"
    by (simp_all add: Metrics_default_def demo_ops_def)
  from h registry_invariant_holds [OF h] show ?thesis by blast
qed

text \<open>
  C3: A publish puts the frame at the end of the queue of exactly those connections that hold the
  channel and whose queue takes it, returns their number, and touches no other queue; a subscriber
  whose queue is full loses the frame and its drop streak grows by one, a delivery clears the
  streak, and nobody else's streak changes.
\<close>

theorem publish_reaches_exactly_the_subscribers:
  assumes inv: "registry_inv reg" and Q: "mpsc_ok Q"
  shows "fst (Registry_publish Q ch f reg) =
      card {i. \<exists>c. map_of (connections reg) i = Some c \<and> ch \<in> set (subscriptions c) \<and> accepts Q (tx c)} \<and>
    (\<forall>i. rel_option (\<lambda>c c'.
        view Q (tx c') = (if ch \<in> set (subscriptions c) \<and> accepts Q (tx c)
          then (view Q (tx c))\<lparr>buffered := buffered (view Q (tx c)) @ [f]\<rparr> else view Q (tx c)) \<and>
        dropped c' = (if ch \<notin> set (subscriptions c) then dropped c
          else if accepts Q (tx c) then 0 else if full Q (tx c) then dropped c + 1 else dropped c) \<and>
        subscriptions c' = subscriptions c \<and> conn_subject c' = conn_subject c)
      (map_of (connections reg) i) (map_of (connections (snd (Registry_publish Q ch f reg))) i))"
  (is "?count \<and> (\<forall>i. ?each i)")
proof (intro conjI allI)
  show ?count by (simp add: publish_count [OF inv] delivered_iff [OF Q])
  show "?each i" for i
    by (cases "map_of (connections reg) i")
      (auto simp: publish_map_of [OF inv] subs_of_def after_deliver_view [OF Q] after_deliver_dropped [OF Q])
qed

theorem publish_reaches_exactly_the_subscribers_witness:
  "registry_inv demo_reg \<and> mpsc_ok ref_mpsc \<and>
   fst (Registry_publish ref_mpsc ''t'' (Frame ''x'') demo_reg) =
     card {i. \<exists>c. map_of (connections demo_reg) i = Some c \<and> ''t'' \<in> set (subscriptions c) \<and> accepts ref_mpsc (tx c)}"
  using demo_reg_inv ref_mpsc_ok
    publish_reaches_exactly_the_subscribers [OF demo_reg_inv ref_mpsc_ok, of "''t''" "Frame ''x''"]
  by blast

text \<open>
  A broadcast offers the frame to every connection, subscribed or not: it returns the number of
  connections whose queue takes it, and each of those queues ends with the frame.
\<close>

theorem broadcast_reaches_every_connection:
  assumes inv: "registry_inv reg" and Q: "mpsc_ok Q"
  shows "fst (Registry_broadcast Q f reg) =
      card {i. \<exists>c. map_of (connections reg) i = Some c \<and> accepts Q (tx c)} \<and>
    (\<forall>i. rel_option (\<lambda>c c'.
        view Q (tx c') = (if accepts Q (tx c)
          then (view Q (tx c))\<lparr>buffered := buffered (view Q (tx c)) @ [f]\<rparr> else view Q (tx c)))
      (map_of (connections reg) i) (map_of (connections (snd (Registry_broadcast Q f reg))) i))"
proof (intro conjI allI)
  have "fst (Registry_broadcast Q f reg) = fst (spec_broadcast Q f (abs_registry reg))"
    by (simp add: broadcast_refines [OF inv])
  also have "\<dots> = card {i. \<exists>c. map_of (connections reg) i = Some c \<and> accepts Q (tx c)}"
    by (auto simp: spec_broadcast_def spec_fanout_def Let_def abs_registry_def dom_def
        delivered_iff [OF Q] intro!: arg_cong [of _ _ card])
  finally show "fst (Registry_broadcast Q f reg) =
      card {i. \<exists>c. map_of (connections reg) i = Some c \<and> accepts Q (tx c)}" .
  show "rel_option (\<lambda>c c'. view Q (tx c') = (if accepts Q (tx c)
          then (view Q (tx c))\<lparr>buffered := buffered (view Q (tx c)) @ [f]\<rparr> else view Q (tx c)))
      (map_of (connections reg) i) (map_of (connections (snd (Registry_broadcast Q f reg))) i)" for i
    by (cases "map_of (connections reg) i")
      (auto simp: broadcast_eq map_of_map_snd after_deliver_view [OF Q])
qed

theorem broadcast_reaches_every_connection_witness:
  "registry_inv demo_reg \<and> mpsc_ok ref_mpsc \<and>
   fst (Registry_broadcast ref_mpsc (Frame ''x'') demo_reg) =
     card {i. \<exists>c. map_of (connections demo_reg) i = Some c \<and> accepts ref_mpsc (tx c)}"
  using demo_reg_inv ref_mpsc_ok
    broadcast_reaches_every_connection [OF demo_reg_inv ref_mpsc_ok, of "Frame ''x''"]
  by blast



text \<open>
  An unsubscribe request removes exactly the requested channels the connection holds, reports
  them once each in request order, and ignores the rest; after it a publish on such a channel no
  longer reaches the connection.
\<close>

theorem unsubscribe_removes_exactly_the_held:
  assumes inv: "registry_inv reg" and c: "map_of (connections reg) i = Some c"
    and unsub: "Registry_unsubscribe i chs reg = (removed, reg')"
  shows "removed = fresh (- subs_of reg i) chs \<and> distinct removed \<and> set removed = subs_of reg i \<inter> set chs \<and>
    subs_of reg' i = subs_of reg i - set chs \<and> (\<forall>j. j \<noteq> i \<longrightarrow> subs_of reg' j = subs_of reg j) \<and>
    (\<forall>ch \<in> set chs. map_of (connections (snd (Registry_publish Q ch f reg'))) i = map_of (connections reg') i)"
proof -
  have "fst (Registry_unsubscribe i chs reg) = fst (spec_unsubscribe i chs (abs_registry reg))"
    by (simp add: unsubscribe_refines [OF inv])
  then have "removed = fresh (- subs_of reg i) chs"
    using unsub c by (simp add: spec_unsubscribe_def abs_registry_def abs_conn_def subs_of_def)
  with unsubscribe_known [OF inv c unsub] show ?thesis
    by (simp add: publish_map_of)
qed

theorem unsubscribe_removes_exactly_the_held_witness:
  "\<exists>removed reg'. registry_inv demo_reg \<and>
    Registry_unsubscribe (ConnectionId 1) [''zzz'', ''t'', ''t''] demo_reg = (removed, reg') \<and>
    removed = fresh (- subs_of demo_reg (ConnectionId 1)) [''zzz'', ''t'', ''t''] \<and>
    subs_of reg' (ConnectionId 1) = subs_of demo_reg (ConnectionId 1) - set [''zzz'', ''t'', ''t'']"
proof -
  obtain removed reg' where unsub:
    "Registry_unsubscribe (ConnectionId 1) [''zzz'', ''t'', ''t''] demo_reg = (removed, reg')"
    by (metis prod.exhaust)
  show ?thesis
    using unsubscribe_removes_exactly_the_held [OF demo_reg_inv demo_reg_conn unsub] demo_reg_inv unsub by blast
qed

text \<open>
  Removing a connection leaves no trace of it: it is gone from the map and from every channel of
  the index, each of its channels has one subscriber less, the others keep theirs, the active count
  falls by one, and a second removal changes nothing.
\<close>

theorem remove_leaves_no_trace:
  assumes inv: "registry_inv reg" and c: "map_of (connections reg) i = Some c"
  shows "map_of (connections (Registry_remove i reg)) i = None \<and>
    (\<forall>ch. i \<notin> indexed (by_channel (Registry_remove i reg)) ch) \<and>
    (\<forall>ch. Registry_subscribers ch (Registry_remove i reg) =
       Registry_subscribers ch reg - (if ch \<in> set (subscriptions c) then 1 else 0)) \<and>
    Registry_len (Registry_remove i reg) + 1 = Registry_len reg \<and>
    Registry_remove i (Registry_remove i reg) = Registry_remove i reg"
proof -
  let ?reg = "Registry_remove i reg"
  have inv': "registry_inv ?reg" by (rule registry_inv_remove [OF inv])
  have gone: "map_of (connections ?reg) i = None"
    by (simp add: remove_fields [OF c] hash_simps)
  have "{j. ch \<in> subs_of ?reg j} = {j. ch \<in> subs_of reg j} - {i}" for ch
    by (auto simp: subs_of_remove)
  moreover have "finite {j. ch \<in> subs_of reg j}" for ch
    using registry_inv_indexed [OF inv, of _ ch]
    by (rule_tac finite_subset [of _ "indexed (by_channel reg) ch"]) (auto simp: indexed_def split: option.splits)
  ultimately have "Registry_subscribers ch ?reg =
      Registry_subscribers ch reg - (if ch \<in> set (subscriptions c) then 1 else 0)" for ch
    by (simp add: subscribers_card [OF inv] subscribers_card [OF inv'] subs_of_Some [OF c] card_Diff_singleton_if)
  moreover have "Registry_len ?reg + 1 = Registry_len reg"
    using inv length_delete_present [OF _ map_of_SomeD_key [OF c]]
    by (simp add: Registry_len_def remove_fields [OF c] registry_inv_def connections_wf_def)
  moreover have "i \<notin> indexed (by_channel ?reg) ch" for ch
    using registry_inv_indexed [OF inv', of i ch] by (simp add: subs_of_remove)
  ultimately show ?thesis using gone by (simp add: Registry_remove_def [of i ?reg])
qed

theorem remove_leaves_no_trace_witness:
  "registry_inv demo_reg \<and> map_of (connections (Registry_remove (ConnectionId 1) demo_reg)) (ConnectionId 1) = None \<and>
   Registry_len (Registry_remove (ConnectionId 1) demo_reg) + 1 = Registry_len demo_reg"
  using remove_leaves_no_trace [OF demo_reg_inv demo_reg_conn] demo_reg_inv by blast

text \<open>
  The metrics account for every publish: \<open>frames_sent\<close> grows by the number returned,
  \<open>frames_dropped\<close> by the number of subscribers whose queue was full (modulo \<open>2 ^ 64\<close>), and no other
  counter moves.
\<close>

theorem publish_metrics_account:
  assumes inv: "registry_inv reg" and Q: "mpsc_ok Q"
  shows "metrics (snd (Registry_publish Q ch f reg)) =
     (metrics reg)\<lparr>frames_sent := frames_sent (metrics reg) + of_nat (fst (Registry_publish Q ch f reg)),
       frames_dropped := frames_dropped (metrics reg) + of_nat
         (card {i. \<exists>c. map_of (connections reg) i = Some c \<and> ch \<in> set (subscriptions c) \<and> full Q (tx c)})\<rparr>"
proof -
  let ?a = "abs_registry reg"
  let ?I = "{i. \<exists>c. a_conns ?a i = Some c \<and> ch \<in> a_subs c}"
  have "{i \<in> ?I. \<exists>c. a_conns ?a i = Some c \<and> spec_overflow Q f c} =
      {i. \<exists>c. map_of (connections reg) i = Some c \<and> ch \<in> set (subscriptions c) \<and> full Q (tx c)}"
    by (auto simp: abs_registry_def overflowed_iff [OF Q]) (auto simp: abs_conn_def)
  moreover have "metrics (snd (Registry_publish Q ch f reg)) = a_metrics (snd (spec_publish Q ch f ?a))"
    by (simp add: publish_refines [OF inv]) (simp add: abs_registry_def)
  moreover have "fst (Registry_publish Q ch f reg) = fst (spec_publish Q ch f ?a)"
    by (simp add: publish_refines [OF inv])
  ultimately show ?thesis
    by (simp add: spec_publish_def spec_fanout_def Let_def) (simp add: abs_registry_def)
qed

theorem publish_metrics_account_witness:
  "registry_inv demo_reg \<and> mpsc_ok ref_mpsc \<and>
   frames_sent (metrics (snd (Registry_publish ref_mpsc ''t'' (Frame ''x'') demo_reg))) =
     frames_sent (metrics demo_reg) + of_nat (fst (Registry_publish ref_mpsc ''t'' (Frame ''x'') demo_reg))"
  using demo_reg_inv ref_mpsc_ok
    publish_metrics_account [OF demo_reg_inv ref_mpsc_ok, of "''t''" "Frame ''x''"]
  by simp

text \<open>
  C24: The drop streak counts consecutive failures whichever operation produced them: when a
  subscriber takes nothing out of a queue that has room for \<open>r\<close> more frames, publishing \<open>n > r\<close> frames
  on its channel leaves a streak of \<open>n - r\<close> (on top of the old streak when \<open>r = 0\<close>), so a client that
  stays slow reaches any limit below \<open>2 ^ 64\<close>.
\<close>

theorem slow_subscriber_streak:
  assumes inv: "registry_inv reg" and Q: "mpsc_ok Q"
    and c: "map_of (connections reg) i = Some c" and sub: "ch \<in> set (subscriptions c)"
    and alive: "\<not> rx_gone (view Q (tx c))" and cap: "within_capacity Q (tx c)"
    and many: "room Q (tx c) < length fs"
  shows "Registry_drops i (fold (\<lambda>f r. snd (Registry_publish Q ch f r)) fs reg) =
     (if room Q (tx c) = 0 then Registry_drops i reg else 0) + of_nat (length fs - room Q (tx c))"
proof -
  have "map_of (connections (fold (\<lambda>f r. snd (Registry_publish Q ch f r)) fs reg)) i =
      Some (fold (after_deliver Q) fs c)"
    using inv c sub by (rule publish_many)
  then show ?thesis
    using deliver_many [OF Q alive, of fs] cap many c
    by (simp add: Registry_drops_def within_capacity_def)
qed

theorem slow_subscriber_streak_witness:
  "Registry_drops (ConnectionId 1)
     (fold (\<lambda>f r. snd (Registry_publish ref_mpsc ''t'' f r)) [Frame ''1'', Frame ''2'', Frame ''3''] demo_reg) = 2"
proof -
  have h: "''t'' \<in> set (subscriptions demo_conn)" "\<not> rx_gone (view ref_mpsc (tx demo_conn))"
    "within_capacity ref_mpsc (tx demo_conn)"
    "room ref_mpsc (tx demo_conn) < length [Frame ''1'', Frame ''2'', Frame ''3'']"
    by (simp_all add: demo_conn_def ref_mpsc_def within_capacity_def room_def)
  show ?thesis
    using slow_subscriber_streak [OF demo_reg_inv ref_mpsc_ok demo_reg_conn h]
    by (simp add: demo_conn_def ref_mpsc_def room_def)
qed

end
