(* ===== verification/Handler.thy ===== *)
theory Handler
  imports Settings Auth Snapshots Registry_Spec
begin

text \<open>
  The protocol handler: \<^verbatim>\<open>handle\<close> and \<^verbatim>\<open>Shared\<close> of \<^verbatim>\<open>src/src/server.rs\<close>. One call of \<open>handle\<close> is the
  whole reaction to one text message of an authenticated client: the subscription changes, the
  frames put on the client's queue, and the reply the session still has to send. The parser, the
  JSON writer (\<open>S\<close>) and the channel (\<open>Q\<close>) are parameters.
\<close>

record ('q, 's) shared =
  config :: config
  registry :: "'q registry"
  validator :: validator
  authorizer :: authorizer
  snapshots :: snapshot_source
  slots :: 's

fun snapshot_loop ::
    "serde \<Rightarrow> ('q, 'x) mpsc_scheme \<Rightarrow> snapshot_source \<Rightarrow> connection_id \<Rightarrow> string list \<Rightarrow> 'q registry \<Rightarrow> 'q registry" where
  "snapshot_loop S Q snap i [] reg = reg"
| "snapshot_loop S Q snap i (ch # chs) reg =
     snapshot_loop S Q snap i chs
       (case snap ch of
          None \<Rightarrow> reg
        | Some payload \<Rightarrow> snd (Registry_send Q i (to_frame S (Snapshot ch payload)) reg))"

definition handle_subscribe ::
    "serde \<Rightarrow> ('q, 'x) mpsc_scheme \<Rightarrow> string list \<Rightarrow> connection_id \<Rightarrow> claims \<Rightarrow> ('q, 's) shared \<Rightarrow> ('q, 's) shared" where
  "handle_subscribe S Q channels i cl sh =
     (let (sized, oversized) = partition (\<lambda>ch. length ch \<le> max_channel_len (config sh)) channels;
          (allowed, unauthorized) = partition (\<lambda>ch. authorizer sh cl ch) sized;
          ((added, over_limit), reg) =
            Registry_subscribe i allowed (max_subscriptions (config sh)) (registry sh);
          rejected =
            map (\<lambda>ch. \<lparr>channel = ch, reason = ''invalid''\<rparr>) oversized @
            map (\<lambda>ch. \<lparr>channel = ch, reason = ''unauthorized''\<rparr>) unauthorized @
            map (\<lambda>ch. \<lparr>channel = ch, reason = ''limit''\<rparr>) over_limit;
          ack = to_frame S (Subscribed added rejected);
          reg = snd (Registry_send Q i ack reg)
      in sh\<lparr>registry := snapshot_loop S Q (snapshots sh) i added reg\<rparr>)"

definition handle ::
    "serde \<Rightarrow> ('q, 'x) mpsc_scheme \<Rightarrow> string \<Rightarrow> connection_id \<Rightarrow> claims \<Rightarrow> ('q, 's) shared \<Rightarrow>
     frame option \<times> ('q, 's) shared" where
  "handle S Q text i cl sh =
     (case from_str S text of
        Inl e \<Rightarrow> (Some (to_frame S (Error ''invalid_message'' e)), sh)
      | Inr (Auth _) \<Rightarrow>
          (Some (to_frame S (Error ''already_authenticated'' ''auth is accepted only as the first message'')), sh)
      | Inr (Subscribe channels) \<Rightarrow> (None, handle_subscribe S Q channels i cl sh)
      | Inr (Unsubscribe channels) \<Rightarrow>
          let (removed, reg) = Registry_unsubscribe i channels (registry sh)
          in (Some (to_frame S (Unsubscribed removed)), sh\<lparr>registry := reg\<rparr>)
      | Inr (Ping timestamp) \<Rightarrow> (Some (to_frame S (Pong timestamp)), sh))"

section \<open>The pieces of a subscribe request\<close>

text \<open>The channels of a request that may be subscribed, and the answer to it.\<close>

definition allowed_of :: "claims \<Rightarrow> ('q, 's) shared \<Rightarrow> string list \<Rightarrow> string list" where
  "allowed_of cl sh chs = filter (\<lambda>ch. length ch \<le> max_channel_len (config sh) \<and> authorizer sh cl ch) chs"

definition rejections :: "claims \<Rightarrow> ('q, 's) shared \<Rightarrow> string list \<Rightarrow> string list \<Rightarrow> rejected list" where
  "rejections cl sh chs over =
     map (\<lambda>ch. \<lparr>channel = ch, reason = ''invalid''\<rparr>)
       (filter (\<lambda>ch. max_channel_len (config sh) < length ch) chs) @
     map (\<lambda>ch. \<lparr>channel = ch, reason = ''unauthorized''\<rparr>)
       (filter (\<lambda>ch. length ch \<le> max_channel_len (config sh) \<and> \<not> authorizer sh cl ch) chs) @
     map (\<lambda>ch. \<lparr>channel = ch, reason = ''limit''\<rparr>) over"

text \<open>The frames a subscribe request puts on the queue: the acknowledgement, then the snapshots.\<close>

definition subscribe_frames ::
    "serde \<Rightarrow> snapshot_source \<Rightarrow> string list \<Rightarrow> rejected list \<Rightarrow> frame list" where
  "subscribe_frames S snap added rej =
     to_frame S (Subscribed added rej) #
     List.map_filter (\<lambda>ch. map_option (\<lambda>p. to_frame S (Snapshot ch p)) (snap ch)) added"

definition send_all :: "('q, 'x) mpsc_scheme \<Rightarrow> connection_id \<Rightarrow> frame list \<Rightarrow> 'q registry \<Rightarrow> 'q registry" where
  "send_all Q i fs reg = fold (\<lambda>f r. snd (Registry_send Q i f r)) fs reg"

text \<open>
  A server for concrete runs: the registry with two connections, channels of at most three bytes
  that start with \<open>t\<close>, a snapshot for one channel, and a parser that knows two messages.
\<close>

definition demo_serde :: serde where
  "demo_serde = ref_serde\<lparr>from_str := (\<lambda>t.
     if t = ''S'' then Inr (Subscribe [''t'', ''tu'', ''private'', ''u'', ''tv''])
     else if t = ''R'' then Inr (Subscribe [''t'']) else if t = ''A'' then Inr (Auth ''key'') else Inl ''expected value'')\<rparr>"

definition demo_config :: config where
  "demo_config = Config_default\<lparr>max_subscriptions := 2, max_channel_len := 3\<rparr>"

definition demo_shared :: "(chan, unit) shared" where
  "demo_shared = \<lparr>config = demo_config, registry = demo_reg,
     validator = StaticToken_validate (StaticToken_new ''key'' ''alice''),
     authorizer = (\<lambda>_ ch. hd ch = CHR ''t''), snapshots = (\<lambda>ch. if ch = ''tu'' then Some ''7'' else None),
     slots = ()\<rparr>"

lemma snapshot_loop_eq:
  "snapshot_loop S Q snap i chs reg =
     send_all Q i (List.map_filter (\<lambda>ch. map_option (\<lambda>p. to_frame S (Snapshot ch p)) (snap ch)) chs) reg"
  by (induction chs arbitrary: reg) (auto simp: send_all_def List.map_filter_simps split: option.splits)

lemma handle_subscribe_eq:
  assumes "Registry_subscribe i (allowed_of cl sh chs) (max_subscriptions (config sh)) (registry sh) =
     ((added, over), reg)"
  shows "handle_subscribe S Q chs i cl sh =
     sh\<lparr>registry := send_all Q i (subscribe_frames S (snapshots sh) added (rejections cl sh chs over)) reg\<rparr>"
proof -
  have "filter (\<lambda>ch. authorizer sh cl ch) (filter (\<lambda>ch. length ch \<le> max_channel_len (config sh)) chs) =
      allowed_of cl sh chs"
    by (simp add: allowed_of_def conj_commute)
  then show ?thesis
    using assms
    by (simp add: handle_subscribe_def Let_def snapshot_loop_eq subscribe_frames_def rejections_def
        send_all_def o_def not_le conj_commute)
qed

interpretation send_all: delivery_op "\<lambda>reg. ((), send_all Q i fs reg)" for Q i fs
proof unfold_locales
  show "routing (snd ((), send_all Q i fs reg)) = routing reg" for reg :: "'a registry"
    by (induction fs arbitrary: reg) (simp_all add: send_all_def send.keeps_routing)
qed

lemma send_all_map_of:
  "map_of (connections (send_all Q i fs reg)) j =
     (if j = i then map_option (fold (after_deliver Q) fs) (map_of (connections reg) j)
      else map_of (connections reg) j)"
proof (induction fs arbitrary: reg)
  case (Cons f fs)
  have "map_of (connections (snd (Registry_send Q i f reg))) j =
      (if j = i then map_option (after_deliver Q f) (map_of (connections reg) j) else map_of (connections reg) j)"
    for j by (auto simp: Registry_send_def deliver_eq hash_simps split: option.splits)
  with Cons.IH [of "snd (Registry_send Q i f reg)"] show ?case
    by (simp add: send_all_def option.map_comp o_def)
qed (simp add: send_all_def option.map_id)

lemma set_allowed_of:
  "ch \<in> set (allowed_of cl sh chs) \<longleftrightarrow>
     ch \<in> set chs \<and> length ch \<le> max_channel_len (config sh) \<and> authorizer sh cl ch"
  by (auto simp: allowed_of_def)

text \<open>What \<open>handle\<close> does to the registry: a subscription change, then deliveries.\<close>

lemma handle_registry:
  "registry (snd (handle S Q text i cl sh)) =
     (case from_str S text of
        Inr (Subscribe chs) \<Rightarrow>
          let ((added, over), reg) =
            Registry_subscribe i (allowed_of cl sh chs) (max_subscriptions (config sh)) (registry sh)
          in send_all Q i (subscribe_frames S (snapshots sh) added (rejections cl sh chs over)) reg
      | Inr (Unsubscribe chs) \<Rightarrow> snd (Registry_unsubscribe i chs (registry sh))
      | _ \<Rightarrow> registry sh)"
proof -
  have "registry (handle_subscribe S Q chs i cl sh) =
      (let ((added, over), reg) =
          Registry_subscribe i (allowed_of cl sh chs) (max_subscriptions (config sh)) (registry sh)
       in send_all Q i (subscribe_frames S (snapshots sh) added (rejections cl sh chs over)) reg)" for chs
    by (cases "Registry_subscribe i (allowed_of cl sh chs) (max_subscriptions (config sh)) (registry sh)")
      (auto simp: handle_subscribe_eq)
  then show ?thesis
    by (auto simp: handle_def split: sum.splits client_message.splits prod.splits)
qed

lemma handle_subs:
  "subs_of (registry (snd (handle S Q text i cl sh))) j =
     (case from_str S text of
        Inr (Subscribe chs) \<Rightarrow>
          subs_of (snd (Registry_subscribe i (allowed_of cl sh chs) (max_subscriptions (config sh)) (registry sh))) j
      | Inr (Unsubscribe chs) \<Rightarrow> subs_of (snd (Registry_unsubscribe i chs (registry sh))) j
      | _ \<Rightarrow> subs_of (registry sh) j)"
  by (simp add: handle_registry send_all.keeps_subs [simplified]
      split: sum.splits client_message.splits prod.splits)

lemma handle_inv:
  assumes inv: "registry_inv (registry sh)"
  shows "registry_inv (registry (snd (handle S Q text i cl sh)))"
proof (cases "from_str S text")
  case (Inr m)
  then show ?thesis
  proof (cases m)
    case (Subscribe chs)
    obtain added over reg where sub: "Registry_subscribe i (allowed_of cl sh chs)
        (max_subscriptions (config sh)) (registry sh) = ((added, over), reg)"
      by (metis prod.exhaust)
    have "registry_inv reg"
      using store.inv_subscribe [OF inv, of i "allowed_of cl sh chs" "max_subscriptions (config sh)"] sub by simp
    then show ?thesis
      by (simp add: handle_registry Inr Subscribe sub send_all.keeps_inv [simplified])
  qed (simp_all add: handle_registry inv store.inv_unsubscribe)
qed (simp add: handle_registry inv)

lemma handle_frame:
  "config (snd (handle S Q text i cl sh)) = config sh"
  "validator (snd (handle S Q text i cl sh)) = validator sh"
  "authorizer (snd (handle S Q text i cl sh)) = authorizer sh"
  "snapshots (snd (handle S Q text i cl sh)) = snapshots sh"
  "slots (snd (handle S Q text i cl sh)) = slots sh"
  by (auto simp: handle_def handle_subscribe_def split: sum.splits client_message.splits prod.splits)

lemma channels_rejected:
  "ch \<in> channel ` set (rejections cl sh chs over) \<longleftrightarrow>
     ch \<in> set chs \<and> (max_channel_len (config sh) < length ch \<or> \<not> authorizer sh cl ch) \<or> ch \<in> set over"
  by (auto simp: rejections_def image_Un image_image)

lemma handle_subscribe_queue:
  assumes inv: "registry_inv (registry sh)" and Q: "mpsc_ok Q"
    and c: "map_of (connections (registry sh)) i = Some c" and alive: "\<not> rx_gone (view Q (tx c))"
    and sub: "Registry_subscribe i (allowed_of cl sh chs) (max_subscriptions (config sh)) (registry sh) =
       ((added, over), reg)"
  shows "\<exists>c'. map_of (connections (registry (handle_subscribe S Q chs i cl sh))) i = Some c' \<and>
     buffered (view Q (tx c')) = buffered (view Q (tx c)) @
       take (room Q (tx c)) (subscribe_frames S (snapshots sh) added (rejections cl sh chs over))"
proof -
  obtain subs where "map_of (connections reg) i = Some (c\<lparr>subscriptions := subs\<rparr>)"
    using sub c by (auto simp: Registry_subscribe_def hash_simps split: prod.splits)
  then show ?thesis
    using alive
    by (simp add: handle_subscribe_eq [OF sub] send_all_map_of deliver_many_buffer [OF Q])
qed

text \<open>A channel is refused for the limit only when the connection holds as many as it may.\<close>

lemma over_limit_is_full:
  assumes inv: "registry_inv reg" and c: "map_of (connections reg) i = Some c"
    and sub: "Registry_subscribe i chs mx reg = ((added, over), reg')" and over: "over \<noteq> []"
  shows "mx \<le> card (subs_of reg' i)"
proof -
  note known = subscribe_known [OF inv c sub]
  let ?subs = "subs_of reg i" and ?new = "fresh (subs_of reg i) chs"
  have subs: "card ?subs = length (subscriptions c)" "finite ?subs"
    using connection_subs_distinct [OF inv c] by (simp_all add: subs_of_Some [OF c] distinct_card)
  obtain ch where "ch \<in> set chs" "ch \<notin> subs_of reg' i" using over by (auto simp: known(3) filter_empty_conv)
  then have "ch \<in> set ?new" "ch \<notin> set (take (mx - length (subscriptions c)) ?new)"
    using known(1) by (auto simp: set_fresh known(2) subs)
  then have "mx - length (subscriptions c) < length ?new" by (metis linorder_not_le take_all)
  then have "card (set added) = mx - length (subscriptions c)"
    using known(1) subs by (simp add: distinct_card distinct_fresh)
  moreover have "?subs \<inter> set added = {}" using known(1) by (auto simp: set_fresh dest: in_set_takeD)
  ultimately show ?thesis using subs by (simp add: known(2) card_Un_disjoint)
qed

lemma subscribe_frames_eq:
  "subscribe_frames S snap added rej = to_frame S (Subscribed added rej) #
     map (\<lambda>ch. to_frame S (Snapshot ch (the (snap ch)))) (filter (\<lambda>ch. snap ch \<noteq> None) added)"
  unfolding subscribe_frames_def by (induction added) (auto simp: List.map_filter_simps)

lemma rejection_reasons:
  assumes inv: "registry_inv (registry sh)" and c: "map_of (connections (registry sh)) i = Some c"
    and sub: "Registry_subscribe i (allowed_of cl sh chs) (max_subscriptions (config sh)) (registry sh) =
       ((added, over), reg)"
  shows "\<lparr>channel = ch, reason = r\<rparr> \<in> set (rejections cl sh chs over) \<longleftrightarrow> ch \<in> set chs \<and>
    (if max_channel_len (config sh) < length ch then r = ''invalid''
     else if \<not> authorizer sh cl ch then r = ''unauthorized''
     else r = ''limit'' \<and> ch \<notin> subs_of reg i \<and> max_subscriptions (config sh) \<le> card (subs_of reg i))"
proof -
  have "ch \<in> set over \<longleftrightarrow> ch \<in> set chs \<and> length ch \<le> max_channel_len (config sh) \<and> authorizer sh cl ch \<and>
      ch \<notin> subs_of reg i"
    by (auto simp: subscribe_known(3) [OF inv c sub] set_allowed_of)
  moreover have "max_subscriptions (config sh) \<le> card (subs_of reg i)" if "ch \<in> set over"
    using over_limit_is_full [OF inv c sub] that by fastforce
  ultimately show ?thesis by (auto simp: rejections_def)
qed

section \<open>Properties\<close>

text \<open>
  C8: No client message makes a connection hold a channel the authorizer refuses or whose name is
  too long: whatever text is handled, a channel newly held is held by the connection that sent it,
  passed the authorizer with that connection's claims and is at most \<open>max_channel_len\<close> bytes; the
  number of channels stays within \<open>max_subscriptions\<close>; and the registry invariant is kept.
\<close>

theorem handle_subscribes_only_authorized:
  assumes inv: "registry_inv (registry sh)"
    and sub: "ch \<in> subs_of (registry (snd (handle S Q text i cl sh))) j"
    and new: "ch \<notin> subs_of (registry sh) j"
  shows "j = i \<and> authorizer sh cl ch \<and> length ch \<le> max_channel_len (config sh) \<and>
    registry_inv (registry (snd (handle S Q text i cl sh))) \<and>
    (card (subs_of (registry sh) j) \<le> max_subscriptions (config sh) \<longrightarrow>
     card (subs_of (registry (snd (handle S Q text i cl sh))) j) \<le> max_subscriptions (config sh))"
proof -
  obtain chs where parsed: "from_str S text = Inr (Subscribe chs)"
    using sub new inv
    by (auto simp: handle_subs store.subs_unsubscribe split: sum.splits client_message.splits if_splits)
  let ?al = "allowed_of cl sh chs" and ?mx = "max_subscriptions (config sh)"
  have "j = i" and "ch \<in> set (fst (fst (Registry_subscribe i ?al ?mx (registry sh))))"
    using sub new inv by (auto simp: handle_subs parsed store.subs_subscribe split: if_splits)
  then have "ch \<in> set ?al" using store.added_requested [OF inv, of i ?al ?mx] by blast
  with \<open>j = i\<close> show ?thesis
    using store.limit_subscribe [OF inv, of j ?mx i ?al] handle_inv [OF inv]
    by (simp add: set_allowed_of handle_subs parsed)
qed

lemma demo_handle:
  "registry (snd (handle demo_serde ref_mpsc ''S'' (ConnectionId 1) cl demo_shared)) =
     send_all ref_mpsc (ConnectionId 1)
       (subscribe_frames demo_serde (snapshots demo_shared) [''tu''] (rejections cl demo_shared
          [''t'', ''tu'', ''private'', ''u'', ''tv''] [''tv'']))
       (snd (Registry_subscribe (ConnectionId 1) [''t'', ''tu'', ''tv''] 2 demo_reg))"
  by (simp add: handle_registry demo_serde_def allowed_of_def demo_shared_def demo_config_def demo_reg_eq
      Registry_subscribe_def)

lemma demo_subs: "subs_of demo_reg (ConnectionId 1) = {''t''}"
  by (simp add: demo_reg_eq subs_of_def)

lemma demo_new_sub:
  "''tu'' \<in> subs_of (registry (snd (handle demo_serde ref_mpsc ''S'' (ConnectionId 1) cl demo_shared))) (ConnectionId 1)"
  unfolding demo_handle send_all.keeps_subs [simplified]
  by (simp add: Registry_subscribe_def demo_reg_eq subs_of_def)

theorem handle_subscribes_only_authorized_witness:
  "registry_inv (registry demo_shared) \<and>
   ''tu'' \<in> subs_of (registry (snd (handle demo_serde ref_mpsc ''S'' (ConnectionId 1) demo_claims demo_shared))) (ConnectionId 1) \<and>
   ''tu'' \<notin> subs_of (registry demo_shared) (ConnectionId 1) \<and>
   authorizer demo_shared demo_claims ''tu'' \<and> length ''tu'' \<le> max_channel_len (config demo_shared)"
proof -
  have inv: "registry_inv (registry demo_shared)" by (simp add: demo_shared_def demo_reg_inv)
  have new: "''tu'' \<notin> subs_of (registry demo_shared) (ConnectionId 1)"
    by (simp add: demo_shared_def demo_subs)
  show ?thesis
    using handle_subscribes_only_authorized [OF inv demo_new_sub new] inv new demo_new_sub by blast
qed

text \<open>
  C22: A subscribe request is answered for every channel in it, by the frame the client gets. When the
  queue has room, the next frame in it is one acknowledgement, followed by the snapshots of the added
  channels as far as they fit, in the order of the acknowledgement. Its \<open>channels\<close> are exactly the
  channels the request added to what the connection holds, each once. Its \<open>rejected\<close> names exactly the
  requested channels that are not held afterwards, with the exact reason: \<open>invalid\<close> for names that are
  too long, \<open>unauthorized\<close> for the other channels the authorizer refuses, \<open>limit\<close> for channels that were
  allowed when the connection holds \<open>max_subscriptions\<close>.
\<close>

theorem subscribe_request_accounted:
  assumes inv: "registry_inv (registry sh)" and Q: "mpsc_ok Q"
    and c: "map_of (connections (registry sh)) i = Some c" and acc: "accepts Q (tx c)"
    and held: "\<forall>ch \<in> set (subscriptions c). authorizer sh cl ch \<and> length ch \<le> max_channel_len (config sh)"
  shows "\<exists>added rejected c'. map_of (connections (registry (handle_subscribe S Q chs i cl sh))) i = Some c' \<and>
    buffered (view Q (tx c')) = buffered (view Q (tx c)) @ to_frame S (Subscribed added rejected) #
      take (room Q (tx c) - 1) (map (\<lambda>ch. to_frame S (Snapshot ch (the (snapshots sh ch))))
        (filter (\<lambda>ch. snapshots sh ch \<noteq> None) added)) \<and>
    distinct added \<and> set added \<subseteq> set chs \<and> set added \<inter> set (subscriptions c) = {} \<and>
    set (subscriptions c') = set (subscriptions c) \<union> set added \<and>
    (\<forall>ch r. \<lparr>channel = ch, reason = r\<rparr> \<in> set rejected \<longleftrightarrow> ch \<in> set chs \<and>
       (if max_channel_len (config sh) < length ch then r = ''invalid''
        else if \<not> authorizer sh cl ch then r = ''unauthorized''
        else r = ''limit'' \<and> ch \<notin> set (subscriptions c') \<and>
          max_subscriptions (config sh) \<le> card (set (subscriptions c')))) \<and>
    (\<forall>ch \<in> set chs. ch \<in> set (subscriptions c') \<longleftrightarrow> ch \<notin> channel ` set rejected)"
proof -
  obtain added over reg where sub: "Registry_subscribe i (allowed_of cl sh chs)
      (max_subscriptions (config sh)) (registry sh) = ((added, over), reg)"
    by (metis prod.exhaust)
  note known = subscribe_known [OF inv c sub]
  let ?rej = "rejections cl sh chs over"
  have room: "0 < room Q (tx c)" "\<not> rx_gone (view Q (tx c))" using acc by (simp_all add: accepts_def room_def)
  obtain c' where c': "map_of (connections (registry (handle_subscribe S Q chs i cl sh))) i = Some c'"
    and buf: "buffered (view Q (tx c')) = buffered (view Q (tx c)) @
       take (room Q (tx c)) (subscribe_frames S (snapshots sh) added ?rej)"
    using handle_subscribe_queue [OF inv Q c room(2) sub] by blast
  have "subs_of (registry (handle_subscribe S Q chs i cl sh)) i = subs_of reg i"
    by (simp add: handle_subscribe_eq [OF sub] send_all.keeps_subs [simplified])
  then have subs: "set (subscriptions c') = subs_of reg i" by (simp add: subs_of_Some [OF c'])
  have buffer: "buffered (view Q (tx c')) = buffered (view Q (tx c)) @ to_frame S (Subscribed added ?rej) #
      take (room Q (tx c) - 1) (map (\<lambda>ch. to_frame S (Snapshot ch (the (snapshots sh ch))))
        (filter (\<lambda>ch. snapshots sh ch \<noteq> None) added))"
    using buf room(1) by (simp add: subscribe_frames_eq take_Cons')
  have added: "set added \<subseteq> set (allowed_of cl sh chs)" "set added \<inter> set (subscriptions c) = {}" "distinct added"
    using known(1) by (auto simp: set_fresh subs_of_Some [OF c] distinct_fresh dest: in_set_takeD)
  have new: "set (subscriptions c') = set (subscriptions c) \<union> set added"
    using subs known(2) [of i] by (simp add: subs_of_Some [OF c])
  then have good: "ch \<in> set (subscriptions c') \<Longrightarrow> length ch \<le> max_channel_len (config sh) \<and> authorizer sh cl ch" for ch
    using held added(1) by (auto simp: set_allowed_of subset_iff)
  note reasons = rejection_reasons [OF inv c sub, folded subs]
  have "ch \<in> set (subscriptions c') \<longleftrightarrow> ch \<notin> channel ` set ?rej" if "ch \<in> set chs" for ch
    using that good [of ch] unfolding channels_rejected
    by (auto simp: known(3) set_allowed_of subs not_less)
  moreover have "set added \<subseteq> set chs" using added(1) by (auto simp: set_allowed_of)
  ultimately show ?thesis using c' buffer added(2,3) new reasons by blast
qed
theorem subscribe_request_accounted_witness:
  "\<exists>added rejected c'. map_of (connections (registry (handle_subscribe demo_serde ref_mpsc [''tu'', ''private'', ''u'', ''tv'']
        (ConnectionId 1) demo_claims demo_shared))) (ConnectionId 1) = Some c' \<and>
     buffered (view ref_mpsc (tx c')) = [to_frame demo_serde (Subscribed added rejected)] \<and>
     \<lparr>channel = ''private'', reason = ''invalid''\<rparr> \<in> set rejected \<and>
     \<lparr>channel = ''u'', reason = ''unauthorized''\<rparr> \<in> set rejected \<and>
     (''tv'' \<in> set (subscriptions c') \<longleftrightarrow> ''tv'' \<notin> channel ` set rejected)"
proof -
  have inv: "registry_inv (registry demo_shared)" by (simp add: demo_shared_def demo_reg_inv)
  have c: "map_of (connections (registry demo_shared)) (ConnectionId 1) = Some demo_conn"
    by (simp add: demo_shared_def demo_reg_conn)
  have acc: "accepts ref_mpsc (tx demo_conn)" "buffered (view ref_mpsc (tx demo_conn)) = []" "room ref_mpsc (tx demo_conn) = 1"
    by (simp_all add: demo_conn_def accepts_def ref_mpsc_def room_def)
  have held: "\<forall>ch \<in> set (subscriptions demo_conn).
      authorizer demo_shared demo_claims ch \<and> length ch \<le> max_channel_len (config demo_shared)"
    by (simp add: demo_conn_def demo_shared_def demo_config_def)
  have names: "max_channel_len (config demo_shared) < length ''private''" "\<not> max_channel_len (config demo_shared) < length ''u''"
    "\<not> authorizer demo_shared demo_claims ''u''"
    by (simp_all add: demo_shared_def demo_config_def)
  let ?chs = "[''tu'', ''private'', ''u'', ''tv'']" and ?sh = "demo_shared"
  from subscribe_request_accounted [OF inv ref_mpsc_ok c acc(1) held, of demo_serde ?chs]
  obtain added rejected c' where h:
    "map_of (connections (registry (handle_subscribe demo_serde ref_mpsc ?chs (ConnectionId 1) demo_claims ?sh))) (ConnectionId 1) =
       Some c'"
    "buffered (view ref_mpsc (tx c')) = buffered (view ref_mpsc (tx demo_conn)) @ to_frame demo_serde (Subscribed added rejected) #
       take (room ref_mpsc (tx demo_conn) - 1) (map (\<lambda>ch. to_frame demo_serde (Snapshot ch (the (snapshots ?sh ch))))
         (filter (\<lambda>ch. snapshots ?sh ch \<noteq> None) added))"
    "\<forall>ch r. \<lparr>channel = ch, reason = r\<rparr> \<in> set rejected \<longleftrightarrow> ch \<in> set ?chs \<and>
       (if max_channel_len (config ?sh) < length ch then r = ''invalid''
        else if \<not> authorizer ?sh demo_claims ch then r = ''unauthorized''
        else r = ''limit'' \<and> ch \<notin> set (subscriptions c') \<and>
          max_subscriptions (config ?sh) \<le> card (set (subscriptions c')))"
    "\<forall>ch \<in> set ?chs. ch \<in> set (subscriptions c') \<longleftrightarrow> ch \<notin> channel ` set rejected"
    by (elim exE conjE) (rule that)
  have "\<lparr>channel = ''private'', reason = ''invalid''\<rparr> \<in> set rejected"
    using h(3) [rule_format, of "''private''" "''invalid''"] names(1) by simp
  moreover have "\<lparr>channel = ''u'', reason = ''unauthorized''\<rparr> \<in> set rejected"
    using h(3) [rule_format, of "''u''" "''unauthorized''"] names(2,3) by simp
  moreover have "''tv'' \<in> set (subscriptions c') \<longleftrightarrow> ''tv'' \<notin> channel ` set rejected"
    by (rule bspec [OF h(4)]) simp
  moreover have "buffered (view ref_mpsc (tx c')) = [to_frame demo_serde (Subscribed added rejected)]"
    using h(2) by (simp add: acc(2,3))
  ultimately show ?thesis using h(1) by (intro exI conjI)
qed

text \<open>
  C37: Subscribing again to channels that are already held brings no snapshot: the queue receives only
  an acknowledgement that lists no channel, although \<^verbatim>\<open>docs/protocol.md\<close> tells a client that received
  \<open>resync\<close> that a re-subscribe restores its state. Only unsubscribing first does.
\<close>

theorem resubscribe_brings_no_snapshot:
  assumes inv: "registry_inv (registry sh)" and Q: "mpsc_ok Q"
    and c: "map_of (connections (registry sh)) i = Some c" and acc: "accepts Q (tx c)"
    and held: "set chs \<subseteq> set (subscriptions c)"
    and ok: "\<forall>ch \<in> set chs. authorizer sh cl ch \<and> length ch \<le> max_channel_len (config sh)"
  shows "\<exists>c'. map_of (connections (registry (handle_subscribe S Q chs i cl sh))) i = Some c' \<and>
     buffered (view Q (tx c')) = buffered (view Q (tx c)) @ [to_frame S (Subscribed [] [])]"
proof -
  obtain added over reg where sub: "Registry_subscribe i (allowed_of cl sh chs)
      (max_subscriptions (config sh)) (registry sh) = ((added, over), reg)"
    by (metis prod.exhaust)
  have "set (allowed_of cl sh chs) \<subseteq> subs_of (registry sh) i"
    using held by (auto simp: set_allowed_of subs_of_Some [OF c])
  from store.resubscribe_adds_nothing [OF inv this] have added: "added = []"
    using sub by (metis fst_conv)
  have "subs_of reg i = subs_of (registry sh) i"
    using subscribe_known(2) [OF inv c sub, of i] added by simp
  then have "over = []"
    using held by (auto simp: subscribe_known(3) [OF inv c sub] filter_empty_conv set_allowed_of subs_of_Some [OF c])
  moreover have "rejections cl sh chs [] = []"
    using ok by (auto simp: rejections_def filter_empty_conv not_less)
  moreover have "0 < room Q (tx c)" and "\<not> rx_gone (view Q (tx c))"
    using acc by (simp_all add: accepts_def room_def)
  ultimately show ?thesis
    using handle_subscribe_queue [OF inv Q c _ sub, of S] added
    by (simp add: subscribe_frames_def List.map_filter_simps)
qed

theorem resubscribe_brings_no_snapshot_witness:
  "\<exists>c'. map_of (connections (registry (handle_subscribe demo_serde ref_mpsc [''t''] (ConnectionId 1) demo_claims
        (demo_shared\<lparr>snapshots := (\<lambda>_. Some ''1'')\<rparr>)))) (ConnectionId 1) = Some c' \<and>
     buffered (view ref_mpsc (tx c')) = buffered (view ref_mpsc (tx demo_conn)) @ [to_frame demo_serde (Subscribed [] [])]"
  by (rule resubscribe_brings_no_snapshot)
    (simp_all add: demo_shared_def demo_reg_inv demo_reg_conn ref_mpsc_ok,
     simp_all add: demo_conn_def demo_config_def accepts_def ref_mpsc_def)

end
