(* ===== verification/Session.thy ===== *)
theory Session
  imports Handler
begin

text \<open>
  One connection's task: \<^verbatim>\<open>authenticate\<close>, \<^verbatim>\<open>send_now\<close> and \<^verbatim>\<open>session\<close> of \<^verbatim>\<open>src/src/server.rs\<close>.

  What the runtime and the socket deliver is input: the outcome of a \<^verbatim>\<open>tokio::time::timeout\<close> is
  \<open>Elapsed\<close> or \<open>Completed\<close> with the result of the future under it; a future awaited without a timeout is an
  \<open>option\<close>, \<open>None\<close> when it never completes; an \<open>event\<close> is the branch of \<^verbatim>\<open>select!\<close> that fires together
  with what it received; \<open>now\<close> is the instant of the iteration; \<open>others\<close> is what the other tasks and
  threads did to the shared state since the previous iteration. An error of the WebSocket library is
  its text. \<open>written\<close> logs the messages the socket took. A session that stops says why: the source
  returns \<^verbatim>\<open>Ok(())\<close> from each \<open>Stop\<close>. \<open>Parked\<close> is an iteration that awaits something that never
  completes.
\<close>

section \<open>Authentication and writes\<close>

datatype 'a timed = Elapsed | Completed 'a

definition authenticate ::
    "serde \<Rightarrow> validator \<Rightarrow> (string + message) option timed \<Rightarrow> ws_error + claims" where
  "authenticate S validate first =
     (case first of
        Elapsed \<Rightarrow> Inl (Unauthenticated ''auth timeout'')
      | Completed None \<Rightarrow> Inl (Unauthenticated ''closed before auth'')
      | Completed (Some (Inl e)) \<Rightarrow> Inl (Error_from e)
      | Completed (Some (Inr Close)) \<Rightarrow> Inl (Unauthenticated ''closed before auth'')
      | Completed (Some (Inr (Text t))) \<Rightarrow>
          (case from_str S t of
             Inr (Auth tok) \<Rightarrow>
               (case validate tok of Inl e \<Rightarrow> Inl (Unauthenticated e) | Inr c \<Rightarrow> Inr c)
           | _ \<Rightarrow> Inl (Unauthenticated ''expected an auth message''))
      | Completed (Some (Inr _)) \<Rightarrow> Inl (Unauthenticated ''expected an auth message''))"

definition send_now :: "(string + unit) timed \<Rightarrow> ws_error + unit" where
  "send_now outcome =
     (case outcome of
        Elapsed \<Rightarrow> Inl (Protocol ''write timed out'')
      | Completed (Inl e) \<Rightarrow> Inl (Error_from e)
      | Completed (Inr u) \<Rightarrow> Inr u)"

section \<open>The session loop\<close>

datatype event =
    Outbound "frame option"
  | Inbound "(string + message) option"
  | Tick

record ('q, 's) env =
  now :: nat
  io_write :: "(string + unit) timed"
  io_close :: "(string + unit) option"
  others :: "('q, 's) shared \<Rightarrow> ('q, 's) shared"

datatype why = SenderGone | PeerGone | PeerClosed | HeartbeatTimeout | TooSlow

datatype ctl = Continue | Stop why | Return ws_error | Parked

record sess =
  last_seen :: nat
  written :: "message list"

definition write_msg :: "message \<Rightarrow> ('q, 's) env \<Rightarrow> sess \<Rightarrow> ctl \<times> sess" where
  "write_msg m e st =
     (case send_now (io_write e) of
        Inl err \<Rightarrow> (Return err, st)
      | Inr _ \<Rightarrow> (Continue, st\<lparr>written := written st @ [m]\<rparr>))"

definition close_sink :: "why \<Rightarrow> ('q, 's) env \<Rightarrow> sess \<Rightarrow> ctl \<times> sess" where
  "close_sink w e st =
     (case io_close e of
        None \<Rightarrow> (Parked, st)
      | Some (Inl _) \<Rightarrow> (Stop w, st)
      | Some (Inr _) \<Rightarrow> (Stop w, st\<lparr>written := written st @ [Close]\<rparr>))"

definition reply :: "('q, 'x) mpsc_scheme \<Rightarrow> connection_id \<Rightarrow> frame \<Rightarrow> ('q, 's) shared \<Rightarrow> ('q, 's) shared" where
  "reply Q i f sh = sh\<lparr>registry := snd (Registry_send Q i f (registry sh))\<rparr>"

definition count_heartbeat_timeout :: "('q, 's) shared \<Rightarrow> ('q, 's) shared" where
  "count_heartbeat_timeout sh =
     (let reg = registry sh; m = Registry_metrics reg
      in sh\<lparr>registry := reg\<lparr>metrics := m\<lparr>heartbeat_timeouts := heartbeat_timeouts m + 1\<rparr>\<rparr>\<rparr>)"

definition on_inbound ::
    "serde \<Rightarrow> ('q, 'x) mpsc_scheme \<Rightarrow> connection_id \<Rightarrow> claims \<Rightarrow> message \<Rightarrow> ('q, 's) env \<Rightarrow>
     sess \<Rightarrow> ('q, 's) shared \<Rightarrow> ctl \<times> sess \<times> ('q, 's) shared" where
  "on_inbound S Q i cl m e st sh =
     (case m of
        Text t \<Rightarrow>
          (case handle S Q t i cl sh of
             (Some f, sh') \<Rightarrow> (Continue, st, reply Q i f sh')
           | (None, sh') \<Rightarrow> (Continue, st, sh'))
      | WsPing payload \<Rightarrow> (case write_msg (WsPong payload) e st of (c, st') \<Rightarrow> (c, st', sh))
      | WsPong _ \<Rightarrow> (Continue, st, sh)
      | Close \<Rightarrow> (Stop PeerClosed, st, sh)
      | Binary _ \<Rightarrow>
          (Continue, st,
           reply Q i (to_frame S (Error ''protocol'' ''binary frames are not part of this protocol'')) sh)
      | RawFrame \<Rightarrow> (Continue, st, sh))"

definition select_body ::
    "serde \<Rightarrow> ('q, 'x) mpsc_scheme \<Rightarrow> connection_id \<Rightarrow> claims \<Rightarrow> event \<Rightarrow> ('q, 's) env \<Rightarrow>
     sess \<Rightarrow> ('q, 's) shared \<Rightarrow> ctl \<times> sess \<times> ('q, 's) shared" where
  "select_body S Q i cl ev e st sh =
     (case ev of
        Outbound None \<Rightarrow> (Stop SenderGone, st, sh)
      | Outbound (Some f) \<Rightarrow> (case write_msg (to_message f) e st of (c, st') \<Rightarrow> (c, st', sh))
      | Inbound None \<Rightarrow> (Stop PeerGone, st, sh)
      | Inbound (Some msg) \<Rightarrow>
          let st = st\<lparr>last_seen := now e\<rparr>
          in (case msg of
                Inl err \<Rightarrow> (Return (Error_from err), st, sh)
              | Inr m \<Rightarrow> on_inbound S Q i cl m e st sh)
      | Tick \<Rightarrow>
          if now e - last_seen st > heartbeat_timeout (config sh)
          then (case close_sink HeartbeatTimeout e st of (c, st') \<Rightarrow> (c, st', count_heartbeat_timeout sh))
          else (case write_msg (WsPing []) e st of (c, st') \<Rightarrow> (c, st', sh)))"

definition session_iter ::
    "serde \<Rightarrow> ('q, 'x) mpsc_scheme \<Rightarrow> connection_id \<Rightarrow> claims \<Rightarrow> event \<Rightarrow> ('q, 's) env \<Rightarrow>
     sess \<Rightarrow> ('q, 's) shared \<Rightarrow> ctl \<times> sess \<times> ('q, 's) shared" where
  "session_iter S Q i cl ev e st sh =
     (case select_body S Q i cl ev e st sh of
        (Continue, st', sh') \<Rightarrow>
          if Registry_drops i (registry sh') \<ge> max_consecutive_drops (config sh')
          then (case close_sink TooSlow e st' of (c, st'') \<Rightarrow> (c, st'', sh'))
          else (Continue, st', sh')
      | r \<Rightarrow> r)"

text \<open>The loop over the events the runtime delivers; \<open>Continue\<close> when it is still running at the end.\<close>

fun session_run ::
    "serde \<Rightarrow> ('q, 'x) mpsc_scheme \<Rightarrow> connection_id \<Rightarrow> claims \<Rightarrow> (event \<times> ('q, 's) env) list \<Rightarrow>
     sess \<Rightarrow> ('q, 's) shared \<Rightarrow> ctl \<times> sess \<times> ('q, 's) shared" where
  "session_run S Q i cl [] st sh = (Continue, st, sh)"
| "session_run S Q i cl ((ev, e) # evs) st sh =
     (case session_iter S Q i cl ev e st (others e sh) of
        (Continue, st', sh') \<Rightarrow> session_run S Q i cl evs st' sh'
      | r \<Rightarrow> r)"

text \<open>
  Liveness as the client sees it: at every tick, the last inbound traffic is at most \<open>T\<close> old
  (\<open>ls\<close>: the instant of the last inbound traffic so far).
\<close>

fun answered :: "nat \<Rightarrow> nat \<Rightarrow> (event \<times> ('q, 's) env) list \<Rightarrow> bool" where
  "answered T ls [] = True"
| "answered T ls ((ev, e) # evs) =
     (case ev of
        Tick \<Rightarrow> now e - ls \<le> T \<and> answered T ls evs
      | Inbound (Some _) \<Rightarrow> answered T (now e) evs
      | _ \<Rightarrow> answered T ls evs)"

text \<open>What an iteration leaves alone.\<close>

definition same_setup :: "('q, 's) shared \<Rightarrow> ('q, 's) shared \<Rightarrow> bool" where
  "same_setup sh sh' \<longleftrightarrow> config sh' = config sh \<and> validator sh' = validator sh \<and>
     authorizer sh' = authorizer sh \<and> snapshots sh' = snapshots sh \<and> slots sh' = slots sh"

text \<open>The other tasks never change the configuration.\<close>

definition keep_config :: "(event \<times> ('q, 's) env) list \<Rightarrow> bool" where
  "keep_config evs \<longleftrightarrow> (\<forall>x \<in> set evs. \<forall>sh. config (others (snd x) sh) = config sh)"

text \<open>An environment for concrete runs: every write and close succeeds, nobody interferes.\<close>

definition quiet :: "nat \<Rightarrow> ('q, 's) env" where
  "quiet t = \<lparr>now = t, io_write = Completed (Inr ()), io_close = Some (Inr ()), others = (\<lambda>sh. sh)\<rparr>"

section \<open>Authentication\<close>

lemma authenticate_ok_iff:
  "authenticate S v first = Inr c \<longleftrightarrow>
     (\<exists>t tok. first = Completed (Some (Inr (Text t))) \<and> from_str S t = Inr (Auth tok) \<and> v tok = Inr c)"
  by (auto simp: authenticate_def split: timed.splits option.splits sum.splits message.splits client_message.splits)

context token_validator
begin

lemma refused_tokens_look_alike:
  assumes "from_str S t = Inr (Auth a)" and "from_str S t' = Inr (Auth b)"
    and "validate a = Inl e" and "validate b = Inl e'"
  shows "authenticate S validate (Completed (Some (Inr (Text t)))) =
         authenticate S validate (Completed (Some (Inr (Text t'))))"
  using assms uniform_refusal [OF assms(3,4)] by (simp add: authenticate_def)

end

section \<open>One iteration\<close>

lemma write_msg_simps:
  "fst (write_msg m e st) = (case send_now (io_write e) of Inl err \<Rightarrow> Return err | Inr _ \<Rightarrow> Continue)"
  "last_seen (snd (write_msg m e st)) = last_seen st"
  by (simp_all add: write_msg_def split: sum.splits)

lemma close_sink_simps:
  "fst (close_sink w e st) = (case io_close e of None \<Rightarrow> Parked | Some _ \<Rightarrow> Stop w)"
  "last_seen (snd (close_sink w e st)) = last_seen st"
  by (auto simp: close_sink_def split: option.splits sum.splits)

lemma reply_frame [simp]:
  "config (reply Q i f sh) = config sh" "validator (reply Q i f sh) = validator sh"
  "authorizer (reply Q i f sh) = authorizer sh" "snapshots (reply Q i f sh) = snapshots sh"
  "slots (reply Q i f sh) = slots sh"
  by (simp_all add: reply_def)

lemma count_heartbeat_timeout_frame [simp]:
  "config (count_heartbeat_timeout sh) = config sh" "validator (count_heartbeat_timeout sh) = validator sh"
  "authorizer (count_heartbeat_timeout sh) = authorizer sh" "snapshots (count_heartbeat_timeout sh) = snapshots sh"
  "slots (count_heartbeat_timeout sh) = slots sh"
  by (simp_all add: count_heartbeat_timeout_def Let_def)

lemma handle_same_setup: "same_setup sh (snd (handle S Q t i cl sh))"
  by (simp add: same_setup_def handle_frame)

lemma same_setup_reply: "same_setup sh sh' \<Longrightarrow> same_setup sh (reply Q i f sh')"
  by (simp add: same_setup_def)

lemma on_inbound_same_setup: "same_setup sh (snd (snd (on_inbound S Q i cl m e st sh)))"
  using handle_same_setup [of sh S Q _ i cl]
  by (auto simp: on_inbound_def same_setup_def split: message.splits prod.splits option.splits)
    (metis snd_conv)+

lemma select_body_same_setup: "same_setup sh (snd (snd (select_body S Q i cl ev e st sh)))"
  using on_inbound_same_setup [of sh S Q i cl]
  by (auto simp: select_body_def same_setup_def Let_def split: event.splits option.splits sum.splits prod.splits)

lemma session_iter_shared:
  "snd (snd (session_iter S Q i cl ev e st sh)) = snd (snd (select_body S Q i cl ev e st sh))"
  by (auto simp: session_iter_def split: prod.splits ctl.splits)

lemma session_iter_last_seen:
  "last_seen (fst (snd (session_iter S Q i cl ev e st sh))) = last_seen (fst (snd (select_body S Q i cl ev e st sh)))"
  by (auto simp: session_iter_def split: prod.splits ctl.splits) (metis close_sink_simps(2) snd_conv)

lemma session_iter_Continue:
  "fst (session_iter S Q i cl ev e st sh) = Continue \<longleftrightarrow>
     fst (select_body S Q i cl ev e st sh) = Continue \<and>
     Registry_drops i (registry (snd (snd (select_body S Q i cl ev e st sh)))) <
       max_consecutive_drops (config (snd (snd (select_body S Q i cl ev e st sh))))"
  by (auto simp: session_iter_def close_sink_def split: prod.splits ctl.splits option.splits sum.splits)

lemma on_inbound_last_seen: "last_seen (fst (snd (on_inbound S Q i cl m e st sh))) = last_seen st"
  by (auto simp: on_inbound_def split: message.splits prod.splits option.splits)
    (metis write_msg_simps(2) snd_conv)

lemma select_body_last_seen:
  "last_seen (fst (snd (select_body S Q i cl ev e st sh))) =
     (case ev of Inbound (Some _) \<Rightarrow> now e | _ \<Rightarrow> last_seen st)"
  by (auto simp: select_body_def Let_def on_inbound_last_seen
      split: event.splits option.splits sum.splits prod.splits)
    (metis write_msg_simps(2) close_sink_simps(2) snd_conv)+

lemma on_inbound_not_heartbeat: "fst (on_inbound S Q i cl m e st sh) \<noteq> Stop HeartbeatTimeout"
  by (auto simp: on_inbound_def write_msg_def send_now_def
      split: message.splits prod.splits option.splits timed.splits sum.splits)

lemma select_body_heartbeat:
  assumes "fst (select_body S Q i cl ev e st sh) = Stop HeartbeatTimeout"
  shows "ev = Tick \<and> heartbeat_timeout (config sh) < now e - last_seen st"
  using assms on_inbound_not_heartbeat [of S Q i cl _ e _ sh]
  by (auto simp: select_body_def Let_def write_msg_def send_now_def
      split: event.splits option.splits sum.splits prod.splits if_splits timed.splits)

lemma session_iter_heartbeat:
  assumes "fst (session_iter S Q i cl ev e st sh) = Stop HeartbeatTimeout"
  shows "ev = Tick \<and> heartbeat_timeout (config sh) < now e - last_seen st"
proof (rule select_body_heartbeat)
  show "fst (select_body S Q i cl ev e st sh) = Stop HeartbeatTimeout"
    using assms by (auto simp: session_iter_def close_sink_def
        split: prod.splits ctl.splits option.splits sum.splits if_splits)
qed

lemma session_iter_config: "config (snd (snd (session_iter S Q i cl ev e st sh))) = config sh"
  using select_body_same_setup [of sh S Q i cl ev e st] by (simp add: session_iter_shared same_setup_def)

lemma tick_after_timeout:
  "heartbeat_timeout (config sh) < now e - last_seen st \<Longrightarrow>
     fst (session_iter S Q i cl Tick e st sh) \<noteq> Continue"
  by (auto simp: session_iter_Continue select_body_def close_sink_def split: prod.splits option.splits sum.splits)

lemma session_run_Cons:
  "session_run S Q i cl ((ev, e) # evs) st sh =
     (let r = session_iter S Q i cl ev e st (others e sh)
      in if fst r = Continue then session_run S Q i cl evs (fst (snd r)) (snd (snd r)) else r)"
  by (simp add: Let_def split: prod.splits ctl.splits)

declare session_run.simps(2) [simp del]

section \<open>Properties\<close>

text \<open>
  C10: A connection is authenticated only by a first message that arrived in time, is a text message, is an
  \<open>auth\<close> message and carries a token the validator accepts; the claims of the connection are then
  the ones the validator returned. Every other first event is refused.
\<close>

theorem authenticated_only_with_a_valid_token:
  "authenticate S v first = Inr c \<longleftrightarrow>
     (\<exists>t tok. first = Completed (Some (Inr (Text t))) \<and> from_str S t = Inr (Auth tok) \<and> v tok = Inr c)"
  by (rule authenticate_ok_iff)

text \<open>
  The refusal of an invalid token reveals nothing about it: two \<open>auth\<close> messages whose tokens the
  bundled JWT validator refuses get the same error, whatever the tokens, the key and the reason.
\<close>

theorem jwt_refusals_look_alike:
  assumes "from_str S t = Inr (Auth a)" and "from_str S t' = Inr (Auth b)"
    and "HmacJwt_validate J self a = Inl e" and "HmacJwt_validate J self b = Inl e'"
  shows "authenticate S (HmacJwt_validate J self) (Completed (Some (Inr (Text t)))) =
         authenticate S (HmacJwt_validate J self) (Completed (Some (Inr (Text t'))))"
  by (rule hmac.refused_tokens_look_alike [OF assms])

theorem jwt_refusals_look_alike_witness:
  "authenticate (ref_serde\<lparr>from_str := (\<lambda>t. Inr (Auth t))\<rparr>) (HmacJwt_validate demo_jwt (HmacJwt_new demo_jwt ''key''))
      (Completed (Some (Inr (Text ''expired'')))) =
   authenticate (ref_serde\<lparr>from_str := (\<lambda>t. Inr (Auth t))\<rparr>) (HmacJwt_validate demo_jwt (HmacJwt_new demo_jwt ''key''))
      (Completed (Some (Inr (Text ''unsigned''))))"
  by (rule jwt_refusals_look_alike [where e = "''invalid token''" and e' = "''invalid token''"])
    (simp_all add: HmacJwt_validate_def HmacJwt_new_def demo_jwt_def, simp_all)

text \<open>
  C25: A client whose inbound traffic of any kind (a Pong frame answering a Ping, a text message) is at
  most \<open>heartbeat_timeout\<close> old at every tick is never closed for silence, whatever else happens.
\<close>

theorem answering_client_survives:
  assumes "keep_config evs" and "answered (heartbeat_timeout (config sh)) (last_seen st) evs"
  shows "fst (session_run S Q i cl evs st sh) \<noteq> Stop HeartbeatTimeout"
  using assms
proof (induction evs arbitrary: st sh)
  case (Cons x evs)
  obtain ev e where x: "x = (ev, e)" by (cases x)
  let ?r = "session_iter S Q i cl ev e st (others e sh)"
  have cfg: "config (others e sh) = config sh" and kc: "keep_config evs"
    using Cons.prems(1) by (auto simp: keep_config_def x)
  have "fst ?r \<noteq> Stop HeartbeatTimeout"
    using session_iter_heartbeat [of S Q i cl ev e st "others e sh"] Cons.prems(2) by (auto simp: x cfg)
  moreover have "answered (heartbeat_timeout (config (snd (snd ?r)))) (last_seen (fst (snd ?r))) evs"
    using Cons.prems(2)
    by (auto simp: x session_iter_config session_iter_last_seen select_body_last_seen cfg split: event.splits option.splits)
  ultimately show ?case
    using Cons.IH [OF kc] by (simp add: x session_run_Cons Let_def)
qed simp

theorem answering_client_survives_witness:
  "fst (session_run demo_serde ref_mpsc (ConnectionId 1) demo_claims
     [(Tick, quiet 30000000000), (Inbound (Some (Inr (WsPong []))), quiet 30000001000),
      (Tick, quiet 60000000000), (Tick, quiet 120000000000)]
     \<lparr>last_seen = 0, written = []\<rparr> demo_shared) \<noteq> Stop HeartbeatTimeout"
  by (rule answering_client_survives)
    (simp_all add: keep_config_def quiet_def demo_shared_def demo_config_def Config_default_def from_secs_def)

text \<open>
  A silent client is not kept: a session that sees no inbound traffic does not survive the first
  tick that comes more than \<open>heartbeat_timeout\<close> after the last traffic.
\<close>

theorem silent_client_is_not_kept:
  assumes "keep_config evs" and "\<forall>x \<in> set evs. \<forall>m. fst x \<noteq> Inbound m"
    and "(Tick, e) \<in> set evs" and "heartbeat_timeout (config sh) < now e - last_seen st"
  shows "fst (session_run S Q i cl evs st sh) \<noteq> Continue"
  using assms
proof (induction evs arbitrary: st sh)
  case (Cons x evs)
  obtain ev e' where x: "x = (ev, e')" by (cases x)
  let ?r = "session_iter S Q i cl ev e' st (others e' sh)"
  have cfg: "config (others e' sh) = config sh" and kc: "keep_config evs"
    using Cons.prems(1) by (auto simp: keep_config_def x)
  have ls: "last_seen (fst (snd ?r)) = last_seen st"
    using Cons.prems(2) by (auto simp: x session_iter_last_seen select_body_last_seen split: event.splits)
  show ?case
  proof (cases "(Tick, e) = x")
    case True
    then show ?thesis
      using Cons.prems(4) tick_after_timeout [of "others e sh" e st S Q i cl] cfg
      by (auto simp: x session_run_Cons Let_def)
  next
    case False
    then show ?thesis
      using Cons.prems(2-4) Cons.IH [OF kc, of "snd (snd ?r)" "fst (snd ?r)"] ls
      by (auto simp: x session_run_Cons Let_def session_iter_config cfg)
  qed
qed simp

theorem silent_client_is_not_kept_witness:
  "fst (session_run demo_serde ref_mpsc (ConnectionId 1) demo_claims
     [(Tick, quiet 30000000000), (Tick, quiet 60000000000), (Tick, quiet 90000000001)]
     \<lparr>last_seen = 0, written = []\<rparr> demo_shared) \<noteq> Continue"
  by (rule silent_client_is_not_kept [where e = "quiet 90000000001"])
    (auto simp: keep_config_def quiet_def demo_shared_def demo_config_def Config_default_def from_secs_def)

text \<open>
  C40: A drop limit of zero passes validation like any other value, and with it no session survives its
  first event: the drop streak is never below the limit.
\<close>

theorem zero_drop_limit_closes_every_session:
  "Config_validate mp (c\<lparr>max_consecutive_drops := 0\<rparr>) = Config_validate mp c \<and>
   fst (session_iter S Q i cl ev e st (sh\<lparr>config := c\<lparr>max_consecutive_drops := 0\<rparr>\<rparr>)) \<noteq> Continue"
proof
  let ?sh = "sh\<lparr>config := c\<lparr>max_consecutive_drops := 0\<rparr>\<rparr>"
  show "Config_validate mp (c\<lparr>max_consecutive_drops := 0\<rparr>) = Config_validate mp c"
    by (simp add: Config_validate_def)
  have "config (snd (snd (select_body S Q i cl ev e st ?sh))) = c\<lparr>max_consecutive_drops := 0\<rparr>"
    using select_body_same_setup [of ?sh S Q i cl ev e st] by (simp add: same_setup_def)
  then show "fst (session_iter S Q i cl ev e st ?sh) \<noteq> Continue"
    by (simp add: session_iter_Continue)
qed

end
