(* ===== verification/Server_API.thy ===== *)
theory Server_API
  imports Session
begin

text \<open>
  The crate's public face, \<^verbatim>\<open>src/src/lib.rs\<close>: the builder, \<^verbatim>\<open>bind\<close>, and what a \<^verbatim>\<open>Server\<close> offers to
  publishers. The semaphore that bounds the connections is a parameter (\<open>'s semaphore\<close>, with
  \<open>sem_ok\<close> for its documented behaviour), as are the result of binding the listener and the
  serialiser of arbitrary values (\<open>to_raw_value\<close>). The publishing operations act on the shared state.
\<close>

section \<open>The semaphore\<close>

record 's semaphore =
  sem_new :: "nat \<Rightarrow> 's"
  try_acquire :: "'s \<Rightarrow> 's option"
  release :: "'s \<Rightarrow> 's"
  available :: "'s \<Rightarrow> nat"

definition sem_ok :: "('s, 'x) semaphore_scheme \<Rightarrow> bool" where
  "sem_ok M \<longleftrightarrow>
     (\<forall>n. available M (sem_new M n) = n) \<and>
     (\<forall>s. available M s = 0 \<longrightarrow> try_acquire M s = None) \<and>
     (\<forall>s. 0 < available M s \<longrightarrow> (\<exists>s'. try_acquire M s = Some s' \<and> available M s' = available M s - 1)) \<and>
     (\<forall>s. available M (release M s) = available M s + 1)"

definition ref_sem :: "nat semaphore" where
  "ref_sem = \<lparr>sem_new = (\<lambda>n. n), try_acquire = (\<lambda>n. if n = 0 then None else Some (n - 1)),
     release = Suc, available = (\<lambda>n. n)\<rparr>"

section \<open>Builder\<close>

record builder =
  b_config :: config
  b_validator :: validator
  b_authorizer :: authorizer
  b_snapshots :: snapshot_source

definition Builder_default :: builder where
  "Builder_default = \<lparr>b_config = Config_default,
     b_validator = StaticToken_validate (StaticToken_new '''' ''anonymous''),
     b_authorizer = AllowAll_may_subscribe, b_snapshots = NoSnapshots_snapshot\<rparr>"

definition Server_builder :: builder where
  "Server_builder = Builder_default"

definition Builder_config :: "config \<Rightarrow> builder \<Rightarrow> builder" where
  "Builder_config c b = b\<lparr>b_config := c\<rparr>"

definition Builder_validator :: "validator \<Rightarrow> builder \<Rightarrow> builder" where
  "Builder_validator v b = b\<lparr>b_validator := v\<rparr>"

definition Builder_authorizer :: "authorizer \<Rightarrow> builder \<Rightarrow> builder" where
  "Builder_authorizer a b = b\<lparr>b_authorizer := a\<rparr>"

definition Builder_snapshots :: "snapshot_source \<Rightarrow> builder \<Rightarrow> builder" where
  "Builder_snapshots s b = b\<lparr>b_snapshots := s\<rparr>"

definition Builder_heartbeat :: "nat \<Rightarrow> nat \<Rightarrow> builder \<Rightarrow> builder" where
  "Builder_heartbeat interval timeout b =
     b\<lparr>b_config := (b_config b)\<lparr>heartbeat_interval := interval, heartbeat_timeout := timeout\<rparr>\<rparr>"

definition Builder_max_connections :: "nat \<Rightarrow> builder \<Rightarrow> builder" where
  "Builder_max_connections n b = b\<lparr>b_config := (b_config b)\<lparr>max_connections := n\<rparr>\<rparr>"

text \<open>The listener's outcome is asked for only once the configuration is valid.\<close>

definition Builder_bind ::
    "nat \<Rightarrow> ('s, 'x) semaphore_scheme \<Rightarrow> (unit \<Rightarrow> string + 'addr) \<Rightarrow> builder \<Rightarrow> ws_error + (('q, 's) shared \<times> 'addr)" where
  "Builder_bind max_permits M listen b =
     (case Config_validate max_permits (b_config b) of
        Inl e \<Rightarrow> Inl e
      | Inr _ \<Rightarrow>
          (case listen () of
             Inl e \<Rightarrow> Inl (Io e)
           | Inr addr \<Rightarrow>
               Inr (\<lparr>config = b_config b, registry = Registry_new Metrics_default,
                     validator = b_validator b, authorizer = b_authorizer b, snapshots = b_snapshots b,
                     slots = sem_new M (max_connections (b_config b))\<rparr>, addr)))"

section \<open>Publishing\<close>

text \<open>What \<open>bind\<close> returns is the state the \<^verbatim>\<open>Server\<close> shares and the address it is bound to.\<close>

definition Server_local_addr :: "('q, 's) shared \<times> 'addr \<Rightarrow> 'addr" where
  "Server_local_addr server = snd server"

definition Server_connections :: "('q, 's) shared \<Rightarrow> nat" where
  "Server_connections sh = Registry_len (registry sh)"

definition Server_subscribers :: "string \<Rightarrow> ('q, 's) shared \<Rightarrow> nat" where
  "Server_subscribers ch sh = Registry_subscribers ch (registry sh)"

definition Server_metrics :: "('q, 's) shared \<Rightarrow> metrics" where
  "Server_metrics sh = Registry_metrics (registry sh)"

definition Server_publish ::
    "serde \<Rightarrow> ('q, 'x) mpsc_scheme \<Rightarrow> string \<Rightarrow> string \<Rightarrow> ('q, 's) shared \<Rightarrow> nat \<times> ('q, 's) shared" where
  "Server_publish S Q ch payload sh =
     (let f = to_frame S (Data ch payload);
          (n, reg) = Registry_publish Q ch f (registry sh)
      in (n, sh\<lparr>registry := reg\<rparr>))"

definition Server_publish_json ::
    "serde \<Rightarrow> ('q, 'x) mpsc_scheme \<Rightarrow> ('v \<Rightarrow> string + string) \<Rightarrow> string \<Rightarrow> 'v \<Rightarrow> ('q, 's) shared \<Rightarrow> nat \<times> ('q, 's) shared" where
  "Server_publish_json S Q to_raw_value ch v sh =
     (case to_raw_value v of
        Inr raw \<Rightarrow> Server_publish S Q ch raw sh
      | Inl _ \<Rightarrow> (0, sh))"

definition Server_resync_all ::
    "serde \<Rightarrow> ('q, 'x) mpsc_scheme \<Rightarrow> ('q, 's) shared \<Rightarrow> nat \<times> ('q, 's) shared" where
  "Server_resync_all S Q sh =
     (let f = to_frame S (Resync []);
          (n, reg) = Registry_broadcast Q f (registry sh)
      in (n, sh\<lparr>registry := reg\<rparr>))"

fun resync_loop ::
    "('q, 'x) mpsc_scheme \<Rightarrow> frame \<Rightarrow> string list \<Rightarrow> nat \<Rightarrow> 'q registry \<Rightarrow> nat \<times> 'q registry" where
  "resync_loop Q f [] n reg = (n, reg)"
| "resync_loop Q f (ch # chs) n reg =
     (let (k, reg') = Registry_publish Q ch f reg in resync_loop Q f chs (n + k) reg')"

definition Server_resync ::
    "serde \<Rightarrow> ('q, 'x) mpsc_scheme \<Rightarrow> string list \<Rightarrow> ('q, 's) shared \<Rightarrow> nat \<times> ('q, 's) shared" where
  "Server_resync S Q channels sh =
     (let (n, reg) = resync_loop Q (to_frame S (Resync channels)) channels 0 (registry sh)
      in (n, sh\<lparr>registry := reg\<rparr>))"

lemma ref_sem_ok: "sem_ok ref_sem"
  by (simp add: sem_ok_def ref_sem_def)

interpretation resync: delivery_op "resync_loop Q f chs n" for Q f chs n
proof unfold_locales
  show "routing (snd (resync_loop Q f chs n reg)) = routing reg" for reg :: "'a registry"
  proof (induction chs arbitrary: n reg)
    case (Cons ch chs)
    then show ?case
      using publish.keeps_routing [of Q ch f reg] by (simp add: split_beta)
  qed simp
qed

lemma resync_loop_map_of:
  assumes "registry_inv reg"
  shows "map_of (connections (snd (resync_loop Q f chs n reg))) i =
     map_option (fold (after_deliver Q) (replicate (length (filter (\<lambda>ch. ch \<in> subs_of reg i) chs)) f))
       (map_of (connections reg) i)"
  using assms
proof (induction chs arbitrary: n reg)
  case (Cons ch chs)
  let ?reg = "snd (Registry_publish Q ch f reg)"
  have inv: "registry_inv ?reg" by (rule publish.keeps_inv [OF Cons.prems])
  have "snd (resync_loop Q f (ch # chs) n reg) =
      snd (resync_loop Q f chs (n + fst (Registry_publish Q ch f reg)) ?reg)"
    by (simp add: split_beta)
  then show ?case
    by (simp only: Cons.IH [OF inv] publish.keeps_subs)
      (simp add: publish_map_of [OF Cons.prems] option.map_comp o_def del: fold_replicate)
qed (simp add: option.map_id)

section \<open>Properties\<close>

text \<open>
  C38: \<^verbatim>\<open>resync\<close> sends its frame once per listed channel the client holds, not once per client: a client
  with room that holds \<open>k\<close> of the listed channels finds \<open>k\<close> copies at the end of its queue.
\<close>

theorem resync_repeats_per_channel:
  assumes inv: "registry_inv (registry sh)" and Q: "mpsc_ok Q"
    and c: "map_of (connections (registry sh)) i = Some c" and alive: "\<not> rx_gone (view Q (tx c))"
    and fits: "length (filter (\<lambda>ch. ch \<in> set (subscriptions c)) channels) \<le> room Q (tx c)"
  shows "\<exists>c'. map_of (connections (registry (snd (Server_resync S Q channels sh)))) i = Some c' \<and>
     buffered (view Q (tx c')) = buffered (view Q (tx c)) @
       replicate (length (filter (\<lambda>ch. ch \<in> set (subscriptions c)) channels)) (to_frame S (Resync channels))"
proof -
  have "registry (snd (Server_resync S Q channels sh)) =
      snd (resync_loop Q (to_frame S (Resync channels)) channels 0 (registry sh))"
    by (simp add: Server_resync_def split_beta)
  then show ?thesis
    using fits alive
    by (simp add: resync_loop_map_of [OF inv] c subs_of_Some [OF c] deliver_many_buffer [OF Q]
        del: fold_replicate)
qed

theorem resync_repeats_per_channel_witness:
  "\<exists>c'. map_of (connections (registry (snd (Server_resync demo_serde ref_mpsc [''t''] demo_shared)))) (ConnectionId 1) = Some c' \<and>
     buffered (view ref_mpsc (tx c')) = [to_frame demo_serde (Resync [''t''])]"
proof -
  have h: "registry_inv (registry demo_shared)"
    "map_of (connections (registry demo_shared)) (ConnectionId 1) = Some demo_conn"
    by (simp_all add: demo_shared_def demo_reg_inv demo_reg_conn)
  have a: "\<not> rx_gone (view ref_mpsc (tx demo_conn))" "buffered (view ref_mpsc (tx demo_conn)) = []"
    "length (filter (\<lambda>ch. ch \<in> set (subscriptions demo_conn)) [''t'']) \<le> room ref_mpsc (tx demo_conn)"
    "filter (\<lambda>ch. ch \<in> set (subscriptions demo_conn)) [''t''] = [''t'']"
    by (simp_all add: demo_conn_def ref_mpsc_def room_def)
  show ?thesis
    using resync_repeats_per_channel [OF h(1) ref_mpsc_ok h(2) a(1,3), of demo_serde] a(2,4) by simp
qed

end
