(* ===== verification/Lifecycle.thy ===== *)
theory Lifecycle
  imports Server_API
begin

text \<open>
  The accept loop and the life of a connection: \<^verbatim>\<open>serve\<close>, \<^verbatim>\<open>connection\<close> and the \<^verbatim>\<open>Registered\<close>
  guard of \<^verbatim>\<open>src/src/server.rs\<close>, run by many tasks at once beside the threads that publish.

  A task is between two of its effects on the shared state in a \<open>phase\<close>; \<open>connection_step\<close> takes
  it through the next one, with what the runtime delivers as \<open>input\<close>. The handler takes the registry's lock
  several times for one message (subscription, acknowledgement, each snapshot), so here it is
  \<open>handle_begin\<close> followed by its \<open>acts\<close> one by one. \<open>server_step\<close> interleaves the tasks with the
  accept loop and with publishers in every order. The authorizer and the validator are functions
  fixed at start; the snapshot source may change at any time.
\<close>

section \<open>The handler in steps\<close>

datatype act = SendFrame frame | SendSnapshot string

definition subscribe_begin ::
    "serde \<Rightarrow> string list \<Rightarrow> connection_id \<Rightarrow> claims \<Rightarrow> ('q, 's) shared \<Rightarrow> act list \<times> ('q, 's) shared" where
  "subscribe_begin S channels i cl sh =
     (let (sized, oversized) = partition (\<lambda>ch. length ch \<le> max_channel_len (config sh)) channels;
          (allowed, unauthorized) = partition (\<lambda>ch. authorizer sh cl ch) sized;
          ((added, over_limit), reg) =
            Registry_subscribe i allowed (max_subscriptions (config sh)) (registry sh);
          rejected =
            map (\<lambda>ch. \<lparr>channel = ch, reason = ''invalid''\<rparr>) oversized @
            map (\<lambda>ch. \<lparr>channel = ch, reason = ''unauthorized''\<rparr>) unauthorized @
            map (\<lambda>ch. \<lparr>channel = ch, reason = ''limit''\<rparr>) over_limit
      in (SendFrame (to_frame S (Subscribed added rejected)) # map SendSnapshot added,
          sh\<lparr>registry := reg\<rparr>))"

definition handle_begin ::
    "serde \<Rightarrow> string \<Rightarrow> connection_id \<Rightarrow> claims \<Rightarrow> ('q, 's) shared \<Rightarrow> act list \<times> ('q, 's) shared" where
  "handle_begin S txt i cl sh =
     (case from_str S txt of
        Inl e \<Rightarrow> ([SendFrame (to_frame S (Error ''invalid_message'' e))], sh)
      | Inr (Auth _) \<Rightarrow>
          ([SendFrame (to_frame S (Error ''already_authenticated'' ''auth is accepted only as the first message''))], sh)
      | Inr (Subscribe channels) \<Rightarrow> subscribe_begin S channels i cl sh
      | Inr (Unsubscribe channels) \<Rightarrow>
          let (removed, reg) = Registry_unsubscribe i channels (registry sh)
          in ([SendFrame (to_frame S (Unsubscribed removed))], sh\<lparr>registry := reg\<rparr>)
      | Inr (Ping timestamp) \<Rightarrow> ([SendFrame (to_frame S (Pong timestamp))], sh))"

text \<open>Reading a snapshot and queueing it are two steps: the read leaves a frame to send, or nothing.\<close>

definition act_step ::
    "serde \<Rightarrow> ('q, 'x) mpsc_scheme \<Rightarrow> connection_id \<Rightarrow> act \<Rightarrow> ('q, 's) shared \<Rightarrow> act list \<times> ('q, 's) shared" where
  "act_step S Q i a sh =
     (case a of
        SendFrame f \<Rightarrow> ([], reply Q i f sh)
      | SendSnapshot ch \<Rightarrow>
          (case snapshots sh ch of
             None \<Rightarrow> ([], sh)
           | Some payload \<Rightarrow> ([SendFrame (to_frame S (Snapshot ch payload))], sh)))"

section \<open>A connection's task\<close>

datatype outcome = Returned "ws_error + unit" | Panicked

datatype phase =
    Handshaking
  | Authenticating
  | Refusing ws_error
  | Acking
  | Acked
  | Running connection_id nat
  | Handling connection_id nat "act list"
  | Checking connection_id nat
  | ParkedAt connection_id
  | Unwinding connection_id outcome
  | Finished outcome
  | Ended

text \<open>\<open>who\<close> is the local \<^verbatim>\<open>claims\<close>, absent until authentication; \<open>wire\<close> logs what the socket took.\<close>

record task =
  phase :: phase
  who :: "claims option"
  wire :: "message list"

text \<open>
  What makes \<^verbatim>\<open>select!\<close> proceed: a frame in the queue, something from the peer, the heartbeat.
\<close>

datatype wake = WakeOutbound | WakeInbound "(string + message) option" | WakeTick

datatype ('q, 's) input =
    HandshakeDone "(string + unit) timed"
  | FirstMessage "(string + message) option timed"
  | RefusalSent "string + unit" "string + unit"
  | AckSent "string + unit"
  | Register nat
  | Select wake "('q, 's) env"
  | Act
  | Check "('q, 's) env"
  | Panic
  | GuardDrop
  | PermitDrop

definition new_task :: task where
  "new_task = \<lparr>phase = Handshaking, who = None, wire = []\<rparr>"

definition on_handshake :: "('q, 's) input \<Rightarrow> task \<Rightarrow> task option" where
  "on_handshake inp t =
     (case inp of
        HandshakeDone Elapsed \<Rightarrow> Some (t\<lparr>phase := Finished (Returned (Inl (Unauthenticated ''handshake timeout'')))\<rparr>)
      | HandshakeDone (Completed (Inl e)) \<Rightarrow> Some (t\<lparr>phase := Finished (Returned (Inl (Error_from e)))\<rparr>)
      | HandshakeDone (Completed (Inr _)) \<Rightarrow> Some (t\<lparr>phase := Authenticating\<rparr>)
      | _ \<Rightarrow> None)"

definition on_authenticating :: "serde \<Rightarrow> validator \<Rightarrow> ('q, 's) input \<Rightarrow> task \<Rightarrow> task option" where
  "on_authenticating S validate inp t =
     (case inp of
        FirstMessage first \<Rightarrow>
          (case authenticate S validate first of
             Inl e \<Rightarrow> Some (t\<lparr>phase := Refusing e\<rparr>)
           | Inr cl \<Rightarrow> Some (t\<lparr>phase := Acking, who := Some cl\<rparr>))
      | Panic \<Rightarrow> Some (t\<lparr>phase := Finished Panicked\<rparr>)
      | _ \<Rightarrow> None)"

definition on_refusing :: "serde \<Rightarrow> ws_error \<Rightarrow> ('q, 's) input \<Rightarrow> task \<Rightarrow> task option" where
  "on_refusing S e inp t =
     (case inp of
        RefusalSent sent closed \<Rightarrow>
          let fr = to_frame S (Error ''unauthenticated'' (to_string e))
          in Some (t\<lparr>phase := Finished (Returned (Inl e)),
                 wire := wire t @ (case sent of Inl _ \<Rightarrow> [] | Inr _ \<Rightarrow> [to_message fr])
                   @ (case closed of Inl _ \<Rightarrow> [] | Inr _ \<Rightarrow> [Close])\<rparr>)
      | _ \<Rightarrow> None)"

definition on_acking :: "serde \<Rightarrow> claims \<Rightarrow> ('q, 's) input \<Rightarrow> task \<Rightarrow> task option" where
  "on_acking S cl inp t =
     (case inp of
        AckSent (Inl e) \<Rightarrow> Some (t\<lparr>phase := Finished (Returned (Inl (Error_from e)))\<rparr>)
      | AckSent (Inr _) \<Rightarrow>
          Some (t\<lparr>phase := Acked, wire := wire t @ [to_message (to_frame S (Authenticated (subject cl)))]\<rparr>)
      | _ \<Rightarrow> None)"

text \<open>\<^verbatim>\<open>mpsc::channel\<close> panics on a capacity above the permits of a semaphore, before anything is registered.\<close>

definition on_acked ::
    "('q, 'x) mpsc_scheme \<Rightarrow> claims \<Rightarrow> ('q, 's) input \<Rightarrow> task \<Rightarrow> ('q, 's) shared \<Rightarrow> (task \<times> ('q, 's) shared) option" where
  "on_acked Q cl inp t sh =
     (case inp of
        Register n \<Rightarrow>
          if MAX_PERMITS < send_queue (config sh) then Some (t\<lparr>phase := Finished Panicked\<rparr>, sh)
          else let (i, reg) = Registry_add (subject cl) (new_channel Q (send_queue (config sh))) (registry sh)
               in Some (t\<lparr>phase := Running i n\<rparr>, sh\<lparr>registry := reg\<rparr>)
      | _ \<Rightarrow> None)"

text \<open>The end of \<open>session\<close>: the receiving end of the queue is dropped, the guard is still to run.\<close>

definition set_tx :: "connection_id \<Rightarrow> ('q \<Rightarrow> 'q) \<Rightarrow> ('q, 's) shared \<Rightarrow> ('q, 's) shared" where
  "set_tx i g sh =
     (let reg = registry sh
      in case map_of (connections reg) i of
           None \<Rightarrow> sh
         | Some c \<Rightarrow> sh\<lparr>registry := reg\<lparr>connections := AList.update i (c\<lparr>tx := g (tx c)\<rparr>) (connections reg)\<rparr>\<rparr>)"

definition leave_session ::
    "('q, 'x) mpsc_scheme \<Rightarrow> connection_id \<Rightarrow> outcome \<Rightarrow> task \<Rightarrow> ('q, 's) shared \<Rightarrow> task \<times> ('q, 's) shared" where
  "leave_session Q i r t sh = (t\<lparr>phase := Unwinding i r\<rparr>, set_tx i (drop_rx Q) sh)"

definition after_branch ::
    "('q, 'x) mpsc_scheme \<Rightarrow> connection_id \<Rightarrow> (connection_id \<Rightarrow> nat \<Rightarrow> phase) \<Rightarrow> task \<Rightarrow>
     ctl \<times> sess \<times> ('q, 's) shared \<Rightarrow> task \<times> ('q, 's) shared" where
  "after_branch Q i next t r =
     (case r of (c, st, sh) \<Rightarrow>
        let t = t\<lparr>wire := written st\<rparr>
        in case c of
             Continue \<Rightarrow> (t\<lparr>phase := next i (last_seen st)\<rparr>, sh)
           | Stop _ \<Rightarrow> leave_session Q i (Returned (Inr ())) t sh
           | Return e \<Rightarrow> leave_session Q i (Returned (Inl e)) t sh
           | Parked \<Rightarrow> (t\<lparr>phase := ParkedAt i\<rparr>, sh))"

definition on_running ::
    "serde \<Rightarrow> ('q, 'x) mpsc_scheme \<Rightarrow> claims \<Rightarrow> connection_id \<Rightarrow> nat \<Rightarrow> ('q, 's) input \<Rightarrow> task \<Rightarrow> ('q, 's) shared \<Rightarrow>
     (task \<times> ('q, 's) shared) option" where
  "on_running S Q cl i ls inp t sh =
     (let st = \<lparr>last_seen = ls, written = wire t\<rparr>
      in case inp of
           Select WakeOutbound e \<Rightarrow>
             (case map_of (connections (registry sh)) i of
                None \<Rightarrow> Some (after_branch Q i Checking t (select_body S Q i cl (Outbound None) e st sh))
              | Some c \<Rightarrow>
                  (case fst (recv Q (tx c)) of
                     None \<Rightarrow> None
                   | Some f \<Rightarrow> Some (after_branch Q i Checking t
                       (select_body S Q i cl (Outbound (Some f)) e st (set_tx i (\<lambda>q. snd (recv Q q)) sh)))))
         | Select (WakeInbound (Some (Inr (Text txt)))) e \<Rightarrow>
             (case handle_begin S txt i cl sh of
                (acts, sh') \<Rightarrow> Some (t\<lparr>phase := Handling i (now e) acts\<rparr>, sh'))
         | Select (WakeInbound m) e \<Rightarrow> Some (after_branch Q i Checking t (select_body S Q i cl (Inbound m) e st sh))
         | Select WakeTick e \<Rightarrow> Some (after_branch Q i Checking t (select_body S Q i cl Tick e st sh))
         | Panic \<Rightarrow> Some (leave_session Q i Panicked t sh)
         | _ \<Rightarrow> None)"

definition on_handling ::
    "serde \<Rightarrow> ('q, 'x) mpsc_scheme \<Rightarrow> connection_id \<Rightarrow> nat \<Rightarrow> act list \<Rightarrow> ('q, 's) input \<Rightarrow> task \<Rightarrow> ('q, 's) shared \<Rightarrow>
     (task \<times> ('q, 's) shared) option" where
  "on_handling S Q i ls acts inp t sh =
     (case inp of
        Act \<Rightarrow>
          (case acts of
             [] \<Rightarrow> Some (t\<lparr>phase := Checking i ls\<rparr>, sh)
           | a # rest \<Rightarrow>
               (case act_step S Q i a sh of
                  (pending, sh') \<Rightarrow> Some (t\<lparr>phase := Handling i ls (pending @ rest)\<rparr>, sh')))
      | Panic \<Rightarrow> Some (leave_session Q i Panicked t sh)
      | _ \<Rightarrow> None)"

definition on_checking ::
    "('q, 'x) mpsc_scheme \<Rightarrow> connection_id \<Rightarrow> nat \<Rightarrow> ('q, 's) input \<Rightarrow> task \<Rightarrow> ('q, 's) shared \<Rightarrow>
     (task \<times> ('q, 's) shared) option" where
  "on_checking Q i ls inp t sh =
     (case inp of
        Check e \<Rightarrow>
          let st = \<lparr>last_seen = ls, written = wire t\<rparr>
          in Some (if Registry_drops i (registry sh) \<ge> max_consecutive_drops (config sh)
               then (case close_sink TooSlow e st of (c, st') \<Rightarrow> after_branch Q i Running t (c, st', sh))
               else (t\<lparr>phase := Running i ls\<rparr>, sh))
      | _ \<Rightarrow> None)"

definition Registered_drop ::
    "connection_id \<Rightarrow> outcome \<Rightarrow> ('q, 's) input \<Rightarrow> task \<Rightarrow> ('q, 's) shared \<Rightarrow> (task \<times> ('q, 's) shared) option" where
  "Registered_drop i r inp t sh =
     (case inp of
        GuardDrop \<Rightarrow> Some (t\<lparr>phase := Finished r\<rparr>, sh\<lparr>registry := Registry_remove i (registry sh)\<rparr>)
      | _ \<Rightarrow> None)"

definition permit_drop ::
    "('s, 'y) semaphore_scheme \<Rightarrow> ('q, 's) input \<Rightarrow> task \<Rightarrow> ('q, 's) shared \<Rightarrow> (task \<times> ('q, 's) shared) option" where
  "permit_drop M inp t sh =
     (case inp of
        PermitDrop \<Rightarrow> Some (t\<lparr>phase := Ended\<rparr>, sh\<lparr>slots := release M (slots sh)\<rparr>)
      | _ \<Rightarrow> None)"

definition local_step :: "task option \<Rightarrow> ('q, 's) shared \<Rightarrow> (task \<times> ('q, 's) shared) option" where
  "local_step r sh = map_option (\<lambda>t. (t, sh)) r"

definition connection_step ::
    "serde \<Rightarrow> ('q, 'x) mpsc_scheme \<Rightarrow> ('s, 'y) semaphore_scheme \<Rightarrow> ('q, 's) input \<Rightarrow> task \<Rightarrow> ('q, 's) shared \<Rightarrow>
     (task \<times> ('q, 's) shared) option" where
  "connection_step S Q M inp t sh =
     (case who t of
        None \<Rightarrow>
          (case phase t of
             Handshaking \<Rightarrow> local_step (on_handshake inp t) sh
           | Authenticating \<Rightarrow> local_step (on_authenticating S (validator sh) inp t) sh
           | Refusing e \<Rightarrow> local_step (on_refusing S e inp t) sh
           | Finished _ \<Rightarrow> permit_drop M inp t sh
           | _ \<Rightarrow> None)
      | Some cl \<Rightarrow>
          (case phase t of
             Acking \<Rightarrow> local_step (on_acking S cl inp t) sh
           | Acked \<Rightarrow> on_acked Q cl inp t sh
           | Running i ls \<Rightarrow> on_running S Q cl i ls inp t sh
           | Handling i ls acts \<Rightarrow> on_handling S Q i ls acts inp t sh
           | Checking i ls \<Rightarrow> on_checking Q i ls inp t sh
           | Unwinding i r \<Rightarrow> Registered_drop i r inp t sh
           | Finished _ \<Rightarrow> permit_drop M inp t sh
           | _ \<Rightarrow> None))"

section \<open>The server\<close>

record ('q, 's) sys =
  srv :: "('q, 's) shared"
  tasks :: "task list"
  accepting :: bool

definition refuse_full :: "('q, 's) shared \<Rightarrow> ('q, 's) shared" where
  "refuse_full sh =
     (let reg = registry sh; m = Registry_metrics reg
      in sh\<lparr>registry := reg\<lparr>metrics := m\<lparr>refused_full := refused_full m + 1\<rparr>\<rparr>\<rparr>)"

text \<open>One turn of the accept loop; \<open>None\<close> is a listener that fails, which ends the loop.\<close>

definition serve_accept ::
    "('s, 'y) semaphore_scheme \<Rightarrow> unit option \<Rightarrow> ('q, 's) sys \<Rightarrow> ('q, 's) sys" where
  "serve_accept M stream s =
     (case stream of
        None \<Rightarrow> s\<lparr>accepting := False\<rparr>
      | Some _ \<Rightarrow>
          (case try_acquire M (slots (srv s)) of
             None \<Rightarrow> s\<lparr>srv := refuse_full (srv s)\<rparr>
           | Some permits \<Rightarrow> s\<lparr>srv := (srv s)\<lparr>slots := permits\<rparr>, tasks := tasks s @ [new_task]\<rparr>))"

text \<open>Dropping the last \<open>Server\<close> aborts the accept loop and nothing else.\<close>

definition Accepting_drop :: "('q, 's) sys \<Rightarrow> ('q, 's) sys" where
  "Accepting_drop s = s\<lparr>accepting := False\<rparr>"

definition serving :: "('q, 's) shared \<Rightarrow> ('q, 's) sys" where
  "serving st = \<lparr>srv = st, tasks = [], accepting = True\<rparr>"

text \<open>One turn of the loop of \<^verbatim>\<open>Server::resync\<close>, which takes the lock anew for each channel.\<close>

definition resync_on ::
    "serde \<Rightarrow> ('q, 'x) mpsc_scheme \<Rightarrow> string list \<Rightarrow> string \<Rightarrow> ('q, 's) shared \<Rightarrow> ('q, 's) shared" where
  "resync_on S Q channels ch sh =
     sh\<lparr>registry := snd (Registry_publish Q ch (to_frame S (Resync channels)) (registry sh))\<rparr>"

datatype ('q, 's) sys_event =
    EvAccept "unit option"
  | EvAbort
  | EvTask nat "('q, 's) input"
  | EvPublish string string
  | EvPublishTo connection_id string string
  | EvResyncAll
  | EvResyncOn "string list" string
  | EvResyncTo connection_id "string list"
  | EvSnapshots snapshot_source

fun sys_exec ::
    "serde \<Rightarrow> ('q, 'x) mpsc_scheme \<Rightarrow> ('s, 'y) semaphore_scheme \<Rightarrow> ('q, 's) sys_event \<Rightarrow> ('q, 's) sys \<Rightarrow>
     ('q, 's) sys option" where
  "sys_exec S Q M (EvAccept stream) s = (if accepting s then Some (serve_accept M stream s) else None)"
| "sys_exec S Q M EvAbort s = Some (Accepting_drop s)"
| "sys_exec S Q M (EvTask k inp) s =
     (if k < length (tasks s) \<and> next_id (registry (srv s)) \<noteq> - 1
      then map_option (\<lambda>(t, sh'). s\<lparr>srv := sh', tasks := (tasks s)[k := t]\<rparr>)
             (connection_step S Q M inp (tasks s ! k) (srv s))
      else None)"
| "sys_exec S Q M (EvPublish ch p) s = Some (s\<lparr>srv := snd (Server_publish S Q ch p (srv s))\<rparr>)"
| "sys_exec S Q M (EvPublishTo i ch p) s =
     (if i \<in> indexed (by_channel (registry (srv s))) ch
      then Some (s\<lparr>srv := reply Q i (to_frame S (Data ch p)) (srv s)\<rparr>) else None)"
| "sys_exec S Q M EvResyncAll s = Some (s\<lparr>srv := snd (Server_resync_all S Q (srv s))\<rparr>)"
| "sys_exec S Q M (EvResyncOn chs ch) s =
     (if ch \<in> set chs then Some (s\<lparr>srv := resync_on S Q chs ch (srv s)\<rparr>) else None)"
| "sys_exec S Q M (EvResyncTo i chs) s = Some (s\<lparr>srv := reply Q i (to_frame S (Resync chs)) (srv s)\<rparr>)"
| "sys_exec S Q M (EvSnapshots snap) s = Some (s\<lparr>srv := (srv s)\<lparr>snapshots := snap\<rparr>\<rparr>)"

fun sys_run ::
    "serde \<Rightarrow> ('q, 'x) mpsc_scheme \<Rightarrow> ('s, 'y) semaphore_scheme \<Rightarrow> ('q, 's) sys_event list \<Rightarrow> ('q, 's) sys \<Rightarrow>
     ('q, 's) sys option" where
  "sys_run S Q M [] s = Some s"
| "sys_run S Q M (ev # evs) s =
     (case sys_exec S Q M ev s of None \<Rightarrow> None | Some s' \<Rightarrow> sys_run S Q M evs s')"

text \<open>
  Publishing takes the registry's lock as a reader, so two publishers may take turns between
  subscribers: besides whole calls (\<open>Publish\<close>, \<open>ResyncAll\<close>, \<open>ResyncOn\<close>) there are steps for a
  single delivery of a call in progress (\<open>PublishTo\<close>, \<open>ResyncTo\<close>). Ids are 64-bit; the steps
  stop before the counter wraps.
\<close>

inductive server_step ::
    "serde \<Rightarrow> ('q, 'x) mpsc_scheme \<Rightarrow> ('s, 'y) semaphore_scheme \<Rightarrow> ('q, 's) sys \<Rightarrow> ('q, 's) sys \<Rightarrow> bool"
  for S Q M where
  Accept: "accepting s \<Longrightarrow> server_step S Q M s (serve_accept M stream s)"
| Abort: "server_step S Q M s (Accepting_drop s)"
| Task: "k < length (tasks s) \<Longrightarrow> next_id (registry (srv s)) \<noteq> - 1 \<Longrightarrow>
     connection_step S Q M inp (tasks s ! k) (srv s) = Some (t, sh') \<Longrightarrow>
     server_step S Q M s (s\<lparr>srv := sh', tasks := (tasks s)[k := t]\<rparr>)"
| Publish: "server_step S Q M s (s\<lparr>srv := snd (Server_publish S Q ch p (srv s))\<rparr>)"
| ResyncAll: "server_step S Q M s (s\<lparr>srv := snd (Server_resync_all S Q (srv s))\<rparr>)"
| ResyncOn: "ch \<in> set chs \<Longrightarrow> server_step S Q M s (s\<lparr>srv := resync_on S Q chs ch (srv s)\<rparr>)"
| PublishTo: "i \<in> indexed (by_channel (registry (srv s))) ch \<Longrightarrow>
     server_step S Q M s (s\<lparr>srv := reply Q i (to_frame S (Data ch p)) (srv s)\<rparr>)"
| ResyncTo: "server_step S Q M s (s\<lparr>srv := reply Q i (to_frame S (Resync chs)) (srv s)\<rparr>)"
| Snapshots: "server_step S Q M s (s\<lparr>srv := (srv s)\<lparr>snapshots := snap\<rparr>\<rparr>)"

text \<open>The states a server reaches from the one \<open>bind\<close> returned.\<close>

definition started :: "('s, 'y) semaphore_scheme \<Rightarrow> builder \<Rightarrow> ('q, 's) sys \<Rightarrow> bool" where
  "started M b s \<longleftrightarrow>
     (\<exists>mp listen st addr. Builder_bind mp M listen b = Inr (st, addr :: string) \<and> s = serving st)"

inductive reachable ::
    "serde \<Rightarrow> ('q, 'x) mpsc_scheme \<Rightarrow> ('s, 'y) semaphore_scheme \<Rightarrow> builder \<Rightarrow> ('q, 's) sys \<Rightarrow> bool"
  for S Q M b where
  Bound: "started M b s \<Longrightarrow> reachable S Q M b s"
| Step: "reachable S Q M b s \<Longrightarrow> server_step S Q M s s' \<Longrightarrow> reachable S Q M b s'"

text \<open>Registration either takes a fresh id with a queue of the configured length, or panics.\<close>

lemma on_acked_cases:
  assumes "on_acked Q cl inp t sh = Some (t', sh')"
  obtains (Registers) n i reg where "inp = Register n" and "send_queue (config sh) \<le> MAX_PERMITS"
      and "Registry_add (subject cl) (new_channel Q (send_queue (config sh))) (registry sh) = (i, reg)"
      and "t' = t\<lparr>phase := Running i n\<rparr>" and "sh' = sh\<lparr>registry := reg\<rparr>"
  | (Panics) n where "inp = Register n" and "MAX_PERMITS < send_queue (config sh)"
      and "t' = t\<lparr>phase := Finished Panicked\<rparr>" and "sh' = sh"
  using assms by (auto simp: on_acked_def Let_def split: input.splits if_splits prod.splits)

lemma sys_exec_step: "sys_exec S Q M ev s = Some s' \<Longrightarrow> server_step S Q M s s'"
  by (cases ev) (auto split: if_splits intro: server_step.intros)

lemma sys_run_reachable:
  "reachable S Q M b s \<Longrightarrow> sys_run S Q M evs s = Some s' \<Longrightarrow> reachable S Q M b s'"
  by (induction evs arbitrary: s) (auto split: option.splits dest: sys_exec_step intro: reachable.Step)

lemma reachable_steps:
  "reachable S Q M b s \<Longrightarrow> \<exists>s0. started M b s0 \<and> (server_step S Q M)\<^sup>*\<^sup>* s0 s"
  by (induction rule: reachable.induct) (auto intro: rtranclp.rtrancl_into_rtrancl)

end
