(* ===== verification/System.thy ===== *)
theory System
  imports Lifecycle
begin

text \<open>
  The running server: an invariant of every state it reaches under any interleaving of its tasks and
  of the publishing threads, and what clients and operators can rely on because of it. Who may see
  what, how many connections there are and what they cost, what a client receives first, and that
  nothing of a connection is left once its task has ended.
\<close>

section \<open>What a frame discloses\<close>

definition discloses :: "serde \<Rightarrow> frame \<Rightarrow> string \<Rightarrow> bool" where
  "discloses S f ch \<longleftrightarrow> (\<exists>p. f = to_frame S (Data ch p) \<or> f = to_frame S (Snapshot ch p))"

definition discloses_msg :: "serde \<Rightarrow> message \<Rightarrow> string \<Rightarrow> bool" where
  "discloses_msg S m ch \<longleftrightarrow> (\<exists>f. m = to_message f \<and> discloses S f ch)"

definition entitled :: "serde \<Rightarrow> authorizer \<Rightarrow> claims \<Rightarrow> frame \<Rightarrow> bool" where
  "entitled S auth cl f \<longleftrightarrow> (\<forall>ch. discloses S f ch \<longrightarrow> auth cl ch)"

section \<open>The invariant\<close>

definition conn_ok :: "serde \<Rightarrow> ('q, 'x) mpsc_scheme \<Rightarrow> builder \<Rightarrow> claims \<Rightarrow> 'q connection \<Rightarrow> bool" where
  "conn_ok S Q b cl c \<longleftrightarrow>
     conn_subject c = subject cl \<and>
     (\<forall>ch \<in> set (subscriptions c). b_authorizer b cl ch \<and> length ch \<le> max_channel_len (b_config b)) \<and>
     card (set (subscriptions c)) \<le> max_subscriptions (b_config b) \<and>
     capacity (view Q (tx c)) = send_queue (b_config b) \<and>
     length (buffered (view Q (tx c))) \<le> send_queue (b_config b) \<and>
     (\<forall>f \<in> set (buffered (view Q (tx c))). entitled S (b_authorizer b) cl f)"

fun act_ok :: "serde \<Rightarrow> builder \<Rightarrow> claims \<Rightarrow> act \<Rightarrow> bool" where
  "act_ok S b cl (SendFrame f) = entitled S (b_authorizer b) cl f"
| "act_ok S b cl (SendSnapshot ch) = b_authorizer b cl ch"

definition wire_ok :: "serde \<Rightarrow> builder \<Rightarrow> claims \<Rightarrow> message list \<Rightarrow> bool" where
  "wire_ok S b cl ms \<longleftrightarrow> (\<forall>m \<in> set ms. \<forall>ch. discloses_msg S m ch \<longrightarrow> b_authorizer b cl ch)"

definition greeted :: "serde \<Rightarrow> claims \<Rightarrow> message list \<Rightarrow> bool" where
  "greeted S cl ms \<longleftrightarrow> (\<exists>rest. ms = to_message (to_frame S (Authenticated (subject cl))) # rest)"

definition refusal_only :: "serde \<Rightarrow> message list \<Rightarrow> bool" where
  "refusal_only S ms \<longleftrightarrow>
     (\<forall>m \<in> set ms. m = Close \<or> (\<exists>e. m = to_message (to_frame S (Error ''unauthenticated'' e))))"

fun anonymous_ok :: "serde \<Rightarrow> phase \<Rightarrow> message list \<Rightarrow> bool" where
  "anonymous_ok S Handshaking ms \<longleftrightarrow> ms = []"
| "anonymous_ok S Authenticating ms \<longleftrightarrow> ms = []"
| "anonymous_ok S (Refusing _) ms \<longleftrightarrow> ms = []"
| "anonymous_ok S (Finished _) ms \<longleftrightarrow> refusal_only S ms"
| "anonymous_ok S Ended ms \<longleftrightarrow> refusal_only S ms"
| "anonymous_ok S _ ms \<longleftrightarrow> False"

fun known_ok :: "serde \<Rightarrow> builder \<Rightarrow> claims \<Rightarrow> phase \<Rightarrow> message list \<Rightarrow> bool" where
  "known_ok S b cl Handshaking ms \<longleftrightarrow> False"
| "known_ok S b cl Authenticating ms \<longleftrightarrow> False"
| "known_ok S b cl (Refusing _) ms \<longleftrightarrow> False"
| "known_ok S b cl Acking ms \<longleftrightarrow> ms = []"
| "known_ok S b cl (Handling _ _ acts) ms \<longleftrightarrow> greeted S cl ms \<and> (\<forall>a \<in> set acts. act_ok S b cl a)"
| "known_ok S b cl (Finished _) ms \<longleftrightarrow> ms = [] \<or> greeted S cl ms"
| "known_ok S b cl Ended ms \<longleftrightarrow> ms = [] \<or> greeted S cl ms"
| "known_ok S b cl _ ms \<longleftrightarrow> greeted S cl ms"

definition task_ok :: "serde \<Rightarrow> builder \<Rightarrow> task \<Rightarrow> bool" where
  "task_ok S b t \<longleftrightarrow>
     (case who t of
        None \<Rightarrow> anonymous_ok S (phase t) (wire t)
      | Some cl \<Rightarrow> (\<exists>tok. b_validator b tok = Inr cl) \<and> wire_ok S b cl (wire t) \<and> known_ok S b cl (phase t) (wire t))"

text \<open>The connection a task has registered and not yet removed.\<close>

fun id_of :: "phase \<Rightarrow> connection_id option" where
  "id_of (Running i _) = Some i"
| "id_of (Handling i _ _) = Some i"
| "id_of (Checking i _) = Some i"
| "id_of (ParkedAt i) = Some i"
| "id_of (Unwinding i _) = Some i"
| "id_of _ = None"

definition owns :: "task list \<Rightarrow> nat \<Rightarrow> connection_id \<Rightarrow> bool" where
  "owns ts k i \<longleftrightarrow> k < length ts \<and> id_of (phase (ts ! k)) = Some i"

definition own :: "task list \<Rightarrow> connection_id \<Rightarrow> claims \<Rightarrow> bool" where
  "own ts i cl \<longleftrightarrow> (\<exists>k. owns ts k i \<and> who (ts ! k) = Some cl)"

text \<open>The registered connections are exactly those of the tasks, one task each.\<close>

definition owned :: "task list \<Rightarrow> connection_id set \<Rightarrow> bool" where
  "owned ts ids \<longleftrightarrow>
     (\<forall>k k' i. owns ts k i \<longrightarrow> owns ts k' i \<longrightarrow> k = k') \<and> (\<forall>i. (\<exists>k. owns ts k i) \<longleftrightarrow> i \<in> ids)"

definition setup_ok :: "builder \<Rightarrow> ('q, 's) shared \<Rightarrow> bool" where
  "setup_ok b sh \<longleftrightarrow> config sh = b_config b \<and> validator sh = b_validator b \<and> authorizer sh = b_authorizer b"

definition conns_ok ::
    "serde \<Rightarrow> ('q, 'x) mpsc_scheme \<Rightarrow> builder \<Rightarrow> (connection_id \<Rightarrow> claims \<Rightarrow> bool) \<Rightarrow> ('q, 's) shared \<Rightarrow> bool" where
  "conns_ok S Q b P sh \<longleftrightarrow>
     (\<forall>i cl c. P i cl \<longrightarrow> map_of (connections (registry sh)) i = Some c \<longrightarrow> conn_ok S Q b cl c)"

definition live :: "task \<Rightarrow> bool" where
  "live t \<longleftrightarrow> phase t \<noteq> Ended"

definition sys_inv ::
    "serde \<Rightarrow> ('q, 'x) mpsc_scheme \<Rightarrow> ('s, 'y) semaphore_scheme \<Rightarrow> builder \<Rightarrow> ('q, 's) sys \<Rightarrow> bool" where
  "sys_inv S Q M b s \<longleftrightarrow>
     setup_ok b (srv s) \<and> 0 < send_queue (b_config b) \<and>
     registry_inv (registry (srv s)) \<and>
     available M (slots (srv s)) + length (filter live (tasks s)) = max_connections (b_config b) \<and>
     owned (tasks s) (fst ` set (connections (registry (srv s)))) \<and>
     (\<forall>t \<in> set (tasks s). task_ok S b t) \<and>
     conns_ok S Q b (own (tasks s)) (srv s)"

text \<open>
  A change of the shared state that keeps the connections, and keeps every one of them in order for
  its owner.
\<close>

definition safe ::
    "serde \<Rightarrow> ('q, 'x) mpsc_scheme \<Rightarrow> builder \<Rightarrow> (connection_id \<Rightarrow> claims \<Rightarrow> bool) \<Rightarrow>
     ('q, 's) shared \<Rightarrow> ('q, 's) shared \<Rightarrow> bool" where
  "safe S Q b P st st' \<longleftrightarrow>
     (setup_ok b st \<longrightarrow> setup_ok b st') \<and> slots st' = slots st \<and>
     (registry_inv (registry st) \<longrightarrow> registry_inv (registry st')) \<and>
     fst ` set (connections (registry st')) = fst ` set (connections (registry st)) \<and>
     (\<forall>i cl c'. P i cl \<longrightarrow> map_of (connections (registry st')) i = Some c' \<longrightarrow>
        (\<exists>c. map_of (connections (registry st)) i = Some c \<and> (conn_ok S Q b cl c \<longrightarrow> conn_ok S Q b cl c')))"

text \<open>The steps of one handler without anybody in between.\<close>

fun act_steps ::
    "serde \<Rightarrow> ('q, 'x) mpsc_scheme \<Rightarrow> ('s, 'y) semaphore_scheme \<Rightarrow> nat \<Rightarrow> task \<times> ('q, 's) shared \<Rightarrow>
     (task \<times> ('q, 's) shared) option" where
  "act_steps S Q M 0 r = Some r"
| "act_steps S Q M (Suc n) r =
     (case connection_step S Q M Act (fst r) (snd r) of None \<Rightarrow> None | Some r' \<Rightarrow> act_steps S Q M n r')"

definition act_effect ::
    "serde \<Rightarrow> ('q, 'x) mpsc_scheme \<Rightarrow> connection_id \<Rightarrow> act \<Rightarrow> ('q, 's) shared \<Rightarrow> ('q, 's) shared" where
  "act_effect S Q i a st =
     (case a of
        SendFrame f \<Rightarrow> reply Q i f st
      | SendSnapshot ch \<Rightarrow>
          (case snapshots st ch of None \<Rightarrow> st | Some p \<Rightarrow> reply Q i (to_frame S (Snapshot ch p)) st))"

text \<open>A task on its own, on given inputs; and that some inputs other than a panic take it to its end.\<close>

fun task_run ::
    "serde \<Rightarrow> ('q, 'x) mpsc_scheme \<Rightarrow> ('s, 'y) semaphore_scheme \<Rightarrow> ('q, 's) input list \<Rightarrow> task \<times> ('q, 's) shared \<Rightarrow>
     (task \<times> ('q, 's) shared) option" where
  "task_run S Q M [] r = Some r"
| "task_run S Q M (inp # inps) r =
     (case connection_step S Q M inp (fst r) (snd r) of None \<Rightarrow> None | Some r' \<Rightarrow> task_run S Q M inps r')"

definition can_end ::
    "serde \<Rightarrow> ('q, 'x) mpsc_scheme \<Rightarrow> ('s, 'y) semaphore_scheme \<Rightarrow> task \<times> ('q, 's) shared \<Rightarrow> bool" where
  "can_end S Q M r \<longleftrightarrow>
     (\<exists>inps r'. Panic \<notin> set inps \<and> task_run S Q M inps r = Some r' \<and> phase (fst r') = Ended)"

section \<open>A concrete run\<close>

text \<open>
  A server with a static token and one client, which authenticates and subscribes; while the handler
  is between reading the snapshot of \<open>tu\<close> and queueing it, another thread records and publishes the
  next value.
\<close>

definition demo_builder :: builder where
  "demo_builder = \<lparr>b_config = demo_config, b_validator = StaticToken_validate (StaticToken_new ''key'' ''alice''),
     b_authorizer = (\<lambda>_ ch. hd ch = CHR ''t''),
     b_snapshots = (\<lambda>ch. if ch = ''tu'' then Some ''7'' else None)\<rparr>"

definition demo_start :: "(chan, nat) sys" where
  "demo_start = serving \<lparr>config = demo_config, registry = Registry_new Metrics_default,
     validator = b_validator demo_builder, authorizer = b_authorizer demo_builder,
     snapshots = b_snapshots demo_builder, slots = 10000\<rparr>"

definition demo_events :: "(chan, nat) sys_event list" where
  "demo_events =
     EvAccept (Some ()) # map (EvTask 0) [HandshakeDone (Completed (Inr ())),
       FirstMessage (Completed (Some (Inr (Text ''A'')))), AckSent (Inr ()), Register 0,
       Select (WakeInbound (Some (Inr (Text ''S'')))) (quiet 1), Act, Act, Act]
     @ [EvSnapshots (\<lambda>_. Some ''8''), EvPublish ''tu'' ''8'']
     @ map (EvTask 0) [Act, Act, Check (quiet 2), Select WakeOutbound (quiet 3), Check (quiet 3),
       Select WakeOutbound (quiet 4), Check (quiet 4), Select WakeOutbound (quiet 5)]"

definition demo_wire :: "message list" where
  "demo_wire = map (\<lambda>m. to_message (to_frame demo_serde m))
     [Authenticated ''alice'', Subscribed [''t'', ''tu''] [\<lparr>channel = ''private'', reason = ''invalid''\<rparr>,
        \<lparr>channel = ''u'', reason = ''unauthorized''\<rparr>, \<lparr>channel = ''tv'', reason = ''limit''\<rparr>],
      Data ''tu'' ''8'', Snapshot ''tu'' ''7'']"

definition demo_state :: "(chan, nat) sys_event list \<Rightarrow> (chan, nat) sys" where
  "demo_state evs = (case sys_run demo_serde ref_mpsc ref_sem evs demo_start of None \<Rightarrow> demo_start | Some s \<Rightarrow> s)"

definition demo_goodbye :: "(chan, nat) sys_event list" where
  "demo_goodbye = map (EvTask 0) [Check (quiet 5), Select (WakeInbound None) (quiet 6), GuardDrop, PermitDrop]"

text \<open>The same server with JSON Web Tokens.\<close>

definition jwt_builder :: builder where
  "jwt_builder = demo_builder\<lparr>b_validator := HmacJwt_validate demo_jwt (HmacJwt_new demo_jwt ''key'')\<rparr>"

text \<open>The same server with a queue longer than a channel can be, up to the client's registration.\<close>

definition big_builder :: builder where
  "big_builder = demo_builder\<lparr>b_config := demo_config\<lparr>send_queue := 2 ^ 61\<rparr>\<rparr>"

definition big_state :: "(chan, nat) sys" where
  "big_state = the (sys_run demo_serde ref_mpsc ref_sem (take 4 demo_events)
     (demo_start\<lparr>srv := (srv demo_start)\<lparr>config := b_config big_builder\<rparr>\<rparr>))"

section \<open>Disclosure\<close>

lemma to_message_inject [simp]: "to_message f = to_message f' \<longleftrightarrow> f = f'"
  by (cases f; cases f') simp

lemma to_message_neq [simp]:
  "to_message f \<noteq> Close" "to_message f \<noteq> WsPing p" "to_message f \<noteq> WsPong p"
  "Close \<noteq> to_message f" "WsPing p \<noteq> to_message f" "WsPong p \<noteq> to_message f"
  by (cases f; simp)+

lemma discloses_msg_simps [simp]:
  "discloses_msg S (to_message f) ch \<longleftrightarrow> discloses S f ch"
  "\<not> discloses_msg S Close ch" "\<not> discloses_msg S (WsPing p) ch" "\<not> discloses_msg S (WsPong p) ch"
  by (auto simp: discloses_msg_def)

lemma discloses_frame:
  "serde_ok S \<Longrightarrow> discloses S (to_frame S m) ch \<longleftrightarrow> (\<exists>p. m = Data ch p \<or> m = Snapshot ch p)"
  by (auto simp: discloses_def to_frame_inject)

lemma entitled_frame:
  "serde_ok S \<Longrightarrow> entitled S auth cl (to_frame S m) \<longleftrightarrow>
     (case m of Data ch _ \<Rightarrow> auth cl ch | Snapshot ch _ \<Rightarrow> auth cl ch | _ \<Rightarrow> True)"
  by (auto simp: entitled_def discloses_frame split: server_message.splits)

lemma wire_ok_append [simp]:
  "wire_ok S b cl [] \<longleftrightarrow> True"
  "wire_ok S b cl (ms @ ms') \<longleftrightarrow> wire_ok S b cl ms \<and> wire_ok S b cl ms'"
  "wire_ok S b cl [to_message f] \<longleftrightarrow> entitled S (b_authorizer b) cl f"
  "wire_ok S b cl [Close]" "wire_ok S b cl [WsPing p]" "wire_ok S b cl [WsPong p]"
  by (auto simp: wire_ok_def entitled_def)

lemma greeted_append: "greeted S cl ms \<Longrightarrow> greeted S cl (ms @ ms')"
  by (auto simp: greeted_def)

section \<open>Changes that keep connections in order\<close>

lemma safe_refl: "safe S Q b P st st"
  by (auto simp: safe_def)

lemma safe_trans:
  assumes "safe S Q b P st st'" and "safe S Q b P st' st''"
  shows "safe S Q b P st st''"
  using assms unfolding safe_def by (metis (no_types, lifting))

lemma conn_ok_deliver:
  assumes "mpsc_ok Q" and "conn_ok S Q b cl c" and "entitled S (b_authorizer b) cl f"
  shows "conn_ok S Q b cl (after_deliver Q f c)"
  using assms by (auto simp: conn_ok_def after_deliver_view accepts_def)

text \<open>An operation that only delivers is safe when every frame it delivers is one its owner may see.\<close>

lemma safe_delivery:
  assumes Q: "mpsc_ok Q"
    and routing: "routing reg' = routing (registry st)"
    and conn: "\<And>i c'. map_of (connections reg') i = Some c' \<Longrightarrow>
       \<exists>c. map_of (connections (registry st)) i = Some c \<and>
         (c' = c \<or> c' = after_deliver Q f c \<and>
           (\<forall>cl. P i cl \<longrightarrow> conn_ok S Q b cl c \<longrightarrow> entitled S (b_authorizer b) cl f))"
  shows "safe S Q b P st (st\<lparr>registry := reg'\<rparr>)"
proof -
  have "fst ` set (connections reg') = fst ` set (connections (registry st))"
    using arg_cong [OF routing, of "\<lambda>t. set (fst t)"] by (simp add: routing_def)
  moreover have "registry_inv (registry st) \<Longrightarrow> registry_inv reg'"
    by (rule registry_inv_routing [OF routing [symmetric]])
  moreover have "\<exists>c. map_of (connections (registry st)) i = Some c \<and> (conn_ok S Q b cl c \<longrightarrow> conn_ok S Q b cl c')"
    if "P i cl" "map_of (connections reg') i = Some c'" for i cl c'
    using conn [OF that(2)] that(1) conn_ok_deliver [OF Q, of S b cl _ f] by blast
  ultimately show ?thesis by (simp add: safe_def setup_ok_def)
qed

lemma safe_reply:
  assumes Q: "mpsc_ok Q" and f: "\<And>cl c. P i cl \<Longrightarrow> map_of (connections (registry st)) i = Some c \<Longrightarrow>
      conn_ok S Q b cl c \<Longrightarrow> entitled S (b_authorizer b) cl f"
  shows "safe S Q b P st (reply Q i f st)"
  unfolding reply_def
proof (rule safe_delivery [OF Q send.keeps_routing])
  fix j c' assume "map_of (connections (snd (Registry_send Q i f (registry st)))) j = Some c'"
  then show "\<exists>c. map_of (connections (registry st)) j = Some c \<and>
      (c' = c \<or> c' = after_deliver Q f c \<and>
        (\<forall>cl. P j cl \<longrightarrow> conn_ok S Q b cl c \<longrightarrow> entitled S (b_authorizer b) cl f))"
    using f by (auto simp: Registry_send_def deliver_eq hash_simps split: option.splits if_splits)
qed

lemma safe_publish:
  assumes Q: "mpsc_ok Q" and inv: "registry_inv (registry st)"
    and f: "\<And>ch'. discloses S f ch' \<Longrightarrow> ch' = ch"
  shows "safe S Q b P st (st\<lparr>registry := snd (Registry_publish Q ch f (registry st))\<rparr>)"
proof (rule safe_delivery [OF Q publish.keeps_routing])
  fix i c' assume "map_of (connections (snd (Registry_publish Q ch f (registry st)))) i = Some c'"
  then obtain c where "map_of (connections (registry st)) i = Some c"
    and "c' = c \<or> ch \<in> set (subscriptions c) \<and> c' = after_deliver Q f c"
    by (auto simp: publish_map_of [OF inv] subs_of_def split: if_splits)
  then show "\<exists>c. map_of (connections (registry st)) i = Some c \<and>
      (c' = c \<or> c' = after_deliver Q f c \<and>
        (\<forall>cl. P i cl \<longrightarrow> conn_ok S Q b cl c \<longrightarrow> entitled S (b_authorizer b) cl f))"
    using f by (auto simp: entitled_def conn_ok_def)
qed

lemma safe_broadcast:
  assumes Q: "mpsc_ok Q" and f: "\<And>ch'. \<not> discloses S f ch'"
  shows "safe S Q b P st (st\<lparr>registry := snd (Registry_broadcast Q f (registry st))\<rparr>)"
  by (rule safe_delivery [OF Q broadcast.keeps_routing, where f = f])
    (auto simp: broadcast_eq map_of_map_snd entitled_def f)

text \<open>Other changes of one connection.\<close>

lemma map_of_set_tx:
  "map_of (connections (registry (set_tx i g st))) j =
     (if j = i then map_option (\<lambda>c. c\<lparr>tx := g (tx c)\<rparr>) (map_of (connections (registry st)) j)
      else map_of (connections (registry st)) j)"
  by (auto simp: set_tx_def Let_def hash_simps split: option.splits)

lemma routing_set_tx: "routing (registry (set_tx i g st)) = routing (registry st)"
proof (cases "map_of (connections (registry st)) i")
  case (Some c)
  then show ?thesis
    using map_of_SomeD_key [OF Some] by (auto simp: set_tx_def Let_def routing_def hash_simps)
qed (simp add: set_tx_def)

lemma set_tx_frame:
  "config (set_tx i g st) = config st" "validator (set_tx i g st) = validator st"
  "authorizer (set_tx i g st) = authorizer st" "slots (set_tx i g st) = slots st"
  by (simp_all add: set_tx_def Let_def split: option.splits)

lemma safe_set_tx:
  assumes g: "\<And>q. capacity (view Q (g q)) = capacity (view Q q)"
    "\<And>q. set (buffered (view Q (g q))) \<subseteq> set (buffered (view Q q))"
    "\<And>q. length (buffered (view Q (g q))) \<le> length (buffered (view Q q))"
  shows "safe S Q b P st (set_tx i g st)"
proof -
  have "fst ` set (connections (registry (set_tx i g st))) = fst ` set (connections (registry st))"
    using arg_cong [OF routing_set_tx [of i g st], of "\<lambda>t. set (fst t)"] by (simp add: routing_def)
  moreover have "conn_ok S Q b cl (c\<lparr>tx := g (tx c)\<rparr>)" if "conn_ok S Q b cl c" for cl c
    using that g(1) g(2) [of "tx c"] g(3) [of "tx c"] by (auto simp: conn_ok_def)
  ultimately show ?thesis
    using registry_inv_routing [OF routing_set_tx [of i g st, symmetric]]
    by (auto simp: safe_def setup_ok_def set_tx_frame map_of_set_tx split: if_splits)
qed

lemma safe_recv: "mpsc_ok Q \<Longrightarrow> safe S Q b P st (set_tx i (\<lambda>q. snd (recv Q q)) st)"
  by (rule safe_set_tx) (auto simp: mpsc_recv chan_recv_def split: list.splits)

lemma safe_drop_rx: "mpsc_ok Q \<Longrightarrow> safe S Q b P st (set_tx i (drop_rx Q) st)"
  by (rule safe_set_tx) (auto simp: mpsc_drop_rx dest: subsetD [OF mpsc_drop_rx(3)])

lemma safe_metrics:
  assumes "connections_active m = connections_active (metrics (registry st))"
  shows "safe S Q b P st (st\<lparr>registry := (registry st)\<lparr>metrics := m\<rparr>\<rparr>)"
proof -
  have "routing ((registry st)\<lparr>metrics := m\<rparr>) = routing (registry st)"
    using assms by (simp add: routing_def)
  from registry_inv_routing [OF this [symmetric]] show ?thesis
    by (auto simp: safe_def setup_ok_def)
qed

lemma safe_heartbeat: "safe S Q b P st (count_heartbeat_timeout st)"
  unfolding count_heartbeat_timeout_def Let_def by (rule safe_metrics) simp

lemma safe_refuse_full: "safe S Q b P st (refuse_full st)"
  unfolding refuse_full_def Let_def by (rule safe_metrics) simp

text \<open>Subscription changes, for the claims of the connection's only owner.\<close>

lemma subscribe_map_of:
  "map_of (connections (snd (Registry_subscribe i chs mx reg))) j = Some c' \<Longrightarrow>
     \<exists>c. map_of (connections reg) j = Some c \<and> tx c' = tx c \<and> conn_subject c' = conn_subject c"
  by (cases "j = i") (auto simp: Registry_subscribe_def hash_simps split: option.splits prod.splits)

lemma unsubscribe_map_of:
  "map_of (connections (snd (Registry_unsubscribe i chs reg))) j = Some c' \<Longrightarrow>
     \<exists>c. map_of (connections reg) j = Some c \<and> tx c' = tx c \<and> conn_subject c' = conn_subject c"
  by (cases "j = i") (auto simp: Registry_unsubscribe_def hash_simps split: option.splits prod.splits)

lemma remove_map_of:
  "map_of (connections (Registry_remove i reg)) j = Some c \<Longrightarrow> map_of (connections reg) j = Some c"
  by (cases "map_of (connections reg) i") (auto simp: Registry_remove_def hash_simps split: if_splits)

lemma subscription_keys:
  "fst ` set (connections (snd (Registry_subscribe i chs mx reg))) = fst ` set (connections reg)"
  "fst ` set (connections (snd (Registry_unsubscribe i chs reg))) = fst ` set (connections reg)"
  by (auto simp: Registry_subscribe_def Registry_unsubscribe_def hash_simps insert_absorb
      split: option.splits prod.splits dest: map_of_SomeD_key)

lemma safe_resubscribe:
  assumes inv: "registry_inv reg'"
    and keys: "fst ` set (connections reg') = fst ` set (connections (registry st))"
    and conn: "\<And>j c'. map_of (connections reg') j = Some c' \<Longrightarrow>
       \<exists>c. map_of (connections (registry st)) j = Some c \<and> tx c' = tx c \<and> conn_subject c' = conn_subject c"
    and subs: "\<And>j cl c c'. P j cl \<Longrightarrow> map_of (connections (registry st)) j = Some c \<Longrightarrow> conn_ok S Q b cl c \<Longrightarrow>
       (\<forall>ch \<in> subs_of reg' j. b_authorizer b cl ch \<and> length ch \<le> max_channel_len (b_config b)) \<and>
       card (subs_of reg' j) \<le> max_subscriptions (b_config b)"
  shows "safe S Q b P st (st\<lparr>registry := reg'\<rparr>)"
proof -
  have "\<exists>c. map_of (connections (registry st)) j = Some c \<and> (conn_ok S Q b cl c \<longrightarrow> conn_ok S Q b cl c')"
    if P: "P j cl" and c': "map_of (connections reg') j = Some c'" for j cl c'
  proof -
    obtain c where c: "map_of (connections (registry st)) j = Some c" "tx c' = tx c" "conn_subject c' = conn_subject c"
      using conn [OF c'] by blast
    have "conn_ok S Q b cl c'" if "conn_ok S Q b cl c"
      using subs [OF P c(1) that] that c(2,3) by (simp add: conn_ok_def subs_of_Some [OF c'])
    with c(1) show ?thesis by blast
  qed
  with inv keys show ?thesis by (auto simp: safe_def setup_ok_def)
qed

lemma safe_subscribe:
  assumes inv: "registry_inv (registry st)" and cfg: "setup_ok b st" and one: "\<And>cl'. P i cl' \<Longrightarrow> cl' = cl"
  shows "safe S Q b P st (st\<lparr>registry :=
     snd (Registry_subscribe i (allowed_of cl st chs) (max_subscriptions (config st)) (registry st))\<rparr>)"
proof (rule safe_resubscribe)
  let ?reg = "snd (Registry_subscribe i (allowed_of cl st chs) (max_subscriptions (config st)) (registry st))"
  show "registry_inv ?reg" by (rule store.inv_subscribe [OF inv])
  fix j cl' c assume P: "P j cl'" and c: "map_of (connections (registry st)) j = Some c" and ok: "conn_ok S Q b cl' c"
  let ?good = "\<lambda>k ch. k = j \<longrightarrow> b_authorizer b cl' ch \<and> length ch \<le> max_channel_len (b_config b)"
  have "\<forall>ch \<in> subs_of (registry st) j. ?good j ch"
    using ok by (simp add: subs_of_Some [OF c] conn_ok_def)
  moreover have "\<forall>ch \<in> set (allowed_of cl st chs). ?good i ch"
    using cfg one P by (auto simp: set_allowed_of setup_ok_def)
  ultimately have "\<forall>ch \<in> subs_of ?reg j. ?good j ch"
    using store.guarded_subscribe [OF inv, where P = ?good] by blast
  moreover have "card (subs_of ?reg j) \<le> max_subscriptions (b_config b)"
    using store.limit_subscribe [OF inv, of j "max_subscriptions (config st)"] ok cfg
    by (simp add: subs_of_Some [OF c] conn_ok_def setup_ok_def)
  ultimately show "(\<forall>ch \<in> subs_of ?reg j. b_authorizer b cl' ch \<and> length ch \<le> max_channel_len (b_config b)) \<and>
      card (subs_of ?reg j) \<le> max_subscriptions (b_config b)" by simp
qed (simp_all add: subscription_keys subscribe_map_of)

lemma safe_unsubscribe:
  assumes inv: "registry_inv (registry st)"
  shows "safe S Q b P st (st\<lparr>registry := snd (Registry_unsubscribe i chs (registry st))\<rparr>)"
proof (rule safe_resubscribe)
  let ?reg = "snd (Registry_unsubscribe i chs (registry st))"
  show "registry_inv ?reg" by (rule store.inv_unsubscribe [OF inv])
  fix j cl c assume c: "map_of (connections (registry st)) j = Some c" and ok: "conn_ok S Q b cl c"
  have "subs_of ?reg j \<subseteq> subs_of (registry st) j" by (auto simp: store.subs_unsubscribe [OF inv])
  then show "(\<forall>ch \<in> subs_of ?reg j. b_authorizer b cl ch \<and> length ch \<le> max_channel_len (b_config b)) \<and>
      card (subs_of ?reg j) \<le> max_subscriptions (b_config b)"
    using store.limit_unsubscribe [OF inv, of j "max_subscriptions (b_config b)" i chs] ok
    by (auto simp: subs_of_Some [OF c] conn_ok_def)
qed (simp_all add: subscription_keys unsubscribe_map_of)

section \<open>Steps inside a session\<close>

text \<open>A step of a registered task that keeps it registered, under its id and claims, and in order.\<close>

definition stays ::
    "serde \<Rightarrow> ('q, 'x) mpsc_scheme \<Rightarrow> builder \<Rightarrow> (connection_id \<Rightarrow> claims \<Rightarrow> bool) \<Rightarrow> connection_id \<Rightarrow> claims \<Rightarrow>
     ('q, 's) shared \<Rightarrow> task \<times> ('q, 's) shared \<Rightarrow> bool" where
  "stays S Q b P i cl st r \<longleftrightarrow>
     safe S Q b P st (snd r) \<and> who (fst r) = Some cl \<and> id_of (phase (fst r)) = Some i \<and> task_ok S b (fst r)"

lemma subscribe_begin_eq:
  "subscribe_begin S chs i cl st =
     (let ((added, over), reg) =
        Registry_subscribe i (allowed_of cl st chs) (max_subscriptions (config st)) (registry st)
      in (SendFrame (to_frame S (Subscribed added (rejections cl st chs over))) # map SendSnapshot added,
          st\<lparr>registry := reg\<rparr>))"
proof -
  have "filter (\<lambda>ch. authorizer st cl ch) (filter (\<lambda>ch. length ch \<le> max_channel_len (config st)) chs) =
      allowed_of cl st chs"
    by (simp add: allowed_of_def conj_commute)
  then show ?thesis
    by (simp add: subscribe_begin_def Let_def rejections_def o_def not_le conj_commute split: prod.splits)
qed

lemma handle_begin_ok:
  assumes S: "serde_ok S" and inv: "registry_inv (registry st)" and cfg: "setup_ok b st"
    and one: "\<And>cl'. P i cl' \<Longrightarrow> cl' = cl" and h: "handle_begin S txt i cl st = (acts, st')"
  shows "safe S Q b P st st' \<and> (\<forall>a \<in> set acts. act_ok S b cl a)"
proof (cases "\<exists>chs. from_str S txt = Inr (Subscribe chs) \<or> from_str S txt = Inr (Unsubscribe chs)")
  case True
  then obtain chs where "from_str S txt = Inr (Subscribe chs) \<or> from_str S txt = Inr (Unsubscribe chs)" by blast
  then show ?thesis
  proof
    assume parsed: "from_str S txt = Inr (Subscribe chs)"
    obtain added over reg where sub: "Registry_subscribe i (allowed_of cl st chs)
        (max_subscriptions (config st)) (registry st) = ((added, over), reg)"
      by (metis prod.exhaust)
    have "set added \<subseteq> set (allowed_of cl st chs)"
      using store.added_requested [OF inv, of i "allowed_of cl st chs" "max_subscriptions (config st)"] sub by auto
    then have "\<forall>ch \<in> set added. b_authorizer b cl ch"
      using cfg by (auto simp: set_allowed_of setup_ok_def)
    then show ?thesis
      using h safe_subscribe [where P = P and i = i, OF inv cfg one, of S Q chs]
      by (auto simp: handle_begin_def parsed subscribe_begin_eq sub entitled_frame [OF S])
  next
    assume "from_str S txt = Inr (Unsubscribe chs)"
    then show ?thesis
      using h safe_unsubscribe [OF inv, of S Q b P i chs]
      by (auto simp: handle_begin_def entitled_frame [OF S] split: prod.splits)
  qed
next
  case False
  then show ?thesis
    using h by (auto simp: handle_begin_def entitled_frame [OF S] safe_refl split: sum.splits client_message.splits)
qed

lemma act_step_ok:
  assumes S: "serde_ok S" and Q: "mpsc_ok Q" and a: "act_ok S b cl a"
    and one: "\<And>cl'. P i cl' \<Longrightarrow> cl' = cl" and h: "act_step S Q i a st = (pending, st')"
  shows "safe S Q b P st st' \<and> (\<forall>a \<in> set pending. act_ok S b cl a)"
proof (cases a)
  case (SendFrame f)
  then have "safe S Q b P st (reply Q i f st)"
    using a one by (intro safe_reply [OF Q]) auto
  with h show ?thesis by (auto simp: act_step_def SendFrame)
next
  case (SendSnapshot ch)
  then show ?thesis
    using h a by (auto simp: act_step_def entitled_frame [OF S] safe_refl split: option.splits)
qed

text \<open>What a branch other than a text message writes and changes.\<close>

lemma write_msg_written:
  "write_msg m e ss = (c, ss') \<Longrightarrow> written ss' = written ss \<or> written ss' = written ss @ [m]"
  by (auto simp: write_msg_def split: sum.splits)

lemma close_sink_written:
  "close_sink w e ss = (c, ss') \<Longrightarrow> written ss' = written ss \<or> written ss' = written ss @ [Close]"
  by (auto simp: close_sink_def split: option.splits sum.splits)

lemma wire_ok_grows:
  "ms' = ms \<or> ms' = ms @ [m] \<Longrightarrow> wire_ok S b cl [m] \<Longrightarrow> wire_ok S b cl ms \<and> greeted S cl ms \<Longrightarrow>
     wire_ok S b cl ms' \<and> greeted S cl ms'"
  by (auto simp: greeted_append)

lemma on_inbound_ok:
  assumes S: "serde_ok S" and Q: "mpsc_ok Q" and m: "\<And>txt. m \<noteq> Text txt"
    and h: "on_inbound S Q i cl m e ss st = (c, ss', st')"
    and w: "wire_ok S b cl (written ss) \<and> greeted S cl (written ss)"
  shows "safe S Q b P st st' \<and> wire_ok S b cl (written ss') \<and> greeted S cl (written ss')"
proof (cases m)
  case (WsPing p)
  with h show ?thesis
    using write_msg_written [of "WsPong p" e ss c ss'] w
    by (auto simp: on_inbound_def safe_refl greeted_append split: prod.splits)
next
  case (Binary d)
  have "safe S Q b P st (reply Q i (to_frame S (Error x y)) st)" for x y
    by (rule safe_reply [OF Q]) (simp add: entitled_frame [OF S])
  with h w show ?thesis by (auto simp: on_inbound_def Binary)
qed (use h w m in \<open>auto simp: on_inbound_def safe_refl\<close>)

lemma select_body_ok:
  assumes S: "serde_ok S" and Q: "mpsc_ok Q"
    and ev: "\<And>txt. ev \<noteq> Inbound (Some (Inr (Text txt)))"
      "\<And>f. ev = Outbound (Some f) \<Longrightarrow> entitled S (b_authorizer b) cl f"
    and h: "select_body S Q i cl ev e ss st = (c, ss', st')"
    and w: "wire_ok S b cl (written ss) \<and> greeted S cl (written ss)"
  shows "safe S Q b P st st' \<and> wire_ok S b cl (written ss') \<and> greeted S cl (written ss')"
proof (cases ev)
  case (Outbound x)
  with h show ?thesis
    using w ev(2)
    by (cases x) (auto simp: select_body_def safe_refl greeted_append split: prod.splits dest!: write_msg_written)
next
  case (Inbound x)
  show ?thesis
  proof (cases "\<exists>m. x = Some (Inr m)")
    case True
    then obtain m where x: "x = Some (Inr m)" by blast
    then have "\<And>txt. m \<noteq> Text txt" using ev(1) Inbound by auto
    from on_inbound_ok [OF S Q this, of i cl e "ss\<lparr>last_seen := now e\<rparr>" st c ss' st' b P] h w
    show ?thesis by (simp add: select_body_def Inbound x)
  next
    case False
    with h w show ?thesis
      by (auto simp: select_body_def Inbound safe_refl Let_def split: option.splits sum.splits)
  qed
next
  case Tick
  with h show ?thesis
    using write_msg_written [of "WsPing []" e ss c ss'] close_sink_written [of HeartbeatTimeout e ss c ss'] w
      safe_refl [of S Q b P st] safe_heartbeat [of S Q b P st]
    by (auto simp: select_body_def greeted_append split: prod.splits if_splits)
qed

lemma leave_session_ok:
  assumes Q: "mpsc_ok Q" and "safe S Q b P st st'" and "\<exists>tok. b_validator b tok = Inr cl" and "who t = Some cl"
    and "wire_ok S b cl (wire t) \<and> greeted S cl (wire t)"
  shows "stays S Q b P i cl st (leave_session Q i r t st')"
  using assms safe_trans [OF _ safe_drop_rx [OF Q]]
  by (auto simp: stays_def leave_session_def task_ok_def)

lemma after_branch_ok:
  assumes Q: "mpsc_ok Q" and safe: "safe S Q b P st st'" and v: "\<exists>tok. b_validator b tok = Inr cl" and t: "who t = Some cl"
    and w: "wire_ok S b cl (written ss) \<and> greeted S cl (written ss)"
    and nx: "next = Running \<or> next = Checking"
  shows "stays S Q b P i cl st (after_branch Q i next t (c, ss, st'))"
proof -
  have "stays S Q b P i cl st (leave_session Q i r (t\<lparr>wire := written ss\<rparr>) st')" for r
    using assms by (intro leave_session_ok [OF Q safe v]) simp_all
  moreover have "stays S Q b P i cl st (t\<lparr>wire := written ss, phase := next i n\<rparr>, st')" for n
    using nx safe v t w by (auto simp: stays_def task_ok_def)
  moreover have "stays S Q b P i cl st (t\<lparr>wire := written ss, phase := ParkedAt i\<rparr>, st')"
    using safe v t w by (auto simp: stays_def task_ok_def)
  ultimately show ?thesis by (simp add: after_branch_def Let_def split: ctl.splits)
qed

section \<open>Steps of a registered task\<close>

lemma task_ok_session:
  assumes "task_ok S b t" and "who t = Some cl" and "id_of (phase t) = Some i"
  shows "\<exists>tok. b_validator b tok = Inr cl" and "wire_ok S b cl (wire t) \<and> greeted S cl (wire t)"
  using assms by (cases "phase t"; simp add: task_ok_def)+

lemma branch_ok:
  assumes S: "serde_ok S" and Q: "mpsc_ok Q" and t: "task_ok S b t" "who t = Some cl" "id_of (phase t) = Some i"
    and ev: "\<And>txt. ev \<noteq> Inbound (Some (Inr (Text txt)))"
      "\<And>f. ev = Outbound (Some f) \<Longrightarrow> entitled S (b_authorizer b) cl f"
    and safe: "safe S Q b P st st'"
  shows "stays S Q b P i cl st (after_branch Q i Checking t
     (select_body S Q i cl ev e \<lparr>last_seen = ls, written = wire t\<rparr> st'))"
proof -
  obtain c ss st'' where sel: "select_body S Q i cl ev e \<lparr>last_seen = ls, written = wire t\<rparr> st' = (c, ss, st'')"
    by (metis prod.exhaust)
  have "safe S Q b P st' st'' \<and> wire_ok S b cl (written ss) \<and> greeted S cl (written ss)"
    by (rule select_body_ok [OF S Q ev sel]) (use task_ok_session(2) [OF t] in simp_all)
  then show ?thesis
    unfolding sel using safe_trans [OF safe]
    by (intro after_branch_ok [OF Q _ task_ok_session(1) [OF t] t(2)]) auto
qed

lemma on_outbound_ok:
  assumes S: "serde_ok S" and Q: "mpsc_ok Q" and P: "P i cl" and conns: "conns_ok S Q b P st"
    and t: "task_ok S b t" "who t = Some cl" "phase t = Running i ls"
    and h: "on_running S Q cl i ls (Select WakeOutbound e) t st = Some r"
  shows "stays S Q b P i cl st r"
proof (cases "map_of (connections (registry st)) i")
  case None
  with h branch_ok [OF S Q t(1,2) _ _ _ safe_refl, of i "Outbound None" P st e ls] show ?thesis
    by (auto simp: on_running_def t(3))
next
  case (Some c)
  with h obtain f where f: "fst (recv Q (tx c)) = Some f"
    and r: "r = after_branch Q i Checking t (select_body S Q i cl (Outbound (Some f)) e
        \<lparr>last_seen = ls, written = wire t\<rparr> (set_tx i (\<lambda>q. snd (recv Q q)) st))"
    by (auto simp: on_running_def split: option.splits)
  have "f \<in> set (buffered (view Q (tx c)))"
    using f by (auto simp: mpsc_recv [OF Q] chan_recv_def split: list.splits)
  then have "entitled S (b_authorizer b) cl f"
    using conns P Some by (auto simp: conns_ok_def conn_ok_def)
  then show ?thesis
    unfolding r using t by (intro branch_ok [OF S Q] safe_recv [OF Q]) auto
qed

lemma on_inbound_step_ok:
  assumes S: "serde_ok S" and Q: "mpsc_ok Q" and inv: "registry_inv (registry st)" and cfg: "setup_ok b st"
    and one: "\<And>cl'. P i cl' \<Longrightarrow> cl' = cl"
    and t: "task_ok S b t" "who t = Some cl" "phase t = Running i ls"
    and h: "on_running S Q cl i ls (Select (WakeInbound x) e) t st = Some r"
  shows "stays S Q b P i cl st r"
proof -
  have id: "id_of (phase t) = Some i" using t(3) by simp
  show ?thesis
  proof (cases "\<exists>txt. x = Some (Inr (Text txt))")
    case True
    then obtain msg where x: "x = Some (Inr (Text msg))" by blast
    obtain acts st' where hb: "handle_begin S msg i cl st = (acts, st')" by (metis prod.exhaust)
    show ?thesis
      using h handle_begin_ok [where P = P, OF S inv cfg one hb, of Q] task_ok_session [OF t(1,2) id] t(2)
      by (auto simp: on_running_def x hb stays_def task_ok_def)
  next
    case False
    then have "r = after_branch Q i Checking t
        (select_body S Q i cl (Inbound x) e \<lparr>last_seen = ls, written = wire t\<rparr> st)"
      using h by (auto simp: on_running_def Let_def split: option.splits sum.splits message.splits)
    with False branch_ok [OF S Q t(1,2) id _ _ safe_refl, of "Inbound x"] show ?thesis by auto
  qed
qed

lemma on_running_ok:
  assumes S: "serde_ok S" and Q: "mpsc_ok Q" and inv: "registry_inv (registry st)" and cfg: "setup_ok b st"
    and P: "P i cl" and one: "\<And>cl'. P i cl' \<Longrightarrow> cl' = cl" and conns: "conns_ok S Q b P st"
    and t: "task_ok S b t" "who t = Some cl" "phase t = Running i ls"
    and h: "on_running S Q cl i ls inp t st = Some r"
  shows "stays S Q b P i cl st r"
proof -
  have id: "id_of (phase t) = Some i" using t(3) by simp
  show ?thesis
  proof (cases inp)
    case (Select wk e)
    note h' = h [unfolded Select]
    show ?thesis
    proof (cases wk)
      case WakeOutbound
      with h' show ?thesis by (blast intro: on_outbound_ok [OF S Q P conns t])
    next
      case (WakeInbound x)
      with h' show ?thesis by (blast intro: on_inbound_step_ok [where P = P, OF S Q inv cfg one t])
    next
      case WakeTick
      with h' branch_ok [OF S Q t(1,2) id _ _ safe_refl, of Tick] show ?thesis
        by (auto simp: on_running_def)
    qed
  next
    case Panic
    with h leave_session_ok [OF Q safe_refl task_ok_session(1) [OF t(1,2) id] t(2) task_ok_session(2) [OF t(1,2) id]]
    show ?thesis by (auto simp: on_running_def)
  qed (use h in \<open>simp_all add: on_running_def\<close>)
qed

lemma on_handling_ok:
  assumes S: "serde_ok S" and Q: "mpsc_ok Q" and one: "\<And>cl'. P i cl' \<Longrightarrow> cl' = cl"
    and t: "task_ok S b t" "who t = Some cl" "phase t = Handling i ls acts"
    and h: "on_handling S Q i ls acts inp t st = Some r"
  shows "stays S Q b P i cl st r"
proof -
  have id: "id_of (phase t) = Some i" using t(3) by simp
  have acts: "\<forall>a \<in> set acts. act_ok S b cl a" using t by (simp add: task_ok_def)
  note vw = task_ok_session [OF t(1,2) id]
  consider "inp = Act" "acts = []" | a rest where "inp = Act" "acts = a # rest" | "inp = Panic"
    using h by (cases inp; cases acts) (auto simp: on_handling_def)
  then show ?thesis
  proof cases
    case 1
    with h vw t(2) show ?thesis by (auto simp: on_handling_def stays_def task_ok_def safe_refl)
  next
    case (2 a rest)
    obtain pending st' where step: "act_step S Q i a st = (pending, st')" by (metis prod.exhaust)
    from acts 2 have "act_ok S b cl a" by simp
    from act_step_ok [where P = P, OF S Q this one step] h vw t(2) acts 2 step show ?thesis
      by (auto simp: on_handling_def stays_def task_ok_def)
  next
    case 3
    with h leave_session_ok [OF Q safe_refl vw(1) t(2) vw(2)] show ?thesis by (auto simp: on_handling_def)
  qed
qed

lemma on_checking_ok:
  assumes Q: "mpsc_ok Q" and t: "task_ok S b t" "who t = Some cl" "phase t = Checking i ls"
    and h: "on_checking Q i ls inp t st = Some r"
  shows "stays S Q b P i cl st r"
proof -
  have id: "id_of (phase t) = Some i" using t(3) by simp
  note vw = task_ok_session [OF t(1,2) id]
  obtain e where inp: "inp = Check e" using h by (cases inp) (auto simp: on_checking_def)
  show ?thesis
  proof (cases "Registry_drops i (registry st) \<ge> max_consecutive_drops (config st)")
    case True
    obtain c ss where close: "close_sink TooSlow e \<lparr>last_seen = ls, written = wire t\<rparr> = (c, ss)"
      by (metis prod.exhaust)
    have "wire_ok S b cl (written ss) \<and> greeted S cl (written ss)"
      using close_sink_written [OF close] vw(2) by (auto simp: greeted_append)
    from after_branch_ok [OF Q safe_refl vw(1) t(2) this, of Running] True h close show ?thesis
      by (auto simp: on_checking_def inp)
  next
    case False
    with h vw t(2) show ?thesis by (auto simp: on_checking_def inp stays_def task_ok_def safe_refl)
  qed
qed

section \<open>The invariant is kept\<close>

lemma owns_update:
  "k < length ts \<Longrightarrow> owns (ts[k := t]) j i \<longleftrightarrow> (if j = k then id_of (phase t) = Some i else owns ts j i)"
  by (auto simp: owns_def nth_list_update)

lemma own_update_same:
  assumes "k < length ts" and "id_of (phase t) = id_of (phase (ts ! k))"
    and "id_of (phase t) \<noteq> None \<Longrightarrow> who t = who (ts ! k)"
  shows "owns (ts[k := t]) = owns ts" and "own (ts[k := t]) = own ts"
proof -
  show o: "owns (ts[k := t]) = owns ts"
    using assms(1,2) by (auto simp: fun_eq_iff owns_update) (auto simp: owns_def)
  have "owns ts j i \<Longrightarrow> who (ts[k := t] ! j) = who (ts ! j)" for j i
    using assms by (cases "j = k") (auto simp: owns_def)
  then show "own (ts[k := t]) = own ts"
    by (auto simp: fun_eq_iff own_def o)
qed

lemma conns_ok_safe:
  "conns_ok S Q b P st \<Longrightarrow> safe S Q b P st st' \<Longrightarrow> conns_ok S Q b P st'"
  unfolding conns_ok_def safe_def by metis

lemma task_ok_update:
  "\<forall>t \<in> set ts. task_ok S b t \<Longrightarrow> task_ok S b t' \<Longrightarrow> \<forall>t \<in> set (ts[k := t']). task_ok S b t"
  using set_update_subset_insert [of ts k t'] by auto

lemma inv_change:
  assumes "sys_inv S Q M b s" and "safe S Q b (own (tasks s)) (srv s) st"
  shows "sys_inv S Q M b (s\<lparr>srv := st\<rparr>)"
proof -
  have "conns_ok S Q b (own (tasks s)) st"
    using conns_ok_safe assms by (auto simp: sys_inv_def)
  with assms show ?thesis by (simp add: sys_inv_def safe_def)
qed

lemma inv_task:
  assumes inv: "sys_inv S Q M b s" and k: "k < length (tasks s)"
    and safe: "safe S Q b (own (tasks s)) (srv s) st"
    and id: "id_of (phase t) = id_of (phase (tasks s ! k))"
    and who: "id_of (phase t) \<noteq> None \<Longrightarrow> who t = who (tasks s ! k)"
    and live: "live t = live (tasks s ! k)" and ok: "task_ok S b t"
  shows "sys_inv S Q M b (s\<lparr>srv := st, tasks := (tasks s)[k := t]\<rparr>)"
proof -
  have "length (filter live ((tasks s)[k := t])) = length (filter live (tasks s))"
    using length_filter_update [OF k, of live t] live by (simp split: if_splits)
  moreover have "\<forall>t \<in> set ((tasks s)[k := t]). task_ok S b t"
    using inv ok by (intro task_ok_update) (auto simp: sys_inv_def)
  ultimately show ?thesis
    using inv_change [OF inv safe] by (simp add: sys_inv_def owned_def own_update_same [OF k id who])
qed

text \<open>A task that registers a fresh id, and one that removes its id.\<close>

lemma owned_register:
  assumes own: "owned ts ids" and k: "k < length ts" and t: "id_of (phase (ts ! k)) = None"
    and new: "i \<notin> ids" and t': "id_of (phase t') = Some i"
  shows "owned (ts[k := t']) (insert i ids)"
    and "own (ts[k := t']) j cl \<Longrightarrow> j \<noteq> i \<and> own ts j cl \<or> j = i \<and> who t' = Some cl"
proof -
  have none: "\<not> owns ts n i" for n using own new by (auto simp: owned_def)
  have nk: "owns ts n j \<Longrightarrow> n \<noteq> k" for n j using t by (auto simp: owns_def)
  have o: "owns (ts[k := t']) n j \<longleftrightarrow> (if j = i then n = k else owns ts n j)" for n j
    using none nk t' by (auto simp: owns_update [OF k])
  show "owned (ts[k := t']) (insert i ids)"
    unfolding owned_def
  proof (intro conjI allI impI)
    fix n n' j assume "owns (ts[k := t']) n j" and "owns (ts[k := t']) n' j"
    then show "n = n'" using own by (auto simp: o owned_def split: if_splits)
  next
    fix j show "(\<exists>n. owns (ts[k := t']) n j) \<longleftrightarrow> j \<in> insert i ids"
      using own by (cases "j = i") (auto simp: o owned_def)
  qed
  assume "own (ts[k := t']) j cl"
  then obtain n where n: "owns (ts[k := t']) n j" "who (ts[k := t'] ! n) = Some cl" by (auto simp: own_def)
  show "j \<noteq> i \<and> own ts j cl \<or> j = i \<and> who t' = Some cl"
  proof (cases "j = i")
    case True
    with n k show ?thesis by (simp add: o)
  next
    case False
    with n have "owns ts n j" by (simp add: o)
    with n nk [of n j] False show ?thesis by (auto simp: own_def)
  qed
qed

lemma owned_remove:
  assumes own: "owned ts ids" and k: "k < length ts" and t: "id_of (phase (ts ! k)) = Some i"
    and t': "id_of (phase t') = None"
  shows "owned (ts[k := t']) (ids - {i})"
    and "own (ts[k := t']) j cl \<Longrightarrow> j \<noteq> i \<and> own ts j cl"
proof -
  have nk: "owns ts n i \<longleftrightarrow> n = k" for n using own k t by (auto simp: owned_def owns_def)
  have o: "owns (ts[k := t']) n j \<longleftrightarrow> j \<noteq> i \<and> owns ts n j" for n j
    using nk t t' k by (auto simp: owns_update [OF k]) (auto simp: owns_def)
  show "owned (ts[k := t']) (ids - {i})"
    using own by (auto simp: owned_def o)
  assume "own (ts[k := t']) j cl"
  then obtain n where n: "owns (ts[k := t']) n j" "who (ts[k := t'] ! n) = Some cl" by (auto simp: own_def)
  then have "n \<noteq> k" using t' k by (auto simp: owns_def)
  with n show "j \<noteq> i \<and> own ts j cl" by (auto simp: own_def o)
qed

lemma owned_append:
  assumes "id_of (phase t) = None"
  shows "owned (ts @ [t]) ids = owned ts ids" and "own (ts @ [t]) = own ts"
proof -
  have o: "owns (ts @ [t]) n i \<longleftrightarrow> owns ts n i" for n i
    using assms by (auto simp: owns_def nth_append)
  show "owned (ts @ [t]) ids = owned ts ids" by (simp add: owned_def o)
  show "own (ts @ [t]) = own ts"
    by (auto simp: fun_eq_iff own_def o) (auto simp: owns_def nth_append)
qed

lemma inv_register:
  assumes Q: "mpsc_ok Q" and inv: "sys_inv S Q M b s" and k: "k < length (tasks s)"
    and fresh: "next_id (registry (srv s)) \<noteq> - 1"
    and t: "phase (tasks s ! k) = Acked" "who (tasks s ! k) = Some cl"
    and add: "Registry_add (subject cl) (new_channel Q (send_queue (config (srv s)))) (registry (srv s)) = (i, reg)"
    and most: "send_queue (config (srv s)) \<le> MAX_PERMITS"
  shows "sys_inv S Q M b (s\<lparr>srv := (srv s)\<lparr>registry := reg\<rparr>,
     tasks := (tasks s)[k := (tasks s ! k)\<lparr>phase := Running i n\<rparr>]\<rparr>)"
proof -
  let ?t = "(tasks s ! k)\<lparr>phase := Running i n\<rparr>" and ?r = "registry (srv s)"
  let ?ts = "(tasks s)[k := ?t]"
  have rinv: "registry_inv ?r" and cfg: "setup_ok b (srv s)" and sq: "0 < send_queue (b_config b)"
    and ow: "owned (tasks s) (fst ` set (connections ?r))"
    and ok: "\<forall>t \<in> set (tasks s). task_ok S b t" and conns: "conns_ok S Q b (own (tasks s)) (srv s)"
    using inv by (auto simp: sys_inv_def)
  note flds = add_fields [OF add]
  have new: "i \<notin> fst ` set (connections ?r)" using next_id_fresh [OF rinv] flds(1) by simp
  note own' = owned_register [OF ow k _ new, of ?t]
  have "task_ok S b ?t" using ok k t by (auto simp: task_ok_def dest!: nth_mem)
  then have "\<forall>t \<in> set ?ts. task_ok S b t" using ok by (intro task_ok_update)
  moreover have "conn_ok S Q b cl \<lparr>conn_subject = subject cl, subscriptions = [],
      tx = new_channel Q (send_queue (b_config b)), dropped = 0\<rparr>"
    using sq cfg most by (simp add: conn_ok_def setup_ok_def mpsc_new [OF Q sq])
  then have "conns_ok S Q b (own ?ts) ((srv s)\<lparr>registry := reg\<rparr>)"
    using conns cfg t own'(2)
    by (fastforce simp: conns_ok_def setup_ok_def flds(4) hash_simps split: if_splits)
  moreover have "registry_inv reg" by (rule registry_inv_add [OF rinv fresh add])
  moreover have "length (filter live ?ts) = length (filter live (tasks s))"
    using length_filter_update [OF k, of live ?t] t(1) by (simp add: live_def)
  ultimately show ?thesis
    using inv own'(1) t(1) by (simp add: sys_inv_def flds(4) hash_simps setup_ok_def)
qed

lemma inv_guard:
  assumes inv: "sys_inv S Q M b s" and k: "k < length (tasks s)" and t: "phase (tasks s ! k) = Unwinding i r"
  shows "sys_inv S Q M b (s\<lparr>srv := (srv s)\<lparr>registry := Registry_remove i (registry (srv s))\<rparr>,
     tasks := (tasks s)[k := (tasks s ! k)\<lparr>phase := Finished r\<rparr>]\<rparr>)"
proof -
  let ?t = "(tasks s ! k)\<lparr>phase := Finished r\<rparr>" and ?r = "registry (srv s)"
  let ?ts = "(tasks s)[k := ?t]"
  have rinv: "registry_inv ?r" and ow: "owned (tasks s) (fst ` set (connections ?r))"
    and ok: "\<forall>t \<in> set (tasks s). task_ok S b t" and conns: "conns_ok S Q b (own (tasks s)) (srv s)"
    using inv by (auto simp: sys_inv_def)
  note own' = owned_remove [OF ow k, of i ?t]
  have "\<exists>k. owns (tasks s) k i" using k t by (auto simp: owns_def)
  then obtain c where c: "map_of (connections ?r) i = Some c"
    using ow by (metis owned_def map_of_eq_None_keys option.exhaust)
  have "task_ok S b ?t"
    using ok k t by (auto simp: task_ok_def split: option.splits dest!: nth_mem)
  then have "\<forall>t \<in> set ?ts. task_ok S b t" using ok by (intro task_ok_update)
  moreover have "conns_ok S Q b (own ?ts) ((srv s)\<lparr>registry := Registry_remove i ?r\<rparr>)"
    using conns own'(2) t by (fastforce simp: conns_ok_def remove_fields [OF c] hash_simps split: if_splits)
  moreover have "length (filter live ?ts) = length (filter live (tasks s))"
    using length_filter_update [OF k, of live ?t] t by (simp add: live_def)
  ultimately show ?thesis
    using inv own'(1) t registry_inv_remove [OF rinv, of i]
    by (simp add: sys_inv_def remove_fields [OF c] hash_simps setup_ok_def)
qed

lemma inv_permit:
  assumes M: "sem_ok M" and inv: "sys_inv S Q M b s" and k: "k < length (tasks s)"
    and t: "phase (tasks s ! k) = Finished r"
  shows "sys_inv S Q M b (s\<lparr>srv := (srv s)\<lparr>slots := release M (slots (srv s))\<rparr>,
     tasks := (tasks s)[k := (tasks s ! k)\<lparr>phase := Ended\<rparr>]\<rparr>)"
proof -
  let ?t = "(tasks s ! k)\<lparr>phase := Ended\<rparr>"
  let ?ts = "(tasks s)[k := ?t]"
  have ok: "\<forall>t \<in> set (tasks s). task_ok S b t" using inv by (simp add: sys_inv_def)
  have "task_ok S b ?t"
    using ok k t by (auto simp: task_ok_def split: option.splits dest!: nth_mem)
  then have "\<forall>t \<in> set ?ts. task_ok S b t" using ok by (intro task_ok_update)
  moreover have "Suc (length (filter live ?ts)) = length (filter live (tasks s))"
    using length_filter_update [OF k, of live ?t] t by (simp add: live_def)
  moreover have "owns ?ts = owns (tasks s)" "own ?ts = own (tasks s)"
    using t by (auto intro!: own_update_same [OF k])
  ultimately show ?thesis
    using inv M by (simp add: sys_inv_def owned_def sem_ok_def setup_ok_def conns_ok_def)
qed

lemma inv_accept:
  assumes M: "sem_ok M" and inv: "sys_inv S Q M b s"
  shows "sys_inv S Q M b (serve_accept M stream s)"
proof (cases stream)
  case None
  with inv show ?thesis by (simp add: serve_accept_def sys_inv_def)
next
  case (Some u)
  show ?thesis
  proof (cases "try_acquire M (slots (srv s))")
    case None
    have "serve_accept M stream s = s\<lparr>srv := refuse_full (srv s)\<rparr>"
      by (simp add: serve_accept_def Some None)
    then show ?thesis using inv_change [OF inv safe_refuse_full] by simp
  next
    case (Some permits)
    with M have "Suc (available M permits) = available M (slots (srv s))"
      unfolding sem_ok_def by (metis Suc_pred' not_gr_zero option.distinct(1) option.inject diff_Suc_1 Suc_diff_1)
    moreover have "live new_task" "id_of (phase new_task) = None" "task_ok S b new_task"
      by (simp_all add: new_task_def live_def task_ok_def)
    ultimately show ?thesis
      using inv \<open>stream = Some u\<close> Some
      by (simp add: serve_accept_def sys_inv_def owned_append setup_ok_def conns_ok_def)
  qed
qed

text \<open>A task step before registration or after removal touches nothing shared.\<close>

lemma inv_local:
  assumes inv: "sys_inv S Q M b s" and k: "k < length (tasks s)" and old: "id_of (phase (tasks s ! k)) = None" "live (tasks s ! k)"
    and new: "id_of (phase t) = None" "live t" "task_ok S b t"
  shows "sys_inv S Q M b (s\<lparr>srv := srv s, tasks := (tasks s)[k := t]\<rparr>)"
  using old new by (intro inv_task [OF inv k safe_refl]) auto

lemma on_handshake_ok:
  "task_ok S b t \<Longrightarrow> who t = None \<Longrightarrow> phase t = Handshaking \<Longrightarrow> on_handshake inp t = Some t' \<Longrightarrow>
     task_ok S b t' \<and> id_of (phase t') = None \<and> live t'"
  by (auto simp: on_handshake_def task_ok_def live_def refusal_only_def
      split: input.splits timed.splits sum.splits)

lemma on_authenticating_ok:
  "task_ok S b t \<Longrightarrow> who t = None \<Longrightarrow> phase t = Authenticating \<Longrightarrow>
     on_authenticating S (b_validator b) inp t = Some t' \<Longrightarrow> task_ok S b t' \<and> id_of (phase t') = None \<and> live t'"
  by (auto simp: on_authenticating_def task_ok_def live_def refusal_only_def authenticate_ok_iff
      split: input.splits sum.splits)

lemma on_refusing_ok:
  "task_ok S b t \<Longrightarrow> who t = None \<Longrightarrow> phase t = Refusing e \<Longrightarrow> on_refusing S e inp t = Some t' \<Longrightarrow>
     task_ok S b t' \<and> id_of (phase t') = None \<and> live t'"
  by (auto simp: on_refusing_def task_ok_def live_def refusal_only_def split: input.splits sum.splits)

lemma on_acking_ok:
  "serde_ok S \<Longrightarrow> task_ok S b t \<Longrightarrow> who t = Some cl \<Longrightarrow> phase t = Acking \<Longrightarrow> on_acking S cl inp t = Some t' \<Longrightarrow>
     task_ok S b t' \<and> id_of (phase t') = None \<and> live t'"
  by (auto simp: on_acking_def task_ok_def live_def greeted_def entitled_frame split: input.splits sum.splits)

lemmas local_phases_ok = on_handshake_ok on_authenticating_ok on_refusing_ok on_acking_ok

lemma inv_session_step:
  assumes inv: "sys_inv S Q M b s" and k: "k < length (tasks s)" and t: "who (tasks s ! k) = Some cl" "id_of (phase (tasks s ! k)) = Some i"
    and "stays S Q b (own (tasks s)) i cl (srv s) (t', st)"
  shows "sys_inv S Q M b (s\<lparr>srv := st, tasks := (tasks s)[k := t']\<rparr>)"
  using assms(5) t by (intro inv_task [OF inv k]) (auto simp: stays_def live_def)

lemma inv_anonymous_step:
  assumes M: "sem_ok M" and inv: "sys_inv S Q M b s" and k: "k < length (tasks s)" and w: "who (tasks s ! k) = None"
    and h: "connection_step S Q M inp (tasks s ! k) (srv s) = Some (t', st)"
  shows "sys_inv S Q M b (s\<lparr>srv := st, tasks := (tasks s)[k := t']\<rparr>)"
proof -
  let ?t = "tasks s ! k"
  have ok: "task_ok S b ?t" and cfg: "validator (srv s) = b_validator b"
    using inv k by (auto simp: sys_inv_def setup_ok_def)
  note local = local_phases_ok(1-3) [OF ok w]
  show ?thesis
  proof (cases "phase ?t")
    case Handshaking
    with h w local(1) [OF Handshaking] show ?thesis
      by (auto simp: connection_step_def local_step_def live_def intro!: inv_local [OF inv k])
  next
    case Authenticating
    with h w cfg local(2) [OF Authenticating] show ?thesis
      by (auto simp: connection_step_def local_step_def live_def intro!: inv_local [OF inv k])
  next
    case (Refusing e)
    with h w local(3) [OF Refusing] show ?thesis
      by (auto simp: connection_step_def local_step_def live_def intro!: inv_local [OF inv k])
  next
    case (Finished r)
    with h w inv_permit [OF M inv k Finished] show ?thesis
      by (auto simp: connection_step_def permit_drop_def split: input.splits)
  qed (use h w in \<open>simp_all add: connection_step_def\<close>)
qed

lemma own_of:
  assumes "owned ts ids" and "k < length ts" and "id_of (phase (ts ! k)) = Some i" and "who (ts ! k) = Some cl"
  shows "own ts i cl" and "own ts i cl' \<Longrightarrow> cl' = cl"
  using assms by (auto simp: own_def owned_def owns_def) (metis option.inject)

lemma inv_known_step:
  assumes S: "serde_ok S" and Q: "mpsc_ok Q" and M: "sem_ok M" and inv: "sys_inv S Q M b s"
    and k: "k < length (tasks s)" and w: "who (tasks s ! k) = Some cl" and fresh: "next_id (registry (srv s)) \<noteq> - 1"
    and h: "connection_step S Q M inp (tasks s ! k) (srv s) = Some (t', st)"
  shows "sys_inv S Q M b (s\<lparr>srv := st, tasks := (tasks s)[k := t']\<rparr>)"
proof -
  let ?t = "tasks s ! k"
  have ok: "task_ok S b ?t" and cfg: "setup_ok b (srv s)" and rinv: "registry_inv (registry (srv s))"
    and ow: "owned (tasks s) (fst ` set (connections (registry (srv s))))"
    and conns: "conns_ok S Q b (own (tasks s)) (srv s)"
    using inv k by (auto simp: sys_inv_def)
  show ?thesis
  proof (cases "phase ?t")
    case Acking
    with h w on_acking_ok [OF S ok w Acking] show ?thesis
      by (auto simp: connection_step_def local_step_def live_def intro!: inv_local [OF inv k])
  next
    case Acked
    with h w have "on_acked Q cl inp ?t (srv s) = Some (t', st)" by (simp add: connection_step_def)
    then show ?thesis
    proof (cases rule: on_acked_cases)
      case (Registers n i reg)
      with inv_register [OF Q inv k fresh Acked w] show ?thesis by simp
    next
      case (Panics n)
      have "task_ok S b (?t\<lparr>phase := Finished Panicked\<rparr>)" using ok w Acked by (auto simp: task_ok_def)
      with inv_local [OF inv k] Acked show ?thesis by (simp add: Panics live_def)
    qed
  next
    case (Running i ls)
    then have id: "id_of (phase ?t) = Some i" by simp
    note one = own_of [OF ow k id w]
    have "on_running S Q cl i ls inp ?t (srv s) = Some (t', st)"
      using h w Running by (simp add: connection_step_def)
    from on_running_ok [OF S Q rinv cfg one(1) one(2) conns ok w Running this]
    show ?thesis by (rule inv_session_step [OF inv k w id])
  next
    case (Handling i ls acts)
    then have id: "id_of (phase ?t) = Some i" by simp
    have "on_handling S Q i ls acts inp ?t (srv s) = Some (t', st)"
      using h w Handling by (simp add: connection_step_def)
    from on_handling_ok [OF S Q own_of(2) [OF ow k id w] ok w Handling this]
    show ?thesis by (rule inv_session_step [OF inv k w id])
  next
    case (Checking i ls)
    then have id: "id_of (phase ?t) = Some i" by simp
    have "on_checking Q i ls inp ?t (srv s) = Some (t', st)"
      using h w Checking by (simp add: connection_step_def)
    from on_checking_ok [OF Q ok w Checking this]
    show ?thesis by (rule inv_session_step [OF inv k w id])
  next
    case (Unwinding i r)
    with h w inv_guard [OF inv k Unwinding] show ?thesis
      by (auto simp: connection_step_def Registered_drop_def split: input.splits)
  next
    case (Finished r)
    with h w inv_permit [OF M inv k Finished] show ?thesis
      by (auto simp: connection_step_def permit_drop_def split: input.splits)
  qed (use h w in \<open>simp_all add: connection_step_def\<close>)
qed

lemma safe_snapshots: "safe S Q b P st (st\<lparr>snapshots := snap\<rparr>)"
  by (auto simp: safe_def setup_ok_def)

lemma inv_publish:
  assumes Q: "mpsc_ok Q" and inv: "sys_inv S Q M b s" and f: "\<And>ch'. discloses S f ch' \<Longrightarrow> ch' = ch"
  shows "sys_inv S Q M b (s\<lparr>srv := (srv s)\<lparr>registry := snd (Registry_publish Q ch f (registry (srv s)))\<rparr>\<rparr>)"
  using inv by (intro inv_change [OF inv safe_publish [OF Q _ f]]) (auto simp: sys_inv_def)

lemma inv_step:
  assumes S: "serde_ok S" and Q: "mpsc_ok Q" and M: "sem_ok M"
    and inv: "sys_inv S Q M b s" and step: "server_step S Q M s s'"
  shows "sys_inv S Q M b s'"
  using step
proof cases
  case (Accept stream)
  then show ?thesis using inv_accept [OF M inv] by simp
next
  case Abort
  then show ?thesis using inv by (simp add: Accepting_drop_def sys_inv_def)
next
  case (Task k inp t st)
  then show ?thesis
    using inv_anonymous_step [OF M inv] inv_known_step [OF S Q M inv] by (cases "who (tasks s ! k)") auto
next
  case (Publish ch p)
  then show ?thesis
    using inv_publish [OF Q inv, of "to_frame S (Data ch p)" ch]
    by (simp add: Server_publish_def Let_def split_beta discloses_frame [OF S])
next
  case ResyncAll
  then show ?thesis
    using inv_change [OF inv safe_broadcast [OF Q, where f = "to_frame S (Resync [])"]]
    by (simp add: Server_resync_all_def Let_def split_beta discloses_frame [OF S])
next
  case (ResyncOn ch chs)
  then show ?thesis
    using inv_publish [OF Q inv, of "to_frame S (Resync chs)" ch] by (simp add: resync_on_def discloses_frame [OF S])
next
  case (PublishTo i ch p)
  have "registry_inv (registry (srv s))" using inv by (simp add: sys_inv_def)
  then have "ch \<in> subs_of (registry (srv s)) i" using PublishTo registry_inv_indexed by blast
  then have "safe S Q b (own (tasks s)) (srv s) (reply Q i (to_frame S (Data ch p)) (srv s))"
    by (intro safe_reply [OF Q]) (auto simp: entitled_frame [OF S] subs_of_Some conn_ok_def)
  from inv_change [OF inv this] PublishTo show ?thesis by simp
next
  case (ResyncTo i chs)
  have "safe S Q b (own (tasks s)) (srv s) (reply Q i (to_frame S (Resync chs)) (srv s))"
    by (intro safe_reply [OF Q]) (simp add: entitled_frame [OF S])
  from inv_change [OF inv this] ResyncTo show ?thesis by simp
next
  case (Snapshots snap)
  then show ?thesis using inv_change [OF inv safe_snapshots] by simp
qed

lemma inv_started:
  assumes M: "sem_ok M" and s: "started M b s"
  shows "sys_inv S Q M b s"
proof -
  from s obtain mp listen st addr where bind: "Builder_bind mp M listen b = Inr (st, addr :: string)"
    and s: "s = serving st" by (auto simp: started_def)
  then have "Config_validate mp (b_config b) = Inr ()" by (auto simp: Builder_bind_def split: sum.splits)
  then have "0 < send_queue (b_config b)" by (rule Config_validate_accepts(3))
  with bind M show ?thesis
    by (auto simp: s sys_inv_def serving_def Builder_bind_def setup_ok_def conns_ok_def own_def owned_def owns_def
        sem_ok_def registry_inv_new Metrics_default_def split: sum.splits)
      (simp add: Registry_new_def)
qed

interpretation server: step_invariant "started M b" "server_step S Q M"
  "\<lambda>s. serde_ok S \<longrightarrow> mpsc_ok Q \<longrightarrow> sem_ok M \<longrightarrow> sys_inv S Q M b s" for S Q M b
  by unfold_locales (auto intro: inv_started inv_step)

lemma reachable_inv:
  "serde_ok S \<Longrightarrow> mpsc_ok Q \<Longrightarrow> sem_ok M \<Longrightarrow> reachable S Q M b s \<Longrightarrow> sys_inv S Q M b s"
  using reachable_steps server.invariant by blast

section \<open>Consequences\<close>

lemma inv_task_ok: "sys_inv S Q M b s \<Longrightarrow> t \<in> set (tasks s) \<Longrightarrow> task_ok S b t"
  by (simp add: sys_inv_def)

lemma anonymous_wire: "anonymous_ok S p ms \<Longrightarrow> refusal_only S ms"
  by (cases p) (auto simp: refusal_only_def)

lemma known_wire: "known_ok S b cl p ms \<Longrightarrow> ms = [] \<or> greeted S cl ms"
  by (cases p) auto

lemma owned_task: "owned ts ids \<Longrightarrow> i \<in> ids \<Longrightarrow> \<exists>k. owns ts k i"
  by (simp add: owned_def)

lemma live_ids:
  assumes "owned ts ids"
  shows "card ids \<le> length (filter live ts)"
proof -
  let ?L = "{k. k < length ts \<and> live (ts ! k)}"
  have "ids \<subseteq> (\<lambda>k. the (id_of (phase (ts ! k)))) ` ?L"
  proof
    fix i assume "i \<in> ids"
    then obtain k where "k < length ts" "id_of (phase (ts ! k)) = Some i"
      using owned_task [OF assms] by (auto simp: owns_def)
    then show "i \<in> (\<lambda>k. the (id_of (phase (ts ! k)))) ` ?L"
      by (intro image_eqI [of _ _ k]) (auto simp: live_def)
  qed
  then have "card ids \<le> card ?L" by (intro surj_card_le) auto
  then show ?thesis by (simp add: length_filter_conv_card)
qed

lemma connection_of_task:
  assumes inv: "sys_inv S Q M b s" and c: "map_of (connections (registry (srv s))) i = Some c"
  shows "\<exists>cl. conn_ok S Q b cl c"
proof -
  have "i \<in> fst ` set (connections (registry (srv s)))" using c by (rule map_of_SomeD_key)
  then obtain k where k: "owns (tasks s) k i" using inv owned_task unfolding sys_inv_def by blast
  then have "task_ok S b (tasks s ! k)" using inv by (auto simp: sys_inv_def owns_def)
  with k obtain cl where "who (tasks s ! k) = Some cl"
    by (cases "who (tasks s ! k)"; cases "phase (tasks s ! k)") (auto simp: task_ok_def owns_def)
  with k have "own (tasks s) i cl" by (auto simp: own_def)
  with inv c show ?thesis unfolding sys_inv_def conns_ok_def by blast
qed

section \<open>The concrete run\<close>

lemma quiet_simps:
  "now (quiet t) = t" "write_msg m (quiet t) st = (Continue, st\<lparr>written := written st @ [m]\<rparr>)"
  "close_sink w (quiet t) st = (Stop w, st\<lparr>written := written st @ [Close]\<rparr>)"
  by (simp_all add: quiet_def write_msg_def send_now_def close_sink_def)

lemma demo_parse:
  "from_str demo_serde ''A'' = Inr (Auth ''key'')"
  "from_str demo_serde ''S'' = Inr (Subscribe [''t'', ''tu'', ''private'', ''u'', ''tv''])"
  by (simp_all add: demo_serde_def)

lemma ref_simps:
  "new_channel ref_mpsc n = \<lparr>capacity = n, buffered = [], rx_gone = False\<rparr>"
  "try_send ref_mpsc = chan_try_send" "recv ref_mpsc = chan_recv"
  "drop_rx ref_mpsc c = c\<lparr>buffered := [], rx_gone := True\<rparr>" "view ref_mpsc c = c"
  "try_acquire ref_sem n = (if n = 0 then None else Some (n - 1))" "release ref_sem = Suc"
  by (simp_all add: ref_mpsc_def ref_sem_def)

lemmas demo_eval = quiet_simps demo_parse ref_simps serving_def serve_accept_def new_task_def
  connection_step_def local_step_def on_handshake_def on_authenticating_def on_acking_def on_acked_def MAX_PERMITS_def on_running_def
  on_handling_def on_checking_def handle_begin_def subscribe_begin_def act_step_def after_branch_def select_body_def
  leave_session_def Registered_drop_def permit_drop_def set_tx_def
  authenticate_def StaticToken_validate_def StaticToken_new_def Claims_new_def demo_config_def Config_default_def
  Registry_new_def Metrics_default_def Registry_add_def Registry_subscribe_def Registry_remove_def index_insert_def
  index_remove_def Registry_send_def deliver_def chan_try_send_def chan_recv_def
  reply_def Server_publish_def Registry_publish_def Registry_drops_def List.insert_def Let_def

lemmas demo_defs = demo_events_def demo_start_def demo_builder_def demo_wire_def demo_goodbye_def

lemma serde_ok_parser: "serde_ok (S\<lparr>from_str := p\<rparr>) = serde_ok S"
  unfolding serde_ok_def by simp

lemma demo_serde_ok: "serde_ok demo_serde"
  unfolding demo_serde_def serde_ok_parser by (rule ref_serde_ok)

lemma demo_started: "started ref_sem demo_builder demo_start"
proof -
  have "Builder_bind 100000 ref_sem (\<lambda>_. Inr ''a'') demo_builder = Inr (srv demo_start, ''a'')"
    by (simp add: Builder_bind_def Config_validate_def demo_builder_def demo_config_def Config_default_def
        from_secs_def demo_start_def serving_def ref_sem_def)
  then show ?thesis
    unfolding started_def demo_start_def by (metis serving_def sys.simps(1))
qed

lemma demo_reachable: "reachable demo_serde ref_mpsc ref_sem demo_builder demo_start"
  by (rule reachable.Bound [OF demo_started])

lemma demo_state_reachable: "reachable demo_serde ref_mpsc ref_sem demo_builder (demo_state evs)"
  using sys_run_reachable [OF demo_reachable] demo_reachable by (simp add: demo_state_def split: option.splits)

lemma demo_task:
  "map wire (tasks (demo_state demo_events)) = [demo_wire]"
  "snapshots (srv (demo_state demo_events)) ''tu'' = Some ''8''"
  "map_of (connections (registry (srv (demo_state demo_events)))) (ConnectionId 1) =
     Some \<lparr>conn_subject = ''alice'', subscriptions = [''tu'', ''t''],
       tx = \<lparr>capacity = 256, buffered = [], rx_gone = False\<rparr>, dropped = 0\<rparr>"
  by (simp_all add: demo_state_def demo_defs demo_eval)

lemma demo_end: "map phase (tasks (demo_state (demo_events @ demo_goodbye))) = [Ended]"
  by (simp add: demo_state_def demo_defs demo_eval)

lemma demo_wire_eq:
  "demo_wire = take 2 demo_wire @ [to_message (to_frame demo_serde (Data ''tu'' ''8'')),
      to_message (to_frame demo_serde (Snapshot ''tu'' ''7''))]"
  by (simp add: demo_wire_def numeral_2_eq_2)

lemma demo_one_task: "wire (hd (tasks (demo_state demo_events))) = demo_wire" "length (tasks (demo_state demo_events)) = 1"
  "hd (tasks (demo_state demo_events)) \<in> set (tasks (demo_state demo_events))"
  using demo_task(1) by (cases "tasks (demo_state demo_events)"; simp)+

lemmas demo_ok = demo_serde_ok ref_mpsc_ok ref_sem_ok

section \<open>The handler's steps\<close>

lemma act_steps_effect:
  assumes "who t = Some cl"
  shows "\<exists>n. act_steps S Q M n (t\<lparr>phase := Handling i ls acts\<rparr>, st) =
    Some (t\<lparr>phase := Checking i ls\<rparr>, fold (act_effect S Q i) acts st)"
  using assms
proof (induction acts arbitrary: st)
  case Nil
  then show ?case by (intro exI [of _ 1]) (simp add: connection_step_def on_handling_def)
next
  case (Cons a acts)
  have one: "act_steps S Q M (Suc n) (t\<lparr>phase := Handling i ls (a' # acts')\<rparr>, st') =
      act_steps S Q M n (t\<lparr>phase := Handling i ls (fst (act_step S Q i a' st') @ acts')\<rparr>, snd (act_step S Q i a' st'))"
    for n a' acts' st'
    using Cons.prems by (simp add: connection_step_def on_handling_def split: prod.splits)
  obtain n where n: "act_steps S Q M n (t\<lparr>phase := Handling i ls acts\<rparr>, act_effect S Q i a st) =
      Some (t\<lparr>phase := Checking i ls\<rparr>, fold (act_effect S Q i) acts (act_effect S Q i a st))"
    using Cons.IH [OF Cons.prems] by blast
  show ?case
  proof (cases "\<exists>ch p. a = SendSnapshot ch \<and> snapshots st ch = Some p")
    case True
    with n have "act_steps S Q M (Suc (Suc n)) (t\<lparr>phase := Handling i ls (a # acts)\<rparr>, st) =
        Some (t\<lparr>phase := Checking i ls\<rparr>, fold (act_effect S Q i) (a # acts) st)"
      by (auto simp: one act_step_def act_effect_def simp del: act_steps.simps)
    then show ?thesis by blast
  next
    case False
    with n have "act_steps S Q M (Suc n) (t\<lparr>phase := Handling i ls (a # acts)\<rparr>, st) =
        Some (t\<lparr>phase := Checking i ls\<rparr>, fold (act_effect S Q i) (a # acts) st)"
      by (auto simp: one act_step_def act_effect_def simp del: act_steps.simps split: act.splits option.splits)
    then show ?thesis by blast
  qed
qed

lemma fold_snapshots:
  "fold (act_effect S Q i) (map SendSnapshot chs) st =
     st\<lparr>registry := snapshot_loop S Q (snapshots st) i chs (registry st)\<rparr>"
  by (induction chs arbitrary: st) (auto simp: act_effect_def reply_def split: option.splits)

lemma handle_effect:
  "fold (act_effect S Q i) (fst (handle_begin S msg i cl st)) (snd (handle_begin S msg i cl st)) =
     snd (snd (on_inbound S Q i cl (Text msg) e ss st))"
  by (auto simp: handle_begin_def subscribe_begin_def on_inbound_def handle_def handle_subscribe_def Let_def
      act_effect_def fold_snapshots reply_def
      split: sum.splits client_message.splits prod.splits)

section \<open>A task that waits for its close\<close>

lemma parked_step:
  assumes "server_step S Q M s s'" and "k < length (tasks s)" and "phase (tasks s ! k) = ParkedAt i"
  shows "k < length (tasks s') \<and> tasks s' ! k = tasks s ! k"
  using assms
proof cases
  case (Task j inp t st)
  then have "j \<noteq> k" using assms(3) by (auto simp: connection_step_def split: option.splits)
  with Task assms(2) show ?thesis by simp
qed (use assms(2) in \<open>auto simp: serve_accept_def Accepting_drop_def nth_append split: option.splits\<close>)

lemma parked_steps:
  assumes "(server_step S Q M)\<^sup>*\<^sup>* s s'" and "k < length (tasks s)" and "phase (tasks s ! k) = ParkedAt i"
  shows "k < length (tasks s') \<and> tasks s' ! k = tasks s ! k"
  using assms
proof (induction rule: rtranclp_induct)
  case (step s' s'')
  then show ?case using parked_step [of S Q M s' s'' k i] by simp
qed simp

lemma parked_cost:
  assumes inv: "sys_inv S Q M b s" and k: "k < length (tasks s)" and "phase (tasks s ! k) = ParkedAt i"
  shows "i \<in> fst ` set (connections (registry (srv s))) \<and> available M (slots (srv s)) < max_connections (b_config b)"
proof -
  have "owns (tasks s) k i" using assms by (simp add: owns_def)
  moreover have "tasks s ! k \<in> set (filter live (tasks s))" using k assms(3) by (simp add: live_def)
  then have "0 < length (filter live (tasks s))" by (rule length_pos_if_in_set)
  then have "available M (slots (srv s)) < max_connections (b_config b)"
    using inv unfolding sys_inv_def by linarith
  ultimately show ?thesis using inv by (auto simp: sys_inv_def owned_def)
qed

lemma reachable_rtranclp:
  "(server_step S Q M)\<^sup>*\<^sup>* s s' \<Longrightarrow> reachable S Q M b s \<Longrightarrow> reachable S Q M b s'"
  by (induction rule: rtranclp_induct) (auto intro: reachable.Step)

section \<open>Tasks can end\<close>

lemma can_end_step:
  "connection_step S Q M inp t st = Some r \<Longrightarrow> inp \<noteq> Panic \<Longrightarrow> can_end S Q M r \<Longrightarrow> can_end S Q M (t, st)"
  unfolding can_end_def by (metis fst_conv insert_iff list.set(2) option.simps(5) snd_conv task_run.simps(2))

lemma act_steps_run: "act_steps S Q M n r = task_run S Q M (replicate n Act) r"
  by (induction n arbitrary: r) (simp_all split: option.splits)

lemma task_run_append:
  "task_run S Q M (xs @ ys) r = Option.bind (task_run S Q M xs r) (task_run S Q M ys)"
  by (induction xs arbitrary: r) (simp_all split: option.splits)

lemma can_end_acts: "act_steps S Q M n r = Some r' \<Longrightarrow> can_end S Q M r' \<Longrightarrow> can_end S Q M r"
  unfolding can_end_def act_steps_run
proof (elim exE conjE)
  fix inps r'' assume "task_run S Q M (replicate n Act) r = Some r'" "Panic \<notin> set inps"
    "task_run S Q M inps r' = Some r''" "phase (fst r'') = Ended"
  then show "\<exists>inps r'. Panic \<notin> set inps \<and> task_run S Q M inps r = Some r' \<and> phase (fst r') = Ended"
    by (intro exI [of _ "replicate n Act @ inps"] exI [of _ r'']) (simp add: task_run_append)
qed

lemma can_end_Finished: "phase t = Finished r \<Longrightarrow> can_end S Q M (t, st)"
proof (rule can_end_step [where inp = PermitDrop])
  assume "phase t = Finished r"
  then show "connection_step S Q M PermitDrop t st =
      Some (t\<lparr>phase := Ended\<rparr>, st\<lparr>slots := release M (slots st)\<rparr>)"
    by (simp add: connection_step_def permit_drop_def split: option.splits)
  show "can_end S Q M (t\<lparr>phase := Ended\<rparr>, st\<lparr>slots := release M (slots st)\<rparr>)"
    unfolding can_end_def by (intro exI [of _ "[]"]) simp
qed simp

lemma can_end_Unwinding: "phase t = Unwinding i r \<Longrightarrow> who t = Some cl \<Longrightarrow> can_end S Q M (t, st)"
  by (rule can_end_step [where inp = GuardDrop])
    (auto simp: connection_step_def Registered_drop_def intro: can_end_Finished)

lemma can_end_Running:
  assumes "phase t = Running i ls" and "who t = Some cl"
  shows "can_end S Q M (t, st)"
proof (rule can_end_step [where inp = "Select (WakeInbound None) (quiet 0)"])
  show "connection_step S Q M (Select (WakeInbound None) (quiet 0)) t st =
      Some (leave_session Q i (Returned (Inr ())) (t\<lparr>wire := wire t\<rparr>) st)"
    using assms by (simp add: connection_step_def on_running_def select_body_def after_branch_def Let_def)
  show "can_end S Q M (leave_session Q i (Returned (Inr ())) (t\<lparr>wire := wire t\<rparr>) st)"
    using assms unfolding leave_session_def by (intro can_end_Unwinding) auto
qed simp

lemma can_end_Checking:
  assumes "phase t = Checking i ls" and "who t = Some cl"
  shows "can_end S Q M (t, st)"
proof -
  obtain r where r: "connection_step S Q M (Check (quiet 0)) t st = Some r"
    using assms by (simp add: connection_step_def on_checking_def Let_def)
  have "who (fst r) = Some cl \<and> ((\<exists>i x. phase (fst r) = Unwinding i x) \<or> (\<exists>i n. phase (fst r) = Running i n))"
    using r assms
    by (auto simp: connection_step_def on_checking_def Let_def quiet_simps after_branch_def leave_session_def
        split: if_splits)
  then have "can_end S Q M (fst r, snd r)" by (metis can_end_Unwinding can_end_Running)
  then show ?thesis using can_end_step [OF r] by simp
qed

lemma can_end_Handling:
  assumes "phase t = Handling i ls acts" and "who t = Some cl"
  shows "can_end S Q M (t, st)"
proof -
  have "t = t\<lparr>phase := Handling i ls acts\<rparr>" using assms(1) by simp
  then obtain n r where "act_steps S Q M n (t, st) = Some r" and "phase (fst r) = Checking i ls" "who (fst r) = Some cl"
    using act_steps_effect [OF assms(2), of S Q M i ls acts st] assms(2) by auto
  moreover from this have "can_end S Q M (fst r, snd r)" by (intro can_end_Checking)
  ultimately show ?thesis using can_end_acts by simp
qed

lemma can_end_Refusing: "phase t = Refusing e \<Longrightarrow> who t = None \<Longrightarrow> can_end S Q M (t, st)"
  by (rule can_end_step [where inp = "RefusalSent (Inr ()) (Inr ())"])
    (auto simp: connection_step_def local_step_def on_refusing_def Let_def intro: can_end_Finished)

lemma can_end_Handshaking: "phase t = Handshaking \<Longrightarrow> who t = None \<Longrightarrow> can_end S Q M (t, st)"
  by (rule can_end_step [where inp = "HandshakeDone Elapsed"])
    (auto simp: connection_step_def local_step_def on_handshake_def intro: can_end_Finished)

lemma can_end_Authenticating: "phase t = Authenticating \<Longrightarrow> who t = None \<Longrightarrow> can_end S Q M (t, st)"
  by (rule can_end_step [where inp = "FirstMessage Elapsed"])
    (auto simp: connection_step_def local_step_def on_authenticating_def authenticate_def intro: can_end_Refusing)

lemma can_end_Acking: "phase t = Acking \<Longrightarrow> who t = Some cl \<Longrightarrow> can_end S Q M (t, st)"
  by (rule can_end_step [where inp = "AckSent (Inl ''gone'')"])
    (auto simp: connection_step_def local_step_def on_acking_def intro: can_end_Finished)

lemma can_end_Acked:
  assumes "phase t = Acked" and "who t = Some cl"
  shows "can_end S Q M (t, st)"
proof -
  obtain t' st' where h: "on_acked Q cl (Register 0) t st = Some (t', st')"
    by (cases "on_acked Q cl (Register 0) t st") (auto simp: on_acked_def Let_def split_beta split: if_splits)
  then have "can_end S Q M (t', st')"
    by (cases rule: on_acked_cases) (auto simp: assms(2) intro: can_end_Running can_end_Finished)
  then show ?thesis
    using assms h by (intro can_end_step [where inp = "Register 0"]) (simp_all add: connection_step_def)
qed

lemma can_end_Ended: "phase t = Ended \<Longrightarrow> can_end S Q M (t, st)"
  unfolding can_end_def by (intro exI [of _ "[]"]) simp

lemmas can_end_intros = can_end_Handshaking can_end_Authenticating can_end_Refusing can_end_Acking can_end_Acked
  can_end_Running can_end_Handling can_end_Checking can_end_Unwinding can_end_Finished can_end_Ended

section \<open>Properties\<close>

text \<open>Who has been told something of a channel.\<close>

lemma disclosed_to:
  assumes S: "serde_ok S" and ok: "task_ok S b t" and m: "m \<in> set (wire t)" "discloses_msg S m ch"
  shows "\<exists>cl tok. who t = Some cl \<and> b_validator b tok = Inr cl \<and> b_authorizer b cl ch \<and> greeted S cl (wire t)"
proof (cases "who t")
  case None
  then have "refusal_only S (wire t)" using ok anonymous_wire by (auto simp: task_ok_def)
  then have "m = Close \<or> (\<exists>e. m = to_message (to_frame S (Error ''unauthenticated'' e)))"
    using m(1) by (simp add: refusal_only_def)
  then show ?thesis using S m(2) by (auto simp: discloses_frame)
next
  case (Some cl)
  then have "wire t = [] \<or> greeted S cl (wire t)" using ok by (cases "phase t") (auto simp: task_ok_def)
  with Some ok m show ?thesis by (auto simp: task_ok_def wire_ok_def)
qed

text \<open>
  C1: Nobody receives data it is not entitled to. In every state the server reaches, under any
  interleaving of clients, publishers and changes of snapshots: if the socket of a connection has taken a data
  or snapshot frame of a channel, then the connection authenticated with a token the validator
  accepts, and the authorizer allows that channel for the claims the validator returned.
\<close>

theorem only_authorized_clients_receive_data:
  assumes "serde_ok S" and "mpsc_ok Q" and "sem_ok M" and "reachable S Q M b s"
    and "t \<in> set (tasks s)" and "m \<in> set (wire t)" and "discloses_msg S m ch"
  shows "\<exists>cl tok. who t = Some cl \<and> b_validator b tok = Inr cl \<and> b_authorizer b cl ch"
proof -
  have "task_ok S b t" by (rule inv_task_ok [OF reachable_inv [OF assms(1-4)] assms(5)])
  from disclosed_to [OF assms(1) this assms(6,7)] show ?thesis by blast
qed

theorem only_authorized_clients_receive_data_witness:
  "let t = hd (tasks (demo_state demo_events))
   in to_message (to_frame demo_serde (Data ''tu'' ''8'')) \<in> set (wire t) \<and>
      (\<exists>cl tok. who t = Some cl \<and> b_validator demo_builder tok = Inr cl \<and> b_authorizer demo_builder cl ''tu'')"
proof -
  have m: "to_message (to_frame demo_serde (Data ''tu'' ''8'')) \<in> set (wire (hd (tasks (demo_state demo_events))))"
    unfolding demo_one_task(1) by (simp add: demo_wire_def)
  have "discloses_msg demo_serde (to_message (to_frame demo_serde (Data ''tu'' ''8''))) ''tu''"
    by (simp add: discloses_frame [OF demo_serde_ok])
  from only_authorized_clients_receive_data [OF demo_ok demo_state_reachable demo_one_task(3) m this] m
  show ?thesis unfolding Let_def by (rule conjI [rotated])
qed

text \<open>
  C29: With JSON Web Tokens, the signed claims decide what a client receives. On a server whose validator
  is \<^verbatim>\<open>HmacJwt\<close> with some secret, a data or snapshot frame of a channel on a socket means that the JWT
  decoder accepted a token under that secret, HS256 and the required claims \<open>exp\<close> and \<open>sub\<close>; that the
  claims the server acts on are the decoded ones, the string \<open>sub\<close> taken out as the subject, and the
  authorizer allows the channel for exactly these; and that the socket's first message told the client
  this subject.
\<close>

theorem jwt_claims_decide_what_is_received:
  assumes ok: "serde_ok S" "mpsc_ok Q" "sem_ok M" and v: "b_validator b = HmacJwt_validate J (HmacJwt_new J secret)"
    and r: "reachable S Q M b s" and t: "t \<in> set (tasks s)" and m: "m \<in> set (wire t)" "discloses_msg S m ch"
  shows "\<exists>tok attrs sub. decode J tok (from_secret J secret)
        \<lparr>algorithm = HS256, required_spec_claims = [''exp'', ''sub'']\<rparr> = Some attrs \<and>
      attrs ''sub'' = Some (String sub) \<and> who t = Some \<lparr>subject = sub, attributes = attrs(''sub'' := None)\<rparr> \<and>
      b_authorizer b \<lparr>subject = sub, attributes = attrs(''sub'' := None)\<rparr> ch \<and>
      hd (wire t) = to_message (to_frame S (Authenticated sub))"
proof -
  have "task_ok S b t" by (rule inv_task_ok [OF reachable_inv [OF ok r] t])
  from disclosed_to [OF ok(1) this m] obtain cl tok
    where cl: "who t = Some cl" "HmacJwt_validate J (HmacJwt_new J secret) tok = Inr cl" "b_authorizer b cl ch"
      "greeted S cl (wire t)" by (auto simp: v)
  from cl(2) obtain attrs sub where "decode J tok (from_secret J secret)
        \<lparr>algorithm = HS256, required_spec_claims = [''exp'', ''sub'']\<rparr> = Some attrs"
      "attrs ''sub'' = Some (String sub)" "cl = \<lparr>subject = sub, attributes = attrs(''sub'' := None)\<rparr>"
    by (auto simp: HmacJwt_accepts_iff HmacJwt_new_def)
  moreover have "hd (wire t) = to_message (to_frame S (Authenticated (subject cl)))" using cl(4) by (auto simp: greeted_def)
  ultimately show ?thesis using cl(1,3) by (intro exI [of _ tok] exI [of _ attrs] exI [of _ sub]) simp
qed

lemma jwt_run:
  "\<exists>s. sys_run demo_serde ref_mpsc ref_sem demo_events (demo_start\<lparr>srv := (srv demo_start)\<lparr>validator := b_validator jwt_builder\<rparr>\<rparr>) =
     Some s \<and> map wire (tasks s) = [demo_wire]"
  by (simp add: demo_defs demo_eval jwt_builder_def HmacJwt_validate_def HmacJwt_new_def demo_jwt_def)

theorem jwt_claims_decide_what_is_received_witness:
  "\<exists>s attrs. reachable demo_serde ref_mpsc ref_sem jwt_builder s \<and> map wire (tasks s) = [demo_wire] \<and>
     who (hd (tasks s)) = Some \<lparr>subject = ''alice'', attributes = attrs(''sub'' := None)\<rparr> \<and>
     attrs ''sub'' = Some (String ''alice'')"
proof -
  let ?s0 = "demo_start\<lparr>srv := (srv demo_start)\<lparr>validator := b_validator jwt_builder\<rparr>\<rparr>"
  have "Builder_bind 100000 ref_sem (\<lambda>_. Inr ''a'') jwt_builder = Inr (srv ?s0, ''a'')"
    by (simp add: Builder_bind_def Config_validate_def jwt_builder_def demo_builder_def demo_config_def
        Config_default_def from_secs_def demo_start_def serving_def ref_sem_def)
  then have "started ref_sem jwt_builder ?s0"
    unfolding started_def by (intro exI conjI, assumption) (simp add: serving_def demo_start_def)
  moreover obtain s where run: "sys_run demo_serde ref_mpsc ref_sem demo_events ?s0 = Some s"
    and w: "map wire (tasks s) = [demo_wire]" using jwt_run by (elim exE conjE) (rule that)
  ultimately have r: "reachable demo_serde ref_mpsc ref_sem jwt_builder s"
    by (intro sys_run_reachable [OF reachable.Bound])
  have t: "hd (tasks s) \<in> set (tasks s)" "wire (hd (tasks s)) = demo_wire" using w by auto
  then have m: "to_message (to_frame demo_serde (Data ''tu'' ''8'')) \<in> set (wire (hd (tasks s)))"
    by (simp add: demo_wire_def)
  have d: "discloses_msg demo_serde (to_message (to_frame demo_serde (Data ''tu'' ''8''))) ''tu''"
    by (simp add: discloses_frame [OF demo_serde_ok])
  have v: "b_validator jwt_builder = HmacJwt_validate demo_jwt (HmacJwt_new demo_jwt ''key'')" by (simp add: jwt_builder_def)
  obtain attrs sub where h: "attrs ''sub'' = Some (String sub)"
      "who (hd (tasks s)) = Some \<lparr>subject = sub, attributes = attrs(''sub'' := None)\<rparr>"
      "hd (wire (hd (tasks s))) = to_message (to_frame demo_serde (Authenticated sub))"
    using jwt_claims_decide_what_is_received [OF demo_ok v r t(1) m d] by (elim exE conjE) (rule that)
  have "hd demo_wire = to_message (to_frame demo_serde (Authenticated ''alice''))" by (simp add: demo_wire_def)
  then have "sub = ''alice''" using h(3) t(2) by (simp add: to_frame_inject [OF demo_serde_ok])
  with r w h(1,2) show ?thesis by (intro exI [of _ s] exI [of _ attrs]) simp
qed

text \<open>
  C11: The connection limit holds at every moment, handshakes included: the free permits and the tasks
  that have not ended add up to \<open>max_connections\<close>, and there are never more registered connections
  than tasks that have not ended.
\<close>

theorem connection_limit_holds:
  assumes "serde_ok S" and "mpsc_ok Q" and "sem_ok M" and "reachable S Q M b s"
  shows "available M (slots (srv s)) + length (filter live (tasks s)) = max_connections (b_config b) \<and>
    Server_connections (srv s) \<le> length (filter live (tasks s)) \<and>
    Server_connections (srv s) \<le> max_connections (b_config b)"
proof -
  have inv: "sys_inv S Q M b s" by (rule reachable_inv [OF assms])
  then have "keys_distinct (connections (registry (srv s)))"
    by (simp add: sys_inv_def registry_inv_def connections_wf_def)
  then have "Server_connections (srv s) = card (fst ` set (connections (registry (srv s))))"
    by (simp add: Server_connections_def Registry_len_def length_eq_card_dom)
  moreover have "card (fst ` set (connections (registry (srv s)))) \<le> length (filter live (tasks s))"
    using inv by (intro live_ids) (simp add: sys_inv_def)
  ultimately show ?thesis using inv by (simp add: sys_inv_def)
qed

theorem connection_limit_holds_witness:
  "available ref_sem (slots (srv (demo_state demo_events))) +
     length (filter live (tasks (demo_state demo_events))) = 10000 \<and> length (tasks (demo_state demo_events)) = 1"
  using connection_limit_holds [OF demo_ok demo_state_reachable [of demo_events]]
  by (simp add: demo_builder_def demo_config_def Config_default_def demo_one_task(2))

text \<open>
  C13: The first thing an authenticated client receives is \<open>authenticated\<close> with its subject: whatever
  publishers do, no frame overtakes it. A client that did not authenticate receives nothing but an
  \<open>unauthenticated\<close> error and the close.
\<close>

theorem authenticated_comes_first:
  assumes "serde_ok S" and "mpsc_ok Q" and "sem_ok M" and "reachable S Q M b s"
    and "t \<in> set (tasks s)" and "m \<in> set (wire t)"
  shows "case who t of
      Some cl \<Rightarrow> hd (wire t) = to_message (to_frame S (Authenticated (subject cl)))
    | None \<Rightarrow> m = Close \<or> (\<exists>e. m = to_message (to_frame S (Error ''unauthenticated'' e)))"
proof -
  have ok: "task_ok S b t" by (rule inv_task_ok [OF reachable_inv [OF assms(1-4)] assms(5)])
  show ?thesis
  proof (cases "who t")
    case None
    then have "refusal_only S (wire t)" using ok anonymous_wire by (auto simp: task_ok_def)
    with None assms(6) show ?thesis by (simp add: refusal_only_def)
  next
    case (Some cl)
    with ok have "wire t = [] \<or> greeted S cl (wire t)" using known_wire by (simp add: task_ok_def) blast
    with Some assms(6) show ?thesis by (auto simp: greeted_def)
  qed
qed

theorem authenticated_comes_first_witness:
  "case who (hd (tasks (demo_state demo_events))) of None \<Rightarrow> False
   | Some cl \<Rightarrow> hd demo_wire = to_message (to_frame demo_serde (Authenticated (subject cl)))"
proof -
  have m: "to_message (to_frame demo_serde (Data ''tu'' ''8'')) \<in> set (wire (hd (tasks (demo_state demo_events))))"
    unfolding demo_one_task(1) by (simp add: demo_wire_def)
  show ?thesis
    using authenticated_comes_first [OF demo_ok demo_state_reachable demo_one_task(3) m]
    by (simp add: demo_one_task(1) to_frame_inject [OF demo_serde_ok] split: option.splits)
qed

text \<open>
  C18: A connection costs the server a bounded amount: every registered connection queues at most
  \<open>send_queue\<close> frames, holds at most \<open>max_subscriptions\<close> channels, and none of their names is longer
  than \<open>max_channel_len\<close>.
\<close>

theorem connection_cost_bounded:
  assumes "serde_ok S" and "mpsc_ok Q" and "sem_ok M" and "reachable S Q M b s"
    and "map_of (connections (registry (srv s))) i = Some c"
  shows "length (buffered (view Q (tx c))) \<le> send_queue (b_config b) \<and>
    length (subscriptions c) \<le> max_subscriptions (b_config b) \<and>
    (\<forall>ch \<in> set (subscriptions c). length ch \<le> max_channel_len (b_config b))"
proof -
  have inv: "sys_inv S Q M b s" by (rule reachable_inv [OF assms(1-4)])
  obtain cl where "conn_ok S Q b cl c" using connection_of_task [OF inv assms(5)] by blast
  moreover have "distinct (subscriptions c)"
    using inv assms(5) by (auto simp: sys_inv_def intro: connection_subs_distinct)
  ultimately show ?thesis by (simp add: conn_ok_def distinct_card)
qed

theorem connection_cost_bounded_witness:
  "case map_of (connections (registry (srv (demo_state demo_events)))) (ConnectionId 1) of None \<Rightarrow> False
   | Some c \<Rightarrow> length (buffered (view ref_mpsc (tx c))) \<le> 256 \<and> length (subscriptions c) \<le> 2"
  using connection_cost_bounded [OF demo_ok demo_state_reachable demo_task(3)]
  unfolding demo_task(3) demo_builder_def demo_config_def Config_default_def by simp

text \<open>
  C17: Nothing is left of connections whose tasks have ended, however they ended: an error, a timeout, a
  panic. When every task has ended, the registry and its index are empty, the active counter is
  zero and every permit is free again.
\<close>

theorem ended_tasks_leave_nothing:
  assumes "serde_ok S" and "mpsc_ok Q" and "sem_ok M" and "reachable S Q M b s"
    and "\<forall>t \<in> set (tasks s). phase t = Ended"
  shows "connections (registry (srv s)) = [] \<and> by_channel (registry (srv s)) = [] \<and>
    connections_active (metrics (registry (srv s))) = 0 \<and>
    available M (slots (srv s)) = max_connections (b_config b)"
proof -
  let ?r = "registry (srv s)"
  have inv: "sys_inv S Q M b s" by (rule reachable_inv [OF assms(1-4)])
  have "\<not> owns (tasks s) k i" for k i using assms(5) by (auto simp: owns_def dest!: nth_mem)
  then have "fst ` set (connections ?r) = {}" using inv by (auto simp: sys_inv_def owned_def)
  then have none: "connections ?r = []" by simp
  have rinv: "registry_inv ?r" using inv by (simp add: sys_inv_def)
  have "by_channel ?r = []"
  proof (rule ccontr)
    assume "by_channel ?r \<noteq> []"
    then have "dom (map_of (by_channel ?r)) \<noteq> {}" by simp
    then obtain ch ids where e: "map_of (by_channel ?r) ch = Some ids" by blast
    then have "ids \<noteq> []" using rinv by (auto simp: registry_inv_def index_wf_def)
    then show False
      using registry_inv_indexed [OF rinv, of "hd ids" ch] e none by (simp add: indexed_def subs_of_def)
  qed
  moreover have "filter live (tasks s) = []" using assms(5) by (simp add: live_def)
  ultimately show ?thesis using inv none by (simp add: sys_inv_def registry_inv_def)
qed

theorem ended_tasks_leave_nothing_witness:
  "let s = demo_state (demo_events @ demo_goodbye)
   in map phase (tasks s) = [Ended] \<and> connections (registry (srv s)) = [] \<and> available ref_sem (slots (srv s)) = 10000"
proof -
  have "\<forall>t \<in> set (tasks (demo_state (demo_events @ demo_goodbye))). phase t = Ended"
    using demo_end by (metis image_eqI list.set_map list.simps(15) empty_set singletonD)
  from ended_tasks_leave_nothing [OF demo_ok demo_state_reachable this] demo_end show ?thesis
    by (simp add: Let_def demo_builder_def demo_config_def Config_default_def)
qed

text \<open>
  C30: A subscriber can receive a delta before the snapshot of its channel, and the snapshot can be the
  older of the two: the server reaches a state in which the current value is \<open>8\<close>, and the client has
  received the data frame \<open>8\<close> first and the snapshot \<open>7\<close> after it. The handler reads the snapshot after the
  subscription is active and queues it in a later step, so a publisher can come in between.
\<close>

theorem stale_snapshot_can_follow_newer_delta:
  "\<exists>s t before. reachable demo_serde ref_mpsc ref_sem demo_builder s \<and> t \<in> set (tasks s) \<and>
     snapshots (srv s) ''tu'' = Some ''8'' \<and>
     wire t = before @ [to_message (to_frame demo_serde (Data ''tu'' ''8'')),
                        to_message (to_frame demo_serde (Snapshot ''tu'' ''7''))]"
proof (intro exI conjI)
  show "wire (hd (tasks (demo_state demo_events))) = take 2 demo_wire @
      [to_message (to_frame demo_serde (Data ''tu'' ''8'')), to_message (to_frame demo_serde (Snapshot ''tu'' ''7''))]"
    unfolding demo_one_task(1) by (rule demo_wire_eq)
qed (rule demo_state_reachable demo_one_task(3) demo_task(2))+

text \<open>
  C31: Closing a silent client has no deadline. Once the heartbeat has run out and the socket does not
  complete the close, no step of the server ends the task: the connection stays registered and
  keeps its permit in every later state.
\<close>

theorem hanging_close_keeps_the_slot:
  assumes "serde_ok S" and "mpsc_ok Q" and "sem_ok M" and "reachable S Q M b s"
    and k: "k < length (tasks s)" and t: "phase (tasks s ! k) = Running i ls"
    and silent: "heartbeat_timeout (b_config b) < now e - ls" and hang: "io_close e = None"
    and tick: "sys_exec S Q M (EvTask k (Select WakeTick e)) s = Some s1"
    and later: "(server_step S Q M)\<^sup>*\<^sup>* s1 s2"
  shows "phase (tasks s2 ! k) = ParkedAt i \<and> i \<in> fst ` set (connections (registry (srv s2))) \<and>
    available M (slots (srv s2)) < max_connections (b_config b)"
proof -
  have "config (srv s) = b_config b"
    using reachable_inv [OF assms(1-4)] by (simp add: sys_inv_def setup_ok_def)
  then have s1: "k < length (tasks s1)" "phase (tasks s1 ! k) = ParkedAt i"
    using tick k t silent hang
    by (auto simp: connection_step_def on_running_def Let_def select_body_def close_sink_def after_branch_def
        split: if_splits option.splits)
  have "reachable S Q M b s2"
    using reachable_rtranclp [OF later] reachable.Step [OF assms(4) sys_exec_step [OF tick]] by blast
  from parked_cost [OF reachable_inv [OF assms(1-3) this], of k i] show ?thesis
    using parked_steps [OF later s1] s1(2) by simp
qed

theorem hanging_close_keeps_the_slot_witness:
  "let s = demo_state (demo_events @ [EvTask 0 (Check (quiet 5))]);
       e = (quiet 100000000000)\<lparr>io_close := None\<rparr>
   in phase (hd (tasks s)) = Running (ConnectionId 1) 1 \<and>
      (case sys_exec demo_serde ref_mpsc ref_sem (EvTask 0 (Select WakeTick e)) s of None \<Rightarrow> False
       | Some s1 \<Rightarrow> phase (tasks s1 ! 0) = ParkedAt (ConnectionId 1) \<and> available ref_sem (slots (srv s1)) < 10000)"
proof -
  let ?s = "demo_state (demo_events @ [EvTask 0 (Check (quiet 5))])" and ?e = "(quiet 100000000000)\<lparr>io_close := None\<rparr>"
  have s: "map phase (tasks ?s) = [Running (ConnectionId 1) 1]"
    "\<exists>s1. sys_exec demo_serde ref_mpsc ref_sem (EvTask 0 (Select WakeTick ?e)) ?s = Some s1"
    by (simp_all add: demo_state_def demo_defs demo_eval)
  obtain s1 where s1: "sys_exec demo_serde ref_mpsc ref_sem (EvTask 0 (Select WakeTick ?e)) ?s = Some s1" using s(2) by blast
  have t: "0 < length (tasks ?s)" "phase (tasks ?s ! 0) = Running (ConnectionId 1) 1" "tasks ?s \<noteq> []"
    using s(1) by (cases "tasks ?s"; simp)+
  have "heartbeat_timeout (b_config demo_builder) < now ?e - 1" "io_close ?e = None"
    by (simp_all add: demo_builder_def demo_config_def Config_default_def from_secs_def quiet_def)
  from hanging_close_keeps_the_slot [OF demo_ok demo_state_reachable t(1,2) this s1 rtranclp.rtrancl_refl] s1 t
  show ?thesis
    by (simp add: Let_def hd_conv_nth demo_builder_def demo_config_def Config_default_def del: sys_exec.simps)
qed

section \<open>A queue the runtime cannot create\<close>

lemma empty_step:
  assumes inv: "sys_inv S Q M b s" and none: "connections (registry (srv s)) = []"
    and big: "MAX_PERMITS < send_queue (b_config b)"
    and h: "connection_step S Q M inp t (srv s) = Some (t', st)" and t: "t \<in> set (tasks s)"
  shows "connections (registry st) = []"
proof -
  have id: "id_of (phase t) = None"
  proof (rule ccontr)
    assume "id_of (phase t) \<noteq> None"
    then obtain i k where "owns (tasks s) k i" using t by (auto simp: owns_def in_set_conv_nth)
    then show False using inv none by (auto simp: sys_inv_def owned_def)
  qed
  have cfg: "MAX_PERMITS < send_queue (config (srv s))" using inv big by (simp add: sys_inv_def setup_ok_def)
  have acked: "st' = srv s" if "on_acked Q cl inp t (srv s) = Some (t', st')" for cl st'
    using that by (rule on_acked_cases) (use cfg in simp_all)
  show ?thesis
    using h id none acked
    by (cases "phase t") (auto simp: connection_step_def local_step_def permit_drop_def split: option.splits input.splits)
qed

lemma empty_server_step:
  assumes "server_step S Q M s s'" and "sys_inv S Q M b s" and "connections (registry (srv s)) = []"
    and "MAX_PERMITS < send_queue (b_config b)"
  shows "connections (registry (srv s')) = []"
  using assms(1)
proof cases
  case (Accept stream)
  then show ?thesis
    using assms(3) by (auto simp: serve_accept_def refuse_full_def Let_def split: option.splits)
next
  case (Task k inp t sh')
  then show ?thesis using empty_step [OF assms(2-4) Task(4)] by simp
next
  case (Publish ch p)
  then show ?thesis using assms(3) by (simp add: Server_publish_def Let_def split_beta publish.keeps_empty)
next
  case ResyncAll
  then show ?thesis using assms(3) by (simp add: Server_resync_all_def Let_def split_beta broadcast.keeps_empty)
next
  case (ResyncOn ch chs)
  then show ?thesis using assms(3) by (simp add: resync_on_def publish.keeps_empty)
next
  case (PublishTo i ch p)
  then show ?thesis using assms(3) by (simp add: reply_def send.keeps_empty)
next
  case (ResyncTo i chs)
  then show ?thesis using assms(3) by (simp add: reply_def send.keeps_empty)
qed (simp_all add: assms(3) Accepting_drop_def)

lemma empty_reachable:
  assumes "serde_ok S" and "mpsc_ok Q" and "sem_ok M" and big: "MAX_PERMITS < send_queue (b_config b)"
    and "reachable S Q M b s"
  shows "connections (registry (srv s)) = []"
  using assms(5)
proof induction
  case (Bound s)
  then obtain mp listen st addr where "Builder_bind mp M listen b = Inr (st, addr :: string)" and s: "s = serving st"
    by (auto simp: started_def)
  then have "registry st = Registry_new Metrics_default"
    by (cases "Config_validate mp (b_config b)"; cases "listen ()") (auto simp: Builder_bind_def)
  then show ?case by (simp add: s serving_def Registry_new_def)
next
  case (Step s s')
  then show ?case using empty_server_step [OF Step(2) reachable_inv [OF assms(1-3) Step(1)] Step(3) big] by simp
qed

text \<open>
  C28: Validation does not see a queue longer than a channel can be: every valid configuration stays
  valid when \<open>send_queue\<close> is set above \<^verbatim>\<open>Semaphore::MAX_PERMITS\<close>, \<^verbatim>\<open>bind\<close> succeeds and the server accepts
  and authenticates clients, but in no reachable state is one of them registered, since every task that
  has acknowledged its client panics where it creates the queue. The comment on \<^verbatim>\<open>validate\<close> says that
  it rejects values that would panic inside the runtime.
\<close>

theorem oversized_queue_panics_at_registration:
  assumes ok: "serde_ok S" "mpsc_ok Q" "sem_ok M" and valid: "Config_validate MAX_PERMITS c = Inr ()"
    and b: "b_config b = c\<lparr>send_queue := n\<rparr>" and n: "MAX_PERMITS < n"
  shows "(\<exists>st :: ('q, 's) shared. Builder_bind MAX_PERMITS M (\<lambda>_. Inr addr) b = Inr (st, addr)) \<and>
    (\<forall>s. reachable S Q M b s \<longrightarrow> Server_connections (srv s) = 0 \<and>
      (\<forall>k t0. k < length (tasks s) \<and> phase (tasks s ! k) = Acked \<and> next_id (registry (srv s)) \<noteq> - 1 \<longrightarrow>
        sys_exec S Q M (EvTask k (Register t0)) s =
          Some (s\<lparr>tasks := (tasks s)[k := (tasks s ! k)\<lparr>phase := Finished Panicked\<rparr>]\<rparr>)))"
proof (intro conjI allI impI)
  have big: "MAX_PERMITS < send_queue (b_config b)" by (simp add: b n)
  show "\<exists>st :: ('q, 's) shared. Builder_bind MAX_PERMITS M (\<lambda>_. Inr addr) b = Inr (st, addr)"
    using Config_validate_send_queue [OF valid, of n] n by (simp add: Builder_bind_def b)
  fix s assume r: "reachable S Q M b s"
  show "Server_connections (srv s) = 0"
    using empty_reachable [OF ok big r] by (simp add: Server_connections_def Registry_len_def)
  fix k t0 assume k: "k < length (tasks s) \<and> phase (tasks s ! k) = Acked \<and> next_id (registry (srv s)) \<noteq> - 1"
  note inv = reachable_inv [OF ok r]
  have "task_ok S b (tasks s ! k)" using inv_task_ok [OF inv] k by simp
  then obtain cl where "who (tasks s ! k) = Some cl" using k by (auto simp: task_ok_def split: option.splits)
  moreover have "MAX_PERMITS < send_queue (config (srv s))" using inv big by (simp add: sys_inv_def setup_ok_def)
  ultimately show "sys_exec S Q M (EvTask k (Register t0)) s =
      Some (s\<lparr>tasks := (tasks s)[k := (tasks s ! k)\<lparr>phase := Finished Panicked\<rparr>]\<rparr>)"
    using k by (simp add: connection_step_def on_acked_def)
qed

theorem oversized_queue_panics_at_registration_witness:
  "reachable demo_serde ref_mpsc ref_sem big_builder big_state \<and> map phase (tasks big_state) = [Acked] \<and>
   Server_connections (srv big_state) = 0 \<and>
   (\<exists>s'. sys_exec demo_serde ref_mpsc ref_sem (EvTask 0 (Register 0)) big_state = Some s' \<and>
      map phase (tasks s') = [Finished Panicked])"
proof -
  let ?s0 = "demo_start\<lparr>srv := (srv demo_start)\<lparr>config := b_config big_builder\<rparr>\<rparr>"
  have bind: "Builder_bind MAX_PERMITS ref_sem (\<lambda>_. Inr ''a'') big_builder = Inr (srv ?s0, ''a'')"
    and valid: "Config_validate MAX_PERMITS demo_config = Inr ()"
    and big: "b_config big_builder = demo_config\<lparr>send_queue := 2 ^ 61\<rparr>" "MAX_PERMITS < 2 ^ 61"
    by (simp_all add: Builder_bind_def Config_validate_def big_builder_def demo_builder_def demo_config_def
        Config_default_def from_secs_def demo_start_def serving_def ref_sem_def MAX_PERMITS_def)
  from bind have "started ref_sem big_builder ?s0"
    unfolding started_def by (intro exI conjI, assumption) (simp add: serving_def demo_start_def)
  moreover have run: "\<exists>s. sys_run demo_serde ref_mpsc ref_sem (take 4 demo_events) ?s0 = Some s \<and>
      map phase (tasks s) = [Acked] \<and> next_id (registry (srv s)) \<noteq> - 1"
    by (simp add: demo_defs demo_eval)
  ultimately have r: "reachable demo_serde ref_mpsc ref_sem big_builder big_state"
    unfolding big_state_def by (metis option.sel reachable.Bound sys_run_reachable)
  have ph: "map phase (tasks big_state) = [Acked]" "next_id (registry (srv big_state)) \<noteq> - 1"
    using run by (auto simp: big_state_def)
  obtain t where t: "tasks big_state = [t]" "phase t = Acked" using ph(1) by auto
  show ?thesis
    using oversized_queue_panics_at_registration [OF demo_ok valid big, of "''a''", THEN conjunct2, rule_format, OF r] r ph t
    by (simp del: sys_exec.simps)
qed

text \<open>
  No task is ever stuck, other than one whose close hangs: from every reachable state, every task
  that is not waiting for its close can be brought to its end, permit returned, by inputs of its
  own, none of them a panic.
\<close>

theorem every_task_can_end:
  assumes "serde_ok S" and "mpsc_ok Q" and "sem_ok M" and "reachable S Q M b s"
    and "t \<in> set (tasks s)" and "\<forall>i. phase t \<noteq> ParkedAt i"
  shows "can_end S Q M (t, srv s)"
proof -
  have ok: "task_ok S b t" by (rule inv_task_ok [OF reachable_inv [OF assms(1-4)] assms(5)])
  show ?thesis
    using ok assms(6)
    by (cases "phase t"; cases "who t") (simp_all add: task_ok_def can_end_intros)
qed

theorem every_task_can_end_witness:
  "can_end demo_serde ref_mpsc ref_sem (hd (tasks (demo_state demo_events)), srv (demo_state demo_events))"
proof (rule every_task_can_end [OF demo_ok demo_state_reachable demo_one_task(3)])
  have "map phase (tasks (demo_state demo_events)) = [Checking (ConnectionId 1) 1]"
    by (simp add: demo_state_def demo_defs demo_eval)
  then have "phase (hd (tasks (demo_state demo_events))) = Checking (ConnectionId 1) 1"
    by (cases "tasks (demo_state demo_events)") auto
  then show "\<forall>i. phase (hd (tasks (demo_state demo_events))) \<noteq> ParkedAt i" by simp
qed

end
