(* ===== verification/Session_Steps.thy ===== *)
theory Session_Steps
  imports System
begin

text \<open>
  The two models of a session agree. \<open>Session\<close> has an iteration of the loop as one function;
  \<open>Lifecycle\<close> has it as steps between which others act. Run without interference, the steps are the iteration;
  and with any interference, the steps of the handler come to an end, after a number of them that the
  configuration bounds.
\<close>

section \<open>One iteration\<close>

text \<open>What a wake-up delivers: the event of the loop, and the shared state once a frame was taken from the queue.\<close>

fun wake_event ::
    "('q, 'x) mpsc_scheme \<Rightarrow> connection_id \<Rightarrow> wake \<Rightarrow> ('q, 's) shared \<Rightarrow> (event \<times> ('q, 's) shared) option" where
  "wake_event Q i WakeOutbound st =
     (case map_of (connections (registry st)) i of
        None \<Rightarrow> Some (Outbound None, st)
      | Some c \<Rightarrow> map_option (\<lambda>f. (Outbound (Some f), set_tx i (\<lambda>q. snd (recv Q q)) st)) (fst (recv Q (tx c))))"
| "wake_event Q i (WakeInbound m) st = Some (Inbound m, st)"
| "wake_event Q i WakeTick st = Some (Tick, st)"

section \<open>The handler under interference\<close>

text \<open>
  The steps of a task in the handler, each on whatever shared state the others have left by then.
\<close>

fun handling_run ::
    "serde \<Rightarrow> ('q, 'x) mpsc_scheme \<Rightarrow> ('s, 'y) semaphore_scheme \<Rightarrow> ('q, 's) shared list \<Rightarrow> task \<Rightarrow> task" where
  "handling_run S Q M [] t = t"
| "handling_run S Q M (st # sts) t =
     (case connection_step S Q M Act t st of None \<Rightarrow> t | Some (t', _) \<Rightarrow> handling_run S Q M sts t')"

fun act_weight :: "act \<Rightarrow> nat" where
  "act_weight (SendFrame _) = 1"
| "act_weight (SendSnapshot _) = 2"

definition acts_weight :: "act list \<Rightarrow> nat" where
  "acts_weight acts = sum_list (map act_weight acts)"

section \<open>The steps are the iteration\<close>

lemma task_run_Cons_Some:
  "connection_step S Q M inp t st = Some r \<Longrightarrow> task_run S Q M (inp # inps) (t, st) = task_run S Q M inps r"
  by simp

text \<open>The check at the end of an iteration.\<close>

lemma sess_eta: "\<lparr>last_seen = last_seen ss, written = written ss\<rparr> = ss"
  by (cases ss) simp

lemma after_branch_update [simp]:
  "after_branch Q i nxt (t\<lparr>phase := p\<rparr>) r = after_branch Q i nxt t r"
  "after_branch Q i nxt (t\<lparr>wire := w\<rparr>) r = after_branch Q i nxt t r"
  by (auto simp: after_branch_def Let_def leave_session_def split: prod.splits ctl.splits)

lemma check_step:
  assumes "who t = Some cl" and "phase t = Checking i (last_seen ss)" and "wire t = written ss"
  shows "connection_step S Q M (Check e) t st =
    Some (after_branch Q i Running t
      (if Registry_drops i (registry st) \<ge> max_consecutive_drops (config st)
       then (case close_sink TooSlow e ss of (c, ss') \<Rightarrow> (c, ss', st)) else (Continue, ss, st)))"
proof -
  have "after_branch Q i Running t (Continue, ss, st) = (t\<lparr>phase := Running i (last_seen ss)\<rparr>, st)"
    using assms(3) by (simp add: after_branch_def Let_def)
  then show ?thesis
    using assms by (simp add: connection_step_def on_checking_def Let_def sess_eta split: prod.splits)
qed

text \<open>The rest of an iteration once its branch is done, and the check that follows a branch that continues.\<close>

lemma check_ends_iteration:
  assumes "select_body S Q i cl ev e st0 sh = (Continue, ss, sh')"
    and "who t = Some cl" and "phase t = Checking i (last_seen ss)" and "wire t = written ss"
  shows "connection_step S Q M (Check e) t sh' =
    Some (after_branch Q i Running t (session_iter S Q i cl ev e st0 sh))"
  using check_step [OF assms(2-4), of S Q M e sh'] assms(1) by (simp add: session_iter_def)

lemma branch_then_check:
  assumes t: "who t = Some cl" and sel: "select_body S Q i cl ev e st0 sh = (c, ss, sh')"
    and step: "connection_step S Q M inp t sh0 = Some (after_branch Q i Checking t (c, ss, sh'))"
  shows "\<exists>inps. set inps \<subseteq> {inp, Check e} \<and>
    task_run S Q M inps (t, sh0) = Some (after_branch Q i Running t (session_iter S Q i cl ev e st0 sh))"
proof (cases "c = Continue")
  case True
  let ?t = "t\<lparr>wire := written ss, phase := Checking i (last_seen ss)\<rparr>"
  have "after_branch Q i Checking t (c, ss, sh') = (?t, sh')" using True by (simp add: after_branch_def Let_def)
  moreover have "connection_step S Q M (Check e) ?t sh' =
      Some (after_branch Q i Running t (session_iter S Q i cl ev e st0 sh))"
    using check_ends_iteration [OF sel [unfolded True], of ?t M] t by simp
  ultimately have "task_run S Q M [inp, Check e] (t, sh0) =
      Some (after_branch Q i Running t (session_iter S Q i cl ev e st0 sh))"
    using step by simp
  then show ?thesis by (intro exI [of _ "[inp, Check e]"]) simp
next
  case False
  then have "after_branch Q i Checking t (c, ss, sh') = after_branch Q i Running t (session_iter S Q i cl ev e st0 sh)"
    using sel by (cases c) (simp_all add: session_iter_def after_branch_def Let_def)
  with step show ?thesis by (intro exI [of _ "[inp]"]) simp
qed

text \<open>A wake-up other than a text message is one step and the check.\<close>

lemma select_step:
  assumes t: "who t = Some cl" "phase t = Running i ls" and w: "wake_event Q i wk sh = Some (ev, sh')"
    and wk: "\<forall>msg. wk \<noteq> WakeInbound (Some (Inr (Text msg)))"
  shows "connection_step S Q M (Select wk e) t sh =
    Some (after_branch Q i Checking t (select_body S Q i cl ev e \<lparr>last_seen = ls, written = wire t\<rparr> sh'))"
proof (cases wk)
  case WakeOutbound
  then show ?thesis using t w by (auto simp: connection_step_def on_running_def split: option.splits)
next
  case (WakeInbound m)
  then show ?thesis
    using t w wk
    by (auto simp: connection_step_def on_running_def Let_def split: option.splits sum.splits message.splits)
qed (use t w in \<open>simp add: connection_step_def on_running_def\<close>)

text \<open>Such a step can only be taken when the wake-up delivers something.\<close>

lemma select_step_wakes:
  assumes "who t = Some cl" and "phase t = Running i ls" and "connection_step S Q M (Select wk e) t sh = Some r"
  shows "\<exists>ev sh'. wake_event Q i wk sh = Some (ev, sh')"
  using assms by (cases wk) (auto simp: connection_step_def on_running_def split: option.splits)

text \<open>A text message is a step, the handler's steps and the check.\<close>

lemma text_steps:
  assumes t: "who t = Some cl" "phase t = Running i ls"
  shows "\<exists>n. task_run S Q M (Select (WakeInbound (Some (Inr (Text msg)))) e # replicate n Act @ [Check e]) (t, sh) =
    Some (after_branch Q i Running t
      (session_iter S Q i cl (Inbound (Some (Inr (Text msg)))) e \<lparr>last_seen = ls, written = wire t\<rparr> sh))"
    (is "\<exists>n. ?run n = Some ?end")
proof -
  let ?ss = "\<lparr>last_seen = now e, written = wire t\<rparr>" and ?t = "t\<lparr>phase := Checking i (now e)\<rparr>"
  obtain acts st where h: "handle_begin S msg i cl sh = (acts, st)" by (metis prod.exhaust)
  obtain sh' where b: "on_inbound S Q i cl (Text msg) e ?ss sh = (Continue, ?ss, sh')"
    by (cases "handle S Q msg i cl sh"; cases "fst (handle S Q msg i cl sh)") (auto simp: on_inbound_def)
  have "connection_step S Q M (Select (WakeInbound (Some (Inr (Text msg)))) e) t sh =
      Some (t\<lparr>phase := Handling i (now e) acts\<rparr>, st)"
    using t by (simp add: connection_step_def on_running_def h)
  moreover obtain n where "act_steps S Q M n (t\<lparr>phase := Handling i (now e) acts\<rparr>, st) =
      Some (?t, fold (act_effect S Q i) acts st)"
    using act_steps_effect [OF t(1)] by blast
  moreover have "fold (act_effect S Q i) acts st = sh'"
    using handle_effect [of S Q i msg cl sh e ?ss] h b by simp
  moreover have "connection_step S Q M (Check e) ?t sh' = Some ?end"
    using check_ends_iteration [of S Q i cl "Inbound (Some (Inr (Text msg)))" e _ sh ?ss sh' ?t M] b t(1)
    by (simp add: select_body_def)
  ultimately have "?run n = Some ?end" by (simp add: task_run_append act_steps_run)
  then show ?thesis ..
qed

section \<open>The handler comes to an end\<close>

lemma handling_run_ends:
  assumes "who t = Some cl" and "acts_weight acts < length sts"
  shows "phase (handling_run S Q M sts (t\<lparr>phase := Handling i ls acts\<rparr>)) = Checking i ls"
  using assms(2)
proof (induction sts arbitrary: acts)
  case (Cons st sts)
  show ?case
  proof (cases acts)
    case Nil
    then show ?thesis
      using assms(1)
      by (cases sts) (simp_all add: connection_step_def on_handling_def on_checking_def)
  next
    case (Cons a rest)
    have "acts_weight (fst (act_step S Q i a st) @ rest) < acts_weight acts"
      by (auto simp: Cons act_step_def acts_weight_def split: act.splits option.splits)
    then have "acts_weight (fst (act_step S Q i a st) @ rest) < length sts" using Cons.prems by simp
    from Cons.IH [OF this] show ?thesis
      using assms(1) Cons by (cases "act_step S Q i a st") (simp add: connection_step_def on_handling_def)
  qed
qed simp

lemma subscribe_added_bound:
  assumes "registry_inv reg" and "Registry_subscribe i chs mx reg = ((added, over), reg')"
  shows "length added \<le> mx"
proof (cases "map_of (connections reg) i")
  case None
  then show ?thesis using assms(2) by (simp add: subscribe_unknown)
next
  case (Some c)
  from subscribe_known(1) [OF assms(1) Some assms(2)] show ?thesis by simp
qed

lemma handle_begin_weight:
  assumes "registry_inv (registry st)"
  shows "acts_weight (fst (handle_begin S msg i cl st)) \<le> 2 * max_subscriptions (config st) + 1"
proof -
  have "acts_weight (map SendSnapshot chs) = 2 * length chs" for chs
    by (induction chs) (simp_all add: acts_weight_def)
  then have "acts_weight (fst (subscribe_begin S chs i cl st)) \<le> 2 * max_subscriptions (config st) + 1" for chs
    using subscribe_added_bound [OF assms]
    by (auto simp: subscribe_begin_eq acts_weight_def split: prod.splits)
  then show ?thesis
    by (auto simp: handle_begin_def acts_weight_def Let_def split: sum.splits client_message.splits prod.splits)
qed

section \<open>Properties\<close>

text \<open>
  C19: The two accounts of a session are one. When nobody else acts in between, what the runtime delivers to a running
  session leads the task, by its own steps for that event, to exactly what one iteration of the loop
  computes: the same control flow, the same messages on the wire, the same shared state. The steps are the
  branch of \<open>select!\<close>, the handler's queueing one frame at a time if the event is a text message, and the
  slow-client check.
\<close>

theorem session_iteration_composes:
  assumes "who t = Some cl" and "phase t = Running i ls" and "wake_event Q i wk sh = Some (ev, sh')"
  shows "\<exists>inps. set inps \<subseteq> {Select wk e, Act, Check e} \<and>
    task_run S Q M inps (t, sh) =
      Some (after_branch Q i Running t (session_iter S Q i cl ev e \<lparr>last_seen = ls, written = wire t\<rparr> sh'))"
proof (cases "\<exists>msg. wk = WakeInbound (Some (Inr (Text msg)))")
  case True
  then obtain msg where wk: "wk = WakeInbound (Some (Inr (Text msg)))" ..
  then have ev: "ev = Inbound (Some (Inr (Text msg)))" "sh' = sh" using assms(3) by auto
  obtain n where run: "task_run S Q M (Select wk e # replicate n Act @ [Check e]) (t, sh) =
      Some (after_branch Q i Running t (session_iter S Q i cl ev e \<lparr>last_seen = ls, written = wire t\<rparr> sh'))"
    using text_steps [OF assms(1,2)] unfolding wk ev by blast
  show ?thesis by (rule exI, rule conjI [OF _ run]) auto
next
  case False
  obtain c ss sh'' where sel: "select_body S Q i cl ev e \<lparr>last_seen = ls, written = wire t\<rparr> sh' = (c, ss, sh'')"
    by (metis prod.exhaust)
  from branch_then_check [OF assms(1) sel, of M "Select wk e" sh] select_step [OF assms, of S M e] False sel
  show ?thesis by auto
qed

theorem session_iteration_composes_witness:
  "\<exists>inps. task_run demo_serde ref_mpsc ref_sem inps
      (\<lparr>phase = Running (ConnectionId 1) 0, who = Some demo_claims, wire = []\<rparr>, srv demo_start) =
    Some (after_branch ref_mpsc (ConnectionId 1) Running
      \<lparr>phase = Running (ConnectionId 1) 0, who = Some demo_claims, wire = []\<rparr>
      (session_iter demo_serde ref_mpsc (ConnectionId 1) demo_claims Tick (quiet 1)
        \<lparr>last_seen = 0, written = []\<rparr> (srv demo_start)))"
  using session_iteration_composes
    [of "\<lparr>phase = Running (ConnectionId 1) 0, who = Some demo_claims, wire = []\<rparr>" demo_claims "ConnectionId 1" 0
      ref_mpsc WakeTick "srv demo_start" Tick "srv demo_start" "quiet 1" demo_serde ref_sem]
  by auto

text \<open>
  C21: The handler of a text message comes to an end whatever the others do meanwhile. After the message is
  taken, at most \<open>2 * max_subscriptions + 2\<close> steps of the task lead to the slow-client check, on
  whatever shared states the other tasks and the publishers leave between these steps, however many channels the message names.
\<close>

theorem handler_ends_under_interference:
  assumes "registry_inv (registry st)" and "who t = Some cl" and "phase t = Running i ls"
    and step: "connection_step S Q M (Select (WakeInbound (Some (Inr (Text msg)))) e) t st = Some (t', st')"
    and "2 * max_subscriptions (config st) + 2 \<le> length sts"
  shows "phase (handling_run S Q M sts t') = Checking i (now e)"
proof -
  have "t' = t\<lparr>phase := Handling i (now e) (fst (handle_begin S msg i cl st))\<rparr>"
    using step assms(2,3) by (auto simp: connection_step_def on_running_def split: prod.splits)
  moreover have "acts_weight (fst (handle_begin S msg i cl st)) < length sts"
    using handle_begin_weight [OF assms(1), of S msg i cl] assms(5) by linarith
  ultimately show ?thesis using handling_run_ends [OF assms(2)] by simp
qed

theorem handler_ends_under_interference_witness:
  "\<exists>t' st'. connection_step demo_serde ref_mpsc ref_sem (Select (WakeInbound (Some (Inr (Text ''S'')))) (quiet 1))
      \<lparr>phase = Running (ConnectionId 1) 0, who = Some demo_claims, wire = []\<rparr> (srv demo_start) = Some (t', st') \<and>
    phase (handling_run demo_serde ref_mpsc ref_sem (replicate 6 (srv demo_start)) t') = Checking (ConnectionId 1) 1"
proof -
  let ?t = "\<lparr>phase = Running (ConnectionId 1) 0, who = Some demo_claims, wire = []\<rparr>"
  have start: "registry_inv (registry (srv demo_start))" "max_subscriptions (config (srv demo_start)) = 2"
    using reachable_inv [OF demo_ok demo_reachable]
    by (simp_all add: sys_inv_def demo_start_def serving_def demo_config_def)
  obtain t' st' where step: "connection_step demo_serde ref_mpsc ref_sem
      (Select (WakeInbound (Some (Inr (Text ''S'')))) (quiet 1)) ?t (srv demo_start) = Some (t', st')"
    by (cases "handle_begin demo_serde ''S'' (ConnectionId 1) demo_claims (srv demo_start)")
      (simp add: connection_step_def on_running_def)
  have "phase (handling_run demo_serde ref_mpsc ref_sem (replicate 6 (srv demo_start)) t') =
      Checking (ConnectionId 1) (now (quiet 1 :: (chan, nat) env))"
    by (rule handler_ends_under_interference [OF start(1) _ _ step, where cl = demo_claims and ls = 0])
      (simp_all add: start(2))
  with step show ?thesis by (auto simp: quiet_simps)
qed

end
