(* ===== verification/Progress.thy ===== *)
theory Progress
  imports Session_Steps
begin

text \<open>
  What the server gets done in runs that never end. A run is an infinite sequence of steps, each
  labelled with the task that took it or as a step of somebody else. Under a runtime that keeps
  scheduling tasks and keeps firing the heartbeat timer, a client that has fallen silent is removed:
  its task ends, its connection leaves the registry for good and its permit comes back.
\<close>

section \<open>Runs\<close>

datatype ('q, 's) label = ByTask nat "('q, 's) input" | ByOther

text \<open>A step of somebody else leaves the tasks as they are, apart from one that may be added.\<close>

fun labelled_step ::
    "serde \<Rightarrow> ('q, 'x) mpsc_scheme \<Rightarrow> ('s, 'y) semaphore_scheme \<Rightarrow> ('q, 's) label \<Rightarrow> ('q, 's) sys \<Rightarrow> ('q, 's) sys \<Rightarrow>
     bool" where
  "labelled_step S Q M (ByTask k inp) s s' \<longleftrightarrow> sys_exec S Q M (EvTask k inp) s = Some s'"
| "labelled_step S Q M ByOther s s' \<longleftrightarrow> server_step S Q M s s' \<and> take (length (tasks s)) (tasks s') = tasks s"

definition is_run ::
    "serde \<Rightarrow> ('q, 'x) mpsc_scheme \<Rightarrow> ('s, 'y) semaphore_scheme \<Rightarrow> builder \<Rightarrow> (nat \<Rightarrow> ('q, 's) label) \<Rightarrow>
     (nat \<Rightarrow> ('q, 's) sys) \<Rightarrow> bool" where
  "is_run S Q M b lab \<sigma> \<longleftrightarrow> reachable S Q M b (\<sigma> 0) \<and> (\<forall>n. labelled_step S Q M (lab n) (\<sigma> n) (\<sigma> (Suc n)))"

definition phase_at :: "(nat \<Rightarrow> ('q, 's) sys) \<Rightarrow> nat \<Rightarrow> nat \<Rightarrow> phase" where
  "phase_at \<sigma> k n = phase (tasks (\<sigma> n) ! k)"

section \<open>What the runtime, the network and the peer do\<close>

fun is_running :: "phase \<Rightarrow> bool" where
  "is_running (Running _ _) = True"
| "is_running _ = False"

fun is_parked :: "phase \<Rightarrow> bool" where
  "is_parked (ParkedAt _) = True"
| "is_parked _ = False"

text \<open>
  The runtime keeps polling a task that has something to do. In a handshake, an authentication or a
  write, this also says that the future completes or its timeout elapses; for the acknowledgement and
  the refusal, which the code writes without a deadline, it says that the write completes or fails.
\<close>

definition scheduled :: "(nat \<Rightarrow> ('q, 's) label) \<Rightarrow> (nat \<Rightarrow> ('q, 's) sys) \<Rightarrow> nat \<Rightarrow> bool" where
  "scheduled lab \<sigma> k \<longleftrightarrow>
     (\<forall>n. \<not> is_running (phase_at \<sigma> k n) \<longrightarrow> \<not> is_parked (phase_at \<sigma> k n) \<longrightarrow> phase_at \<sigma> k n \<noteq> Ended \<longrightarrow>
        (\<exists>m \<ge> n. \<exists>inp. lab m = ByTask k inp))"

text \<open>
  A session that comes back to its \<^verbatim>\<open>select!\<close> again and again sees the heartbeat fire again and
  again, at later and later instants.
\<close>

definition ticking :: "(nat \<Rightarrow> ('q, 's) label) \<Rightarrow> (nat \<Rightarrow> ('q, 's) sys) \<Rightarrow> nat \<Rightarrow> bool" where
  "ticking lab \<sigma> k \<longleftrightarrow>
     ((\<forall>n. \<exists>m \<ge> n. is_running (phase_at \<sigma> k m)) \<longrightarrow>
      (\<forall>n instant. \<exists>m \<ge> n. \<exists>e. lab m = ByTask k (Select WakeTick e) \<and> instant < now e))"

definition silent_from :: "(nat \<Rightarrow> ('q, 's) label) \<Rightarrow> nat \<Rightarrow> nat \<Rightarrow> bool" where
  "silent_from lab k n \<longleftrightarrow> (\<forall>m \<ge> n. \<forall>msg e. lab m \<noteq> ByTask k (Select (WakeInbound (Some msg)) e))"

fun close_completes :: "('q, 's) input \<Rightarrow> bool" where
  "close_completes (Select _ e) \<longleftrightarrow> io_close e \<noteq> None"
| "close_completes (Check e) \<longleftrightarrow> io_close e \<noteq> None"
| "close_completes _ \<longleftrightarrow> True"

definition closing_from :: "(nat \<Rightarrow> ('q, 's) label) \<Rightarrow> nat \<Rightarrow> nat \<Rightarrow> bool" where
  "closing_from lab k n \<longleftrightarrow> (\<forall>m \<ge> n. \<forall>inp. lab m = ByTask k inp \<longrightarrow> close_completes inp)"

section \<open>Stages of a task\<close>

text \<open>How far a task is from its end; its session is one stage.\<close>

fun stage :: "phase \<Rightarrow> nat" where
  "stage Handshaking = 7"
| "stage Authenticating = 6"
| "stage (Refusing _) = 5"
| "stage Acking = 5"
| "stage Acked = 4"
| "stage (Running _ _) = 3"
| "stage (Handling _ _ _) = 3"
| "stage (Checking _ _) = 3"
| "stage (ParkedAt _) = 8"
| "stage (Unwinding _ _) = 2"
| "stage (Finished _) = 1"
| "stage Ended = 0"

text \<open>Inside the session: the instant of the last traffic, and the steps until the next \<^verbatim>\<open>select!\<close>.\<close>

fun seen :: "phase \<Rightarrow> nat option" where
  "seen (Running _ ls) = Some ls"
| "seen (Handling _ ls _) = Some ls"
| "seen (Checking _ ls) = Some ls"
| "seen _ = None"

fun to_select :: "phase \<Rightarrow> nat" where
  "to_select (Handling _ _ acts) = acts_weight acts + 2"
| "to_select (Checking _ _) = 1"
| "to_select _ = 0"

section \<open>Every step of the server can be labelled\<close>

lemma step_is_labelled:
  assumes step: "server_step S Q M s s'"
  shows "\<exists>l. labelled_step S Q M l s s'"
  using step
proof cases
  case (Task k inp t st)
  then show ?thesis by (intro exI [of _ "ByTask k inp"]) simp
qed (use step in \<open>auto intro!: exI [of _ ByOther] simp: serve_accept_def Accepting_drop_def split: option.splits\<close>)

lemma labelled_is_step: "labelled_step S Q M l s s' \<Longrightarrow> server_step S Q M s s'"
  by (cases l) (auto simp del: sys_exec.simps dest: sys_exec_step)

lemma run_reachable: "is_run S Q M b lab \<sigma> \<Longrightarrow> reachable S Q M b (\<sigma> n)"
  by (induction n) (auto simp: is_run_def intro: reachable.Step labelled_is_step)

text \<open>A task is changed by its own steps only, and is never forgotten.\<close>

lemma other_label:
  assumes "labelled_step S Q M l s s'" and "k < length (tasks s)" and "\<forall>inp. l \<noteq> ByTask k inp"
  shows "k < length (tasks s') \<and> tasks s' ! k = tasks s ! k"
proof (cases l)
  case (ByTask j inp)
  then show ?thesis using assms by (auto split: if_splits option.splits)
next
  case ByOther
  then have eq: "take (length (tasks s)) (tasks s') = tasks s" using assms(1) by simp
  then have "length (tasks s) \<le> length (tasks s')" by (metis length_take min.cobounded1)
  with eq assms(2) show ?thesis by (metis nth_take order_less_le_trans)
qed

lemma own_label:
  assumes "labelled_step S Q M (ByTask k inp) s s'"
  obtains t st where "connection_step S Q M inp (tasks s ! k) (srv s) = Some (t, st)"
    and "k < length (tasks s)" and "s' = s\<lparr>srv := st, tasks := (tasks s)[k := t]\<rparr>"
    and "next_id (registry (srv s)) \<noteq> - 1"
  using assms by (auto split: if_splits)

lemma run_length:
  assumes run: "is_run S Q M b lab \<sigma>" and "k < length (tasks (\<sigma> n))" and "n \<le> m"
  shows "k < length (tasks (\<sigma> m))"
  using assms(3,2)
proof (induction rule: dec_induct)
  case (step m)
  have l: "labelled_step S Q M (lab m) (\<sigma> m) (\<sigma> (Suc m))" using run by (simp add: is_run_def)
  show ?case
  proof (cases "\<exists>inp. lab m = ByTask k inp")
    case True
    then show ?thesis using l step by (auto elim!: own_label simp del: labelled_step.simps)
  qed (use other_label [OF l] step in blast)
qed

text \<open>Until its next step, a task waits in its phase.\<close>

lemma waits:
  assumes run: "is_run S Q M b lab \<sigma>" and k: "k < length (tasks (\<sigma> n))" and "n \<le> m"
    and "\<forall>j. n \<le> j \<longrightarrow> j < m \<longrightarrow> (\<forall>inp. lab j \<noteq> ByTask k inp)"
  shows "tasks (\<sigma> m) ! k = tasks (\<sigma> n) ! k"
  using assms(3,4)
proof (induction rule: dec_induct)
  case (step m)
  have "labelled_step S Q M (lab m) (\<sigma> m) (\<sigma> (Suc m))" using run by (simp add: is_run_def)
  from other_label [OF this run_length [OF run k step.hyps(1)]] step show ?case by simp
qed simp

text \<open>The next step of a task that takes one, with the task as it has been until then.\<close>

lemma next_step:
  assumes run: "is_run S Q M b lab \<sigma>" and k: "k < length (tasks (\<sigma> n))"
    and "\<exists>m \<ge> n. \<exists>inp. lab m = ByTask k inp"
  obtains m inp where "n \<le> m" and "lab m = ByTask k inp" and "tasks (\<sigma> m) ! k = tasks (\<sigma> n) ! k"
proof -
  let ?P = "\<lambda>m. n \<le> m \<and> (\<exists>inp. lab m = ByTask k inp)"
  obtain m where m: "?P m" and least: "\<forall>j < m. \<not> ?P j"
    using assms(3) exists_least_iff [of ?P] by blast
  then obtain inp where "lab m = ByTask k inp" by blast
  moreover have "tasks (\<sigma> m) ! k = tasks (\<sigma> n) ! k"
    using m least by (intro waits [OF run k]) auto
  ultimately show thesis using m that by blast
qed

section \<open>One step of a task\<close>

lemma after_branch_phase:
  "phase (fst (after_branch Q i nxt t (c, ss, st))) =
     (case c of
        Continue \<Rightarrow> nxt i (last_seen ss)
      | Stop _ \<Rightarrow> Unwinding i (Returned (Inr ()))
      | Return e \<Rightarrow> Unwinding i (Returned (Inl e))
      | Parked \<Rightarrow> ParkedAt i)"
  by (simp add: after_branch_def leave_session_def Let_def split: ctl.splits)

lemma write_msg_cases:
  "write_msg m e ss = (c, ss') \<Longrightarrow> c \<noteq> Parked \<and> last_seen ss' = last_seen ss"
  by (auto simp: write_msg_def split: sum.splits)

lemma close_sink_cases:
  "close_sink w e ss = (c, ss') \<Longrightarrow> c \<noteq> Continue \<and> (io_close e \<noteq> None \<longrightarrow> c \<noteq> Parked)"
  by (auto simp: close_sink_def split: option.splits sum.splits)

lemma on_inbound_cases:
  "on_inbound S Q i cl m e ss st = (c, ss', st') \<Longrightarrow> c \<noteq> Parked"
  by (auto simp: on_inbound_def dest: write_msg_cases split: message.splits prod.splits option.splits)

text \<open>A branch parks only at a close that hangs; without traffic it keeps \<open>last_seen\<close>, and a late tick does not continue.\<close>

lemma select_body_parks:
  "select_body S Q i cl ev e ss st = (c, ss', st') \<Longrightarrow> io_close e \<noteq> None \<Longrightarrow> c \<noteq> Parked"
  by (auto simp: select_body_def Let_def dest: write_msg_cases close_sink_cases on_inbound_cases
      split: event.splits option.splits sum.splits prod.splits if_splits)

lemma select_body_silent:
  assumes "select_body S Q i cl ev e ss st = (Continue, ss', st')" and "\<forall>msg. ev \<noteq> Inbound (Some msg)"
  shows "last_seen ss' = last_seen ss \<and> (ev = Tick \<longrightarrow> now e \<le> last_seen ss + heartbeat_timeout (config st))"
  using assms
  by (auto simp: select_body_def dest: write_msg_cases close_sink_cases
      split: event.splits option.splits prod.splits if_splits)

lemma branch_stage:
  assumes "phase (fst (after_branch Q i nxt t r)) = p" and "fst r \<noteq> Parked"
    and "\<And>ls. stage (nxt i ls) = 3 \<and> seen (nxt i ls) = Some ls"
  shows "stage p < 3 \<or> fst r = Continue \<and> seen p = Some (last_seen (fst (snd r))) \<and> p = nxt i (last_seen (fst (snd r)))"
  using assms by (cases r; cases "fst r") (auto simp: after_branch_phase)

lemma running_step:
  assumes t: "who t = Some cl" "phase t = Running i ls" and step: "connection_step S Q M inp t st = Some (t', st')"
  obtains (Branch) wk e ev st0 where "inp = Select wk e" and "wake_event Q i wk st = Some (ev, st0)"
      and "(t', st') = after_branch Q i Checking t (select_body S Q i cl ev e \<lparr>last_seen = ls, written = wire t\<rparr> st0)"
    | (Text) msg e acts where "inp = Select (WakeInbound (Some (Inr (Text msg)))) e" and "phase t' = Handling i (now e) acts"
      and "handle_begin S msg i cl st = (acts, st')"
    | (Panic) "inp = Panic" and "phase t' = Unwinding i Panicked" and "st' = set_tx i (drop_rx Q) st"
proof (cases inp)
  case (Select wk e)
  show ?thesis
  proof (cases "\<exists>msg. wk = WakeInbound (Some (Inr (Text msg)))")
    case True
    then show ?thesis
      using t step Select Text by (auto simp: connection_step_def on_running_def split: prod.splits)
  next
    case False
    obtain ev st0 where w: "wake_event Q i wk st = Some (ev, st0)"
      using select_step_wakes [OF t] step Select by blast
    have "connection_step S Q M (Select wk e) t st =
        Some (after_branch Q i Checking t (select_body S Q i cl ev e \<lparr>last_seen = ls, written = wire t\<rparr> st0))"
      using False by (intro select_step [OF t w]) simp
    with step Select have "(t', st') =
        after_branch Q i Checking t (select_body S Q i cl ev e \<lparr>last_seen = ls, written = wire t\<rparr> st0)" by simp
    from Branch [OF Select w this] show ?thesis .
  qed
qed (use t step Panic in \<open>auto simp: connection_step_def on_running_def leave_session_def\<close>)

lemma wake_event_cases:
  assumes "wake_event Q i wk st = Some (ev, st0)"
  shows "ev = Tick \<longleftrightarrow> wk = WakeTick" and "ev = Inbound m \<longleftrightarrow> wk = WakeInbound m" and "config st0 = config st"
  using assms by (cases wk; auto split: option.splits simp: set_tx_frame)+

lemma running_progress:
  assumes t: "who t = Some cl" "phase t = Running i ls" and step: "connection_step S Q M inp t st = Some (t', st')"
    and closes: "close_completes inp"
  shows "stage (phase t') < 3 \<or> seen (phase t') \<noteq> None"
  using t step
proof (cases rule: running_step)
  case (Branch wk e ev st0)
  let ?r = "select_body S Q i cl ev e \<lparr>last_seen = ls, written = wire t\<rparr> st0"
  have "fst ?r \<noteq> Parked"
    using select_body_parks [of S Q i cl ev e _ st0] closes Branch(1) by (cases ?r) auto
  from branch_stage [OF _ this, of Q i Checking t "phase t'"] Branch(3) show ?thesis by (metis fst_conv option.discI seen.simps(3) stage.simps(8))
qed simp_all

lemma running_silent:
  assumes t: "who t = Some cl" "phase t = Running i ls" and step: "connection_step S Q M inp t st = Some (t', st')"
    and silent: "\<forall>msg e. inp \<noteq> Select (WakeInbound (Some msg)) e" and stay: "seen (phase t') = Some ls'"
  shows "ls' = ls \<and> (\<forall>e. inp = Select WakeTick e \<longrightarrow> now e \<le> ls + heartbeat_timeout (config st))"
  using t step
proof (cases rule: running_step)
  case (Branch wk e ev st0)
  obtain c ss st1 where r: "select_body S Q i cl ev e \<lparr>last_seen = ls, written = wire t\<rparr> st0 = (c, ss, st1)"
    by (metis prod.exhaust)
  have p: "phase t' = phase (fst (after_branch Q i Checking t (c, ss, st1)))" using Branch(3) r by (metis fst_conv)
  then have c: "c = Continue" using stay by (auto simp: after_branch_phase split: ctl.splits)
  have "\<forall>msg. ev \<noteq> Inbound (Some msg)"
    using silent Branch(1) wake_event_cases(2) [OF Branch(2)] by blast
  from select_body_silent [OF r [unfolded c] this] show ?thesis
    using p c stay Branch(1) wake_event_cases(1,3) [OF Branch(2)] by (auto simp: after_branch_phase)
qed (use silent stay in auto)

lemma handling_step:
  assumes "who t = Some cl" "phase t = Handling i ls acts" and "connection_step S Q M inp t st = Some (t', st')"
  shows "inp = Panic \<and> phase t' = Unwinding i Panicked \<or>
    inp = Act \<and> seen (phase t') = Some ls \<and> to_select (phase t') < to_select (phase t)"
proof (cases acts)
  case Nil
  then show ?thesis
    using assms by (cases inp) (auto simp: connection_step_def on_handling_def leave_session_def)
next
  case (Cons a rest)
  have "acts_weight (fst (act_step S Q i a st) @ rest) < acts_weight acts"
    by (auto simp: Cons act_step_def acts_weight_def split: act.splits option.splits)
  then show ?thesis
    using assms Cons
    by (cases inp; cases "act_step S Q i a st") (auto simp: connection_step_def on_handling_def leave_session_def)
qed

lemma checking_step:
  assumes "who t = Some cl" "phase t = Checking i ls" and "connection_step S Q M inp t st = Some (t', st')"
    and "close_completes inp"
  shows "phase t' = Running i ls \<or> stage (phase t') < 3"
proof -
  obtain e where inp: "inp = Check e"
    using assms(1-3) by (cases inp) (auto simp: connection_step_def on_checking_def)
  obtain c ss where cs: "close_sink TooSlow e \<lparr>last_seen = ls, written = wire t\<rparr> = (c, ss)" by (metis prod.exhaust)
  have "stage (phase (fst (after_branch Q i Running t (c, ss, st)))) < 3"
    using close_sink_cases [OF cs] assms(4) inp by (auto simp: after_branch_phase split: ctl.splits)
  then show ?thesis
    using assms(1-3) inp cs by (auto simp: connection_step_def on_checking_def Let_def split: if_splits)
qed

text \<open>Outside the session, every step takes a task closer to its end.\<close>

lemma outside_step:
  assumes "connection_step S Q M inp t st = Some (t', st')" and "seen (phase t) = None"
  shows "stage (phase t') < stage (phase t)"
  using assms
  by (cases "phase t"; cases "who t")
    (auto simp: connection_step_def local_step_def on_handshake_def on_authenticating_def on_refusing_def on_acking_def
      Registered_drop_def permit_drop_def Let_def elim!: on_acked_cases
      split: input.splits timed.splits sum.splits prod.splits)

lemma step_progress:
  assumes step: "connection_step S Q M inp t st = Some (t', st')" and closes: "close_completes inp"
  shows "stage (phase t') < stage (phase t) \<or> seen (phase t) \<noteq> None \<and> seen (phase t') \<noteq> None"
proof (cases "who t")
  case None
  then have "seen (phase t) = None" using step by (auto simp: connection_step_def split: phase.splits)
  from outside_step [OF step this] show ?thesis ..
next
  case (Some cl)
  show ?thesis
  proof (cases "phase t")
    case (Running i ls)
    from running_progress [OF Some Running step closes] Running show ?thesis by simp
  next
    case (Handling i ls acts)
    from handling_step [OF Some Handling step] Handling show ?thesis by auto
  next
    case (Checking i ls)
    from checking_step [OF Some Checking step closes] Checking show ?thesis by auto
  qed (use outside_step [OF step] in auto)
qed

text \<open>Inside it, without traffic, a step keeps the instant of the last one and brings the next \<^verbatim>\<open>select!\<close> closer.\<close>

lemma silent_step:
  assumes step: "connection_step S Q M inp t st = Some (t', st')" and closes: "close_completes inp"
    and silent: "\<forall>msg e. inp \<noteq> Select (WakeInbound (Some msg)) e"
    and ls: "seen (phase t) = Some ls" and ls': "seen (phase t') = Some ls'"
  shows "ls' = ls \<and> (is_running (phase t) \<or> to_select (phase t') < to_select (phase t)) \<and>
    (\<forall>e. inp = Select WakeTick e \<longrightarrow> now e \<le> ls + heartbeat_timeout (config st))"
proof -
  obtain cl where who: "who t = Some cl"
    using step ls by (cases "who t") (auto simp: connection_step_def split: phase.splits)
  show ?thesis
  proof (cases "phase t")
    case (Running i ls0)
    from running_silent [OF who Running step silent ls'] Running ls show ?thesis by simp
  next
    case (Handling i ls0 acts)
    from handling_step [OF who Handling step] Handling ls ls' show ?thesis by auto
  next
    case (Checking i ls0)
    have "\<forall>e. inp \<noteq> Select WakeTick e" using step who Checking by (auto simp: connection_step_def on_checking_def)
    with checking_step [OF who Checking step closes] Checking ls ls' show ?thesis by (cases "phase t'") auto
  qed (use ls in auto)
qed

section \<open>A client that has fallen silent\<close>

definition abandoned ::
    "serde \<Rightarrow> ('q, 'x) mpsc_scheme \<Rightarrow> ('s, 'y) semaphore_scheme \<Rightarrow> builder \<Rightarrow> (nat \<Rightarrow> ('q, 's) label) \<Rightarrow>
     (nat \<Rightarrow> ('q, 's) sys) \<Rightarrow> nat \<Rightarrow> nat \<Rightarrow> bool" where
  "abandoned S Q M b lab \<sigma> k n \<longleftrightarrow>
     is_run S Q M b lab \<sigma> \<and> scheduled lab \<sigma> k \<and> ticking lab \<sigma> k \<and> silent_from lab k n \<and> closing_from lab k n \<and>
     k < length (tasks (\<sigma> n)) \<and> \<not> is_parked (phase_at \<sigma> k n)"

lemma stage_simps [simp]:
  "seen p = Some ls \<Longrightarrow> stage p = 3" "stage p = 0 \<longleftrightarrow> p = Ended" "stage p < 8 \<longleftrightarrow> \<not> is_parked p"
  by (cases p; simp)+

lemma run_own_step:
  assumes "is_run S Q M b lab \<sigma>" and "lab m = ByTask k inp"
  obtains st where "connection_step S Q M inp (tasks (\<sigma> m) ! k) (srv (\<sigma> m)) = Some (tasks (\<sigma> (Suc m)) ! k, st)"
proof -
  have "labelled_step S Q M (ByTask k inp) (\<sigma> m) (\<sigma> (Suc m))" using assms by (metis is_run_def)
  then show thesis by (rule own_label) (use that in auto)
qed

lemma abandoned_runs:
  assumes "abandoned S Q M b lab \<sigma> k n0" and "n0 \<le> n"
  shows "is_run S Q M b lab \<sigma>" and "k < length (tasks (\<sigma> n))"
  using assms run_length [OF _ _ assms(2)] by (auto simp: abandoned_def)

lemma abandoned_own_step:
  assumes ab: "abandoned S Q M b lab \<sigma> k n0" and "n0 \<le> m" and l: "lab m = ByTask k inp"
  obtains st where "connection_step S Q M inp (tasks (\<sigma> m) ! k) (srv (\<sigma> m)) = Some (tasks (\<sigma> (Suc m)) ! k, st)"
    and "close_completes inp" and "\<forall>msg e. inp \<noteq> Select (WakeInbound (Some msg)) e"
proof -
  have "close_completes inp" "\<forall>msg e. inp \<noteq> Select (WakeInbound (Some msg)) e"
    using ab assms(2) l unfolding abandoned_def closing_from_def silent_from_def by blast+
  then show thesis
    using run_own_step [OF abandoned_runs(1) [OF ab order_refl] l] that by metis
qed

lemma abandoned_waits:
  assumes ab: "abandoned S Q M b lab \<sigma> k n0" and "n0 \<le> n" and "\<nexists>inp. lab n = ByTask k inp"
  shows "phase_at \<sigma> k (Suc n) = phase_at \<sigma> k n"
  using waits [OF abandoned_runs [OF ab assms(2)], of "Suc n"] assms(3) by (auto simp: phase_at_def less_Suc_eq)

lemma abandoned_step:
  assumes ab: "abandoned S Q M b lab \<sigma> k n0" and "n0 \<le> n"
  shows "phase_at \<sigma> k (Suc n) = phase_at \<sigma> k n \<or> stage (phase_at \<sigma> k (Suc n)) < stage (phase_at \<sigma> k n) \<or>
    seen (phase_at \<sigma> k n) \<noteq> None \<and> seen (phase_at \<sigma> k (Suc n)) \<noteq> None"
proof (cases "\<exists>inp. lab n = ByTask k inp")
  case True
  then obtain inp where "lab n = ByTask k inp" ..
  from abandoned_own_step [OF ab assms(2) this] show ?thesis
    unfolding phase_at_def by (metis step_progress)
qed (simp add: abandoned_waits [OF assms])

lemma abandoned_stage:
  assumes ab: "abandoned S Q M b lab \<sigma> k n0" and "n0 \<le> n" and "n \<le> m"
  shows "stage (phase_at \<sigma> k m) \<le> stage (phase_at \<sigma> k n)"
  using assms(3)
proof (induction rule: dec_induct)
  case (step m)
  then show ?case using abandoned_step [OF ab, of m] assms(2) by auto
qed simp

text \<open>As long as it stays in session, nothing changes the instant of its last traffic.\<close>

lemma abandoned_seen:
  assumes ab: "abandoned S Q M b lab \<sigma> k n0" and "n0 \<le> n" and ls: "seen (phase_at \<sigma> k n) = Some ls"
    and stay: "\<forall>m \<ge> n. seen (phase_at \<sigma> k m) \<noteq> None" and "n \<le> m"
  shows "seen (phase_at \<sigma> k m) = Some ls"
  using assms(5)
proof (induction rule: dec_induct)
  case (step m)
  have m: "n0 \<le> m" using step.hyps assms(2) by simp
  show ?case
  proof (cases "\<exists>inp. lab m = ByTask k inp")
    case True
    then obtain inp where l: "lab m = ByTask k inp" ..
    obtain ls' where ls': "seen (phase_at \<sigma> k (Suc m)) = Some ls'" using stay step.hyps by fastforce
    show ?thesis
      using abandoned_own_step [OF ab m l] silent_step [of S Q M inp] step.IH ls' unfolding phase_at_def by metis
  qed (use abandoned_waits [OF ab m] step in simp)
qed (rule ls)

text \<open>It then comes back to its \<^verbatim>\<open>select!\<close> again and again.\<close>

lemma abandoned_selects:
  assumes ab: "abandoned S Q M b lab \<sigma> k n0" and "n0 \<le> n" and stay: "\<forall>m \<ge> n. seen (phase_at \<sigma> k m) \<noteq> None"
  shows "\<exists>m \<ge> n. is_running (phase_at \<sigma> k m)"
  using assms(2,3)
proof (induction "to_select (phase_at \<sigma> k n)" arbitrary: n rule: less_induct)
  case less
  note run = abandoned_runs [OF ab less.prems(1)]
  show ?case
  proof (cases "is_running (phase_at \<sigma> k n)")
    case False
    have "\<not> is_parked (phase_at \<sigma> k n)" "phase_at \<sigma> k n \<noteq> Ended"
      using less.prems(2) [rule_format, of n] by (cases "phase_at \<sigma> k n"; simp)+
    then have "\<exists>m \<ge> n. \<exists>inp. lab m = ByTask k inp" using ab False by (simp add: abandoned_def scheduled_def)
    then obtain m inp where m: "n \<le> m" "lab m = ByTask k inp" "tasks (\<sigma> m) ! k = tasks (\<sigma> n) ! k"
      using next_step [OF run] by metis
    obtain ls ls' where seen: "seen (phase_at \<sigma> k n) = Some ls" "seen (phase_at \<sigma> k (Suc m)) = Some ls'"
      using less.prems(2) m(1) by (meson le_SucI not_None_eq order_refl)
    have "n0 \<le> m" using less.prems(1) m(1) by simp
    from abandoned_own_step [OF ab this m(2)]
    have "to_select (phase_at \<sigma> k (Suc m)) < to_select (phase_at \<sigma> k n)"
      using silent_step [of S Q M inp] seen False m(3) unfolding phase_at_def by metis
    from less.hyps [OF this] show ?thesis using less.prems m(1) by (meson Suc_leD le_SucI order_trans)
  qed auto
qed

text \<open>So a late tick comes, and it ends the session.\<close>

lemma abandoned_leaves:
  assumes ok: "serde_ok S" "mpsc_ok Q" "sem_ok M" and ab: "abandoned S Q M b lab \<sigma> k n0" and "n0 \<le> n"
  shows "\<exists>m \<ge> n. seen (phase_at \<sigma> k m) = None"
proof (rule ccontr)
  assume "\<not> ?thesis"
  then have stay: "\<forall>m \<ge> n. seen (phase_at \<sigma> k m) \<noteq> None" by simp
  then obtain ls where ls: "seen (phase_at \<sigma> k n) = Some ls" by blast
  have "\<exists>m \<ge> n'. is_running (phase_at \<sigma> k m)" for n'
    using abandoned_selects [OF ab, of "max n n'"] le_max_iff_disj [of n0 n n'] assms(5) stay by auto
  then obtain m e where m: "n \<le> m" "lab m = ByTask k (Select WakeTick e)"
    and late: "ls + heartbeat_timeout (b_config b) < now e"
    using ab unfolding abandoned_def ticking_def by metis
  have "sys_inv S Q M b (\<sigma> m)"
    by (rule reachable_inv [OF ok run_reachable [OF abandoned_runs(1) [OF ab order_refl]]])
  then have "config (srv (\<sigma> m)) = b_config b" by (simp add: sys_inv_def setup_ok_def)
  moreover have "seen (phase_at \<sigma> k m) = Some ls" "seen (phase_at \<sigma> k (Suc m)) = Some ls" and m0: "n0 \<le> m"
    using abandoned_seen [OF ab assms(5) ls stay] m(1) assms(5) by simp_all
  ultimately have "now e \<le> ls + heartbeat_timeout (b_config b)"
    by (rule_tac abandoned_own_step [OF ab m0 m(2)]) (auto simp: phase_at_def dest: silent_step)
  with late show False by simp
qed

lemma abandoned_ends:
  assumes ok: "serde_ok S" "mpsc_ok Q" "sem_ok M" and ab: "abandoned S Q M b lab \<sigma> k n0" and "n0 \<le> n"
  shows "\<exists>m \<ge> n. phase_at \<sigma> k m = Ended"
  using assms(5)
proof (induction "stage (phase_at \<sigma> k n)" arbitrary: n rule: less_induct)
  case less
  note run = abandoned_runs [OF ab less.prems]
  have closer: ?case if m: "n \<le> m" "stage (phase_at \<sigma> k m) < stage (phase_at \<sigma> k n)" for m
    using less.hyps [OF m(2)] less.prems m(1) by (meson order_trans)
  show ?case
  proof (cases "seen (phase_at \<sigma> k n)")
    case (Some ls)
    then have n: "stage (phase_at \<sigma> k n) = 3" by simp
    obtain m where m: "n \<le> m" "seen (phase_at \<sigma> k m) = None" using abandoned_leaves [OF assms(1-4) less.prems] by blast
    then have "stage (phase_at \<sigma> k m) \<noteq> 3" by (cases "phase_at \<sigma> k m") simp_all
    with closer [OF m(1)] abandoned_stage [OF ab less.prems m(1)] n show ?thesis by simp
  next
    case None
    show ?thesis
    proof (cases "phase_at \<sigma> k n = Ended")
      case False
      have "stage (phase_at \<sigma> k n) < 8"
        using abandoned_stage [OF ab order_refl less.prems] ab stage_simps(3) by (metis abandoned_def order_le_less_trans)
      then have "\<exists>m \<ge> n. \<exists>inp. lab m = ByTask k inp"
        using ab False None by (cases "phase_at \<sigma> k n") (auto simp: abandoned_def scheduled_def)
      then obtain m inp where m: "n \<le> m" "lab m = ByTask k inp" "tasks (\<sigma> m) ! k = tasks (\<sigma> n) ! k"
        using next_step [OF run] by metis
      have "n0 \<le> m" using less.prems m(1) by simp
      from abandoned_own_step [OF ab this m(2)] have "stage (phase_at \<sigma> k (Suc m)) < stage (phase_at \<sigma> k n)"
        using outside_step None m(3) unfolding phase_at_def by metis
      from closer [OF _ this] m(1) show ?thesis by simp
    qed auto
  qed
qed

section \<open>Ids are never handed out twice\<close>

definition ids_grow :: "'q registry \<Rightarrow> 'q registry \<Rightarrow> bool" where
  "ids_grow reg reg' \<longleftrightarrow> next_id reg \<le> next_id reg' \<and>
     (\<forall>n. ConnectionId n \<in> fst ` set (connections reg') \<longrightarrow>
        ConnectionId n \<in> fst ` set (connections reg) \<or> next_id reg \<le> n)"

lemma ids_grow_refl [simp]: "ids_grow reg reg"
  by (simp add: ids_grow_def)

lemma ids_grow_fewer:
  "next_id reg' = next_id reg \<Longrightarrow> fst ` set (connections reg') \<subseteq> fst ` set (connections reg) \<Longrightarrow> ids_grow reg reg'"
  by (auto simp: ids_grow_def)

lemma ids_grow_routing:
  assumes "routing reg' = routing reg"
  shows "ids_grow reg reg'"
proof (rule ids_grow_fewer)
  show "fst ` set (connections reg') \<subseteq> fst ` set (connections reg)"
    using arg_cong [OF assms, of "\<lambda>r. set (fst r)"] by (simp add: routing_def)
qed (use assms in \<open>simp add: routing_def\<close>)

lemma ids_grow_trans: "ids_grow reg reg' \<Longrightarrow> ids_grow reg' reg'' \<Longrightarrow> ids_grow reg reg''"
  unfolding ids_grow_def by (meson order_trans)

lemma reply_routing: "routing (registry (reply Q i f st)) = routing (registry st)"
  by (simp add: reply_def send.keeps_routing)

lemma subscription_next_id:
  "next_id (snd (Registry_subscribe i chs mx reg)) = next_id reg"
  "next_id (snd (Registry_unsubscribe i chs reg)) = next_id reg"
  by (auto simp: Registry_subscribe_def Registry_unsubscribe_def split: option.splits prod.splits)

lemma ids_subscription:
  "ids_grow reg (snd (Registry_subscribe i chs mx reg))" "ids_grow reg (snd (Registry_unsubscribe i chs reg))"
  by (simp_all add: ids_grow_fewer subscription_next_id subscription_keys)

lemma ids_handle_begin: "ids_grow (registry st) (registry (snd (handle_begin S msg i cl st)))"
proof -
  have "ids_grow (registry st) (registry (snd (subscribe_begin S chs i cl st)))" for chs
    using ids_subscription(1) [of "registry st" i "allowed_of cl st chs" "max_subscriptions (config st)"]
    by (auto simp: subscribe_begin_eq Let_def split: prod.splits)
  moreover have "ids_grow (registry st) (snd (Registry_unsubscribe i chs (registry st)))" for chs
    by (rule ids_subscription)
  ultimately show ?thesis
    by (simp add: handle_begin_def Let_def split_beta split: sum.splits client_message.splits)
qed

lemma ids_act_step: "ids_grow (registry st) (registry (snd (act_step S Q i a st)))"
  by (auto simp: act_step_def intro!: ids_grow_routing reply_routing split: act.splits option.splits)

lemma routing_heartbeat: "routing (registry (count_heartbeat_timeout st)) = routing (registry st)"
  by (simp add: count_heartbeat_timeout_def Let_def routing_def)

lemma routing_select_body:
  assumes "select_body S Q i cl ev e ss st = (c, ss', st')" and "\<forall>msg. ev \<noteq> Inbound (Some (Inr (Text msg)))"
  shows "routing (registry st') = routing (registry st)"
  using assms
  by (auto simp: select_body_def on_inbound_def Let_def reply_routing routing_heartbeat
      split: event.splits option.splits sum.splits message.splits prod.splits if_splits)

lemma routing_after_branch:
  "routing (registry (snd (after_branch Q i nxt t (c, ss, st)))) = routing (registry st)"
  by (simp add: after_branch_def leave_session_def Let_def routing_set_tx split: ctl.splits)

lemma routing_wake: "wake_event Q i wk st = Some (ev, st0) \<Longrightarrow> routing (registry st0) = routing (registry st)"
  by (cases wk) (auto simp: routing_set_tx split: option.splits)

lemma ids_running:
  assumes t: "who t = Some cl" "phase t = Running i ls" and step: "connection_step S Q M inp t st = Some (t', st')"
  shows "ids_grow (registry st) (registry st')"
  using t step
proof (cases rule: running_step)
  case (Branch wk e ev st0)
  obtain c ss st1 where r: "select_body S Q i cl ev e \<lparr>last_seen = ls, written = wire t\<rparr> st0 = (c, ss, st1)"
    by (metis prod.exhaust)
  have st': "registry st' = registry (snd (after_branch Q i Checking t (c, ss, st1)))" using Branch(3) r by (metis snd_conv)
  show ?thesis
  proof (cases "\<exists>msg. ev = Inbound (Some (Inr (Text msg)))")
    case False
    then have "routing (registry st') = routing (registry st)"
      using routing_select_body [OF r] routing_wake [OF Branch(2)] by (simp add: st' routing_after_branch)
    then show ?thesis by (rule ids_grow_routing)
  next
    case True
    then obtain msg where ev: "ev = Inbound (Some (Inr (Text msg)))" ..
    then have "inp = Select (WakeInbound (Some (Inr (Text msg)))) e" using Branch(1) wake_event_cases(2) [OF Branch(2)] by simp
    with ids_handle_begin [of st S msg i cl] t step show ?thesis
      by (auto simp: connection_step_def on_running_def Let_def split: prod.splits)
  qed
next
  case (Text msg e acts)
  then show ?thesis using ids_handle_begin [of st S msg i cl] by simp
next
  case Panic
  then show ?thesis by (simp add: ids_grow_routing routing_set_tx)
qed

lemma ids_handling:
  assumes "on_handling S Q i ls acts inp t st = Some (t', st')"
  shows "ids_grow (registry st) (registry st')"
  using assms ids_act_step [of st S Q i]
  by (auto simp: on_handling_def leave_session_def routing_set_tx ids_grow_routing
      split: input.splits list.splits prod.splits) (metis snd_conv)

lemma ids_checking:
  assumes "on_checking Q i ls inp t st = Some (t', st')"
  shows "ids_grow (registry st) (registry st')"
proof -
  obtain e where inp: "inp = Check e" using assms by (cases inp) (auto simp: on_checking_def)
  obtain c ss where "close_sink TooSlow e \<lparr>last_seen = ls, written = wire t\<rparr> = (c, ss)" by (metis prod.exhaust)
  then have "routing (registry st') = routing (registry st)"
    using assms routing_after_branch [of Q i Running t c ss st]
    by (auto simp: on_checking_def inp Let_def split: if_splits)
  then show ?thesis by (rule ids_grow_routing)
qed

lemma ids_acked:
  assumes "on_acked Q cl inp t st = Some (t', st')" and "next_id (registry st) \<noteq> - 1"
  shows "ids_grow (registry st) (registry st')"
  using assms(1)
proof (cases rule: on_acked_cases)
  case (Registers n i reg)
  have "next_id (registry st) < next_id (registry st) + 1"
    using assms(2) by (metis inc_less_eq_self_iff_eq linorder_not_le)
  then show ?thesis by (simp add: Registers ids_grow_def add_fields [OF Registers(3)] hash_simps)
qed simp

lemma ids_task_step:
  assumes step: "connection_step S Q M inp t st = Some (t', st')" and fresh: "next_id (registry st) \<noteq> - 1"
  shows "ids_grow (registry st) (registry st')"
proof (cases "who t")
  case None
  then show ?thesis
    using step by (auto simp: connection_step_def local_step_def permit_drop_def split: phase.splits input.splits)
next
  case (Some cl)
  show ?thesis
  proof (cases "phase t")
    case (Unwinding i r)
    have "next_id (Registry_remove i (registry st)) = next_id (registry st)"
      by (cases "map_of (connections (registry st)) i") (simp_all add: Registry_remove_def)
    moreover have "fst ` set (connections (Registry_remove i (registry st))) \<subseteq> fst ` set (connections (registry st))"
      by (cases "map_of (connections (registry st)) i") (auto simp: Registry_remove_def hash_simps)
    ultimately show ?thesis
      using step Some Unwinding by (auto simp: connection_step_def Registered_drop_def ids_grow_fewer split: input.splits)
  qed (use step Some fresh ids_running [OF Some _ step] ids_handling ids_checking ids_acked in
      \<open>auto simp: connection_step_def local_step_def permit_drop_def split: input.splits\<close>)
qed

lemma ids_server_step:
  assumes "server_step S Q M s s'"
  shows "ids_grow (registry (srv s)) (registry (srv s'))"
  using assms
proof cases
  case (Accept stream)
  then show ?thesis
    by (auto simp: serve_accept_def refuse_full_def Let_def ids_grow_def split: option.splits)
next
  case (Task k inp t st)
  then show ?thesis using ids_task_step by simp
qed (auto simp: Accepting_drop_def Server_publish_def Server_resync_all_def resync_on_def Let_def split_beta
    publish.keeps_routing broadcast.keeps_routing reply_routing intro!: ids_grow_routing)

text \<open>A connection that is gone stays gone.\<close>

definition retired :: "connection_id \<Rightarrow> 'q registry \<Rightarrow> bool" where
  "retired i reg \<longleftrightarrow> i \<notin> fst ` set (connections reg) \<and> (\<forall>n. i = ConnectionId n \<longrightarrow> n < next_id reg)"

lemma retired_grow: "ids_grow reg reg' \<Longrightarrow> retired i reg \<Longrightarrow> retired i reg'"
  by (cases i) (auto simp: retired_def ids_grow_def)

lemma retired_run:
  assumes run: "is_run S Q M b lab \<sigma>" and "retired i (registry (srv (\<sigma> n)))" and "n \<le> m"
  shows "retired i (registry (srv (\<sigma> m)))"
  using assms(3)
proof (induction rule: dec_induct)
  case (step m)
  have "server_step S Q M (\<sigma> m) (\<sigma> (Suc m))" using run labelled_is_step unfolding is_run_def by blast
  from retired_grow [OF ids_server_step [OF this] step.IH] show ?case .
qed (rule assms(2))

text \<open>The step with which a task gives up its connection.\<close>

lemma gives_up:
  assumes ok: "serde_ok S" "mpsc_ok Q" "sem_ok M" and run: "is_run S Q M b lab \<sigma>" and k: "k < length (tasks (\<sigma> n))"
    and had: "id_of (phase_at \<sigma> k n) = Some i" and lost: "id_of (phase_at \<sigma> k (Suc n)) \<noteq> Some i"
  shows "retired i (registry (srv (\<sigma> (Suc n))))"
proof -
  have inv: "sys_inv S Q M b (\<sigma> m)" for m by (rule reachable_inv [OF ok run_reachable [OF run]])
  have l: "labelled_step S Q M (lab n) (\<sigma> n) (\<sigma> (Suc n))" using run by (simp add: is_run_def)
  have mine: "owns (tasks (\<sigma> n)) k i" using k had by (simp add: owns_def phase_at_def)
  obtain inp where "lab n = ByTask k inp" using other_label [OF l k] had lost unfolding phase_at_def by metis
  with l have "labelled_step S Q M (ByTask k inp) (\<sigma> n) (\<sigma> (Suc n))" by simp
  then obtain t st where s': "\<sigma> (Suc n) = (\<sigma> n)\<lparr>srv := st, tasks := (tasks (\<sigma> n))[k := t]\<rparr>"
    by (rule own_label)
  have "\<not> owns (tasks (\<sigma> (Suc n))) j i" for j
    using mine inv [of n] lost k s' by (auto simp: owns_def sys_inv_def owned_def phase_at_def nth_list_update split: if_splits)
  then have gone: "i \<notin> fst ` set (connections (registry (srv (\<sigma> (Suc n)))))"
    using inv [of "Suc n"] owned_task [of "tasks (\<sigma> (Suc n))"] unfolding sys_inv_def by blast
  have "i \<in> fst ` set (connections (registry (srv (\<sigma> n))))"
    using inv [of n] mine by (auto simp: sys_inv_def owned_def)
  then have "\<forall>m. i = ConnectionId m \<longrightarrow> m < next_id (registry (srv (\<sigma> n)))"
    using inv [of n] unfolding sys_inv_def registry_inv_def ids_issued_def by blast
  moreover have "next_id (registry (srv (\<sigma> n))) \<le> next_id (registry (srv (\<sigma> (Suc n))))"
    using ids_server_step [OF labelled_is_step [OF l]] by (simp add: ids_grow_def)
  ultimately show ?thesis using gone by (auto simp: retired_def)
qed

lemma given_up:
  assumes ok: "serde_ok S" "mpsc_ok Q" "sem_ok M" and run: "is_run S Q M b lab \<sigma>" and k: "k < length (tasks (\<sigma> n))"
    and had: "id_of (phase_at \<sigma> k n) = Some i" and "n \<le> m" and "id_of (phase_at \<sigma> k m) \<noteq> Some i"
  shows "retired i (registry (srv (\<sigma> m)))"
  using assms(7,8)
proof (induction rule: dec_induct)
  case (step m)
  show ?case
  proof (cases "id_of (phase_at \<sigma> k m) = Some i")
    case True
    from gives_up [OF ok run run_length [OF run k step.hyps(1)] True step.prems] show ?thesis .
  next
    case False
    from retired_run [OF run step.IH [OF False]] show ?thesis by simp
  qed
qed (use had in simp)

section \<open>A concrete run\<close>

text \<open>
  A finite schedule, after which nothing happens any more: the labels and the states of the run.
\<close>

fun event_label :: "('q, 's) sys_event \<Rightarrow> ('q, 's) label" where
  "event_label (EvTask k inp) = ByTask k inp"
| "event_label _ = ByOther"

definition run_labels :: "('q, 's) sys_event list \<Rightarrow> nat \<Rightarrow> ('q, 's) label" where
  "run_labels evs n = (if n < length evs then event_label (evs ! n) else ByOther)"

definition run_states ::
    "serde \<Rightarrow> ('q, 'x) mpsc_scheme \<Rightarrow> ('s, 'y) semaphore_scheme \<Rightarrow> ('q, 's) sys_event list \<Rightarrow> ('q, 's) sys \<Rightarrow> nat \<Rightarrow>
     ('q, 's) sys" where
  "run_states S Q M evs s n = (case sys_run S Q M (take n evs) s of None \<Rightarrow> s | Some s' \<Rightarrow> s')"

text \<open>The client of the demonstration authenticates, and is silent from then on.\<close>

definition silent_events :: "(chan, nat) sys_event list" where
  "silent_events =
     EvAccept (Some ()) # map (EvTask 0) [HandshakeDone (Completed (Inr ())),
       FirstMessage (Completed (Some (Inr (Text ''A'')))), AckSent (Inr ()), Register 0,
       Select WakeTick (quiet 1), Check (quiet 1), Select WakeTick (quiet 100000000000), GuardDrop, PermitDrop]"

lemma sys_run_append:
  "sys_run S Q M (evs @ evs') s = (case sys_run S Q M evs s of None \<Rightarrow> None | Some s' \<Rightarrow> sys_run S Q M evs' s')"
  by (induction evs arbitrary: s) (auto split: option.splits)

lemma event_labelled:
  assumes "sys_exec S Q M ev s = Some s'"
  shows "labelled_step S Q M (event_label ev) s s'"
  using sys_exec_step [OF assms] assms
  by (cases ev) (auto simp: serve_accept_def Accepting_drop_def split: if_splits option.splits)

lemma nothing_happens: "labelled_step S Q M ByOther s s"
  using server_step.Snapshots [of S Q M s "snapshots (srv s)"] by simp

lemma finite_schedule_is_run:
  assumes "reachable S Q M b s" and "sys_run S Q M evs s = Some s1"
  shows "is_run S Q M b (run_labels evs) (run_states S Q M evs s)"
proof -
  have "labelled_step S Q M (run_labels evs n) (run_states S Q M evs s n) (run_states S Q M evs s (Suc n))" for n
  proof (cases "n < length evs")
    case True
    have "evs = take n evs @ evs ! n # drop (Suc n) evs" by (rule id_take_nth_drop [OF True])
    then obtain s2 s3 where s: "sys_run S Q M (take n evs) s = Some s2" "sys_exec S Q M (evs ! n) s2 = Some s3"
      using assms(2) by (metis (no_types, lifting) option.case_eq_if option.collapse option.distinct(1) sys_run.simps(2) sys_run_append)
    then have "sys_run S Q M (take (Suc n) evs) s = Some s3"
      using True by (simp add: take_Suc_conv_app_nth sys_run_append)
    with s event_labelled [OF s(2)] True show ?thesis by (simp add: run_labels_def run_states_def)
  qed (simp add: run_labels_def run_states_def nothing_happens del: labelled_step.simps)
  moreover have "run_states S Q M evs s 0 = s" by (simp add: run_states_def)
  ultimately show ?thesis using assms(1) by (simp add: is_run_def)
qed

lemma run_labels_task: "run_labels evs n = ByTask k inp \<Longrightarrow> EvTask k inp \<in> set evs"
  by (cases "evs ! n") (auto simp: run_labels_def split: if_splits dest: nth_mem)

abbreviation silent_states :: "nat \<Rightarrow> (chan, nat) sys" where
  "silent_states \<equiv> run_states demo_serde ref_mpsc ref_sem silent_events demo_start"

lemmas silent_eval = demo_defs demo_eval count_heartbeat_timeout_def from_secs_def

lemma silent_run: "is_run demo_serde ref_mpsc ref_sem demo_builder (run_labels silent_events) silent_states"
proof -
  have "\<exists>s. sys_run demo_serde ref_mpsc ref_sem silent_events demo_start = Some s"
    by (simp add: silent_events_def silent_eval)
  then show ?thesis using finite_schedule_is_run [OF demo_reachable] by blast
qed

lemma silent_after: "10 \<le> n \<Longrightarrow> phase_at silent_states 0 n = Ended"
  by (simp add: phase_at_def run_states_def silent_events_def silent_eval)

lemma silent_before: "map phase (tasks (silent_states 5)) = [Running (ConnectionId 1) 0]"
  by (simp add: run_states_def silent_events_def demo_defs demo_eval)

section \<open>Silent clients are removed\<close>

text \<open>
  C12: Under a fair runtime, the server gets rid of every client that has fallen silent. In every infinite run
  in which the runtime keeps polling the task, the heartbeat keeps firing and closes complete, a task whose peer
  sends nothing more ends, whatever phase it is in, and stays ended; every connection it held is removed from the
  registry and its id never comes back. Polling (\<open>scheduled\<close>) includes that the handshake and the first message
  arrive or time out and that the writes of the acknowledgement and of the refusal, which have no deadline of
  their own, complete or fail.
\<close>

theorem silent_clients_are_removed:
  assumes "serde_ok S" and "mpsc_ok Q" and "sem_ok M" and run: "is_run S Q M b lab \<sigma>"
    and "scheduled lab \<sigma> k" and "ticking lab \<sigma> k" and "silent_from lab k n" and "closing_from lab k n"
    and k: "k < length (tasks (\<sigma> n))" and "\<not> is_parked (phase_at \<sigma> k n)"
  shows "\<exists>m \<ge> n. \<forall>m' \<ge> m. phase_at \<sigma> k m' = Ended \<and>
    (\<forall>j i. n \<le> j \<longrightarrow> j \<le> m' \<longrightarrow> id_of (phase_at \<sigma> k j) = Some i \<longrightarrow> i \<notin> fst ` set (connections (registry (srv (\<sigma> m')))))"
proof -
  have ab: "abandoned S Q M b lab \<sigma> k n" using assms by (simp add: abandoned_def)
  obtain m where m: "n \<le> m" "phase_at \<sigma> k m = Ended" using abandoned_ends [OF assms(1-3) ab order_refl] by blast
  have ended: "phase_at \<sigma> k m' = Ended" if "m \<le> m'" for m'
    using abandoned_stage [OF ab m(1) that] m(2) stage_simps(2) [of "phase_at \<sigma> k m'"] by simp
  have gone: "i \<notin> fst ` set (connections (registry (srv (\<sigma> m'))))"
    if "m \<le> m'" "n \<le> j" "j \<le> m'" "id_of (phase_at \<sigma> k j) = Some i" for m' j i
    using given_up [OF assms(1-3) run run_length [OF run k that(2)] that(4,3)] ended [OF that(1)]
    by (simp add: retired_def)
  show ?thesis using m(1) ended gone by blast
qed

theorem silent_clients_are_removed_witness:
  "\<exists>m \<ge> 5. \<forall>m' \<ge> m. phase_at silent_states 0 m' = Ended \<and>
     ConnectionId 1 \<notin> fst ` set (connections (registry (srv (silent_states m'))))"
proof -
  let ?lab = "run_labels silent_events"
  have at5: "0 < length (tasks (silent_states 5))" "phase_at silent_states 0 5 = Running (ConnectionId 1) 0"
    using silent_before by (cases "tasks (silent_states 5)"; simp add: phase_at_def)+
  have last_step: "?lab 9 = ByTask 0 PermitDrop" by (simp add: run_labels_def silent_events_def)
  have "\<exists>m \<ge> n. \<exists>inp. ?lab m = ByTask 0 inp" if "phase_at silent_states 0 n \<noteq> Ended" for n
  proof -
    have "\<not> 10 \<le> n" using that silent_after by blast
    then have "n \<le> 9" by simp
    with last_step show ?thesis by blast
  qed
  then have "scheduled ?lab silent_states 0" by (simp add: scheduled_def)
  moreover have "ticking ?lab silent_states 0"
    unfolding ticking_def using silent_after by (metis is_running.simps(12))
  moreover have "silent_from ?lab 0 5"
    unfolding silent_from_def by (auto dest!: run_labels_task simp: silent_events_def)
  moreover have "closing_from ?lab 0 5"
    unfolding closing_from_def by (auto dest!: run_labels_task simp: silent_events_def quiet_def)
  moreover have "\<not> is_parked (phase_at silent_states 0 5)" using at5(2) by simp
  ultimately obtain m where m: "5 \<le> m" "\<forall>m' \<ge> m. phase_at silent_states 0 m' = Ended \<and>
      (\<forall>j i. 5 \<le> j \<longrightarrow> j \<le> m' \<longrightarrow> id_of (phase_at silent_states 0 j) = Some i \<longrightarrow>
         i \<notin> fst ` set (connections (registry (srv (silent_states m')))))"
    using silent_clients_are_removed [OF demo_ok silent_run _ _ _ _ at5(1)] by blast
  have "id_of (phase_at silent_states 0 5) = Some (ConnectionId 1)" unfolding at5(2) by simp
  then have "ConnectionId 1 \<notin> fst ` set (connections (registry (srv (silent_states m'))))" if "m \<le> m'" for m'
    using m that order_trans [OF m(1) that] by blast
  then show ?thesis using m by blast
qed

end
