(* ===== verification/Delivery_Order.thy ===== *)
theory Delivery_Order
  imports System "HOL-Library.Sublist"
begin

text \<open>
  In which order a client receives what is published. A run of the server is a list of events, in which
  publications, whole or one delivery at a time, interleave with everything the tasks do. Publishers that
  overlap may offer their frames to different connections in different orders, so the history of a
  channel is kept per connection. What a socket has taken and what still waits in the connection's queue,
  restricted to the data frames of one channel, is a subsequence of what was offered to that connection on
  it: nothing is invented, repeated or reordered.
\<close>

section \<open>Data frames of a channel\<close>

definition data_msgs :: "serde \<Rightarrow> string \<Rightarrow> message list \<Rightarrow> message list" where
  "data_msgs S ch ms = filter (\<lambda>m. \<exists>p. m = to_message (to_frame S (Data ch p))) ms"

text \<open>What a list of events publishes on a channel, in order.\<close>

definition published :: "string \<Rightarrow> ('q, 's) sys_event list \<Rightarrow> string list" where
  "published ch evs =
     List.map_filter (\<lambda>ev. case ev of EvPublish c p \<Rightarrow> if c = ch then Some p else None | _ \<Rightarrow> None) evs"

text \<open>
  What a list of events offers to one connection on a channel, in order: the whole publications, and the
  single deliveries to it by publishers that overlap with others.
\<close>

definition offered :: "connection_id \<Rightarrow> string \<Rightarrow> ('q, 's) sys_event list \<Rightarrow> string list" where
  "offered i ch evs =
     List.map_filter (\<lambda>ev. case ev of
         EvPublish c p \<Rightarrow> if c = ch then Some p else None
       | EvPublishTo j c p \<Rightarrow> if j = i \<and> c = ch then Some p else None
       | _ \<Rightarrow> None) evs"

definition offered_msgs :: "serde \<Rightarrow> connection_id \<Rightarrow> string \<Rightarrow> ('q, 's) sys_event list \<Rightarrow> message list" where
  "offered_msgs S i ch evs = map (\<lambda>p. to_message (to_frame S (Data ch p))) (offered i ch evs)"

section \<open>The invariant\<close>

text \<open>The connection a task still receives from.\<close>

fun rx_of :: "phase \<Rightarrow> connection_id option" where
  "rx_of (Running i _) = Some i"
| "rx_of (Handling i _ _) = Some i"
| "rx_of (Checking i _) = Some i"
| "rx_of _ = None"

definition queued :: "('q, 'x) mpsc_scheme \<Rightarrow> 'q connection \<Rightarrow> message list" where
  "queued Q c = map to_message (buffered (view Q (tx c)))"

fun quiet_act :: "serde \<Rightarrow> act \<Rightarrow> bool" where
  "quiet_act S (SendFrame f) = (\<forall>ch p. f \<noteq> to_frame S (Data ch p))"
| "quiet_act S (SendSnapshot _) = True"

fun quiet_phase :: "serde \<Rightarrow> phase \<Rightarrow> bool" where
  "quiet_phase S (Handling _ _ acts) = (\<forall>a \<in> set acts. quiet_act S a)"
| "quiet_phase S _ = True"

definition line_ok ::
    "serde \<Rightarrow> ('q, 'x) mpsc_scheme \<Rightarrow> (string \<Rightarrow> message list) \<Rightarrow> ('q, 's) shared \<Rightarrow> task \<Rightarrow> bool" where
  "line_ok S Q H st t \<longleftrightarrow>
     quiet_phase S (phase t) \<and>
     (\<forall>ch. subseq (data_msgs S ch (wire t)) (H ch)) \<and>
     (\<forall>i c ch. rx_of (phase t) = Some i \<longrightarrow> map_of (connections (registry st)) i = Some c \<longrightarrow>
        subseq (data_msgs S ch (wire t) @ data_msgs S ch (queued Q c)) (H ch))"

text \<open>
  A change of the shared state after which the queue of every connection in question holds, of each
  channel's data, what it held before and possibly the news \<open>D\<close> for that connection.
\<close>

definition queues_grow ::
    "serde \<Rightarrow> ('q, 'x) mpsc_scheme \<Rightarrow> (connection_id \<Rightarrow> bool) \<Rightarrow> (connection_id \<Rightarrow> string \<Rightarrow> message list) \<Rightarrow>
     ('q, 's) shared \<Rightarrow> ('q, 's) shared \<Rightarrow> bool" where
  "queues_grow S Q P D st st' \<longleftrightarrow>
     (\<forall>i c'. P i \<longrightarrow> map_of (connections (registry st')) i = Some c' \<longrightarrow>
        (\<exists>c. map_of (connections (registry st)) i = Some c \<and>
           (\<forall>ch. data_msgs S ch (queued Q c') = data_msgs S ch (queued Q c) \<or>
                 data_msgs S ch (queued Q c') = data_msgs S ch (queued Q c) @ D i ch)))"

definition same_queues ::
    "serde \<Rightarrow> ('q, 'x) mpsc_scheme \<Rightarrow> (connection_id \<Rightarrow> bool) \<Rightarrow> ('q, 's) shared \<Rightarrow> ('q, 's) shared \<Rightarrow> bool" where
  "same_queues S Q P = queues_grow S Q P (\<lambda>_ _. [])"

section \<open>Data frames\<close>

lemma data_msgs_simps [simp]:
  "data_msgs S ch [] = []"
  "data_msgs S ch (ms @ ms') = data_msgs S ch ms @ data_msgs S ch ms'"
  "data_msgs S ch (m # m' # ms) = data_msgs S ch [m] @ data_msgs S ch (m' # ms)"
  "data_msgs S ch [Close] = []" "data_msgs S ch [WsPing p] = []" "data_msgs S ch [WsPong p] = []"
  by (simp_all add: data_msgs_def)

lemma data_msgs_frame:
  "serde_ok S \<Longrightarrow> data_msgs S ch [to_message (to_frame S m)] =
     (case m of Data c p \<Rightarrow> if c = ch then [to_message (to_frame S m)] else [] | _ \<Rightarrow> [])"
  by (auto simp: data_msgs_def to_frame_inject split: server_message.splits)

lemma data_msgs_quiet: "quiet_act S (SendFrame f) \<Longrightarrow> data_msgs S ch [to_message f] = []"
  by (auto simp: data_msgs_def)

lemma quiet_frame: "serde_ok S \<Longrightarrow> (\<And>ch p. m \<noteq> Data ch p) \<Longrightarrow> quiet_act S (SendFrame (to_frame S m))"
  by (simp add: to_frame_inject)

lemma queued_deliver:
  "mpsc_ok Q \<Longrightarrow> queued Q (after_deliver Q f c) = queued Q c \<or> queued Q (after_deliver Q f c) = queued Q c @ [to_message f]"
  by (simp add: queued_def after_deliver_view)

lemma offered_simps:
  "offered i ch [] = []"
  "offered i ch (EvPublish c p # evs) = (if c = ch then p # offered i ch evs else offered i ch evs)"
  "offered i ch (EvPublishTo j c p # evs) = (if j = i \<and> c = ch then p # offered i ch evs else offered i ch evs)"
  "(\<And>c p. ev \<noteq> EvPublish c p) \<Longrightarrow> (\<And>c p. ev \<noteq> EvPublishTo i c p) \<Longrightarrow> offered i ch (ev # evs) = offered i ch evs"
  by (auto simp: offered_def List.map_filter_simps split: sys_event.splits)

text \<open>Publications that do not overlap are offered to every connection alike.\<close>

lemma offered_published: "(\<And>j c p. EvPublishTo j c p \<notin> set evs) \<Longrightarrow> offered i ch evs = published ch evs"
proof (induction evs)
  case (Cons ev evs)
  then have "offered i ch evs = published ch evs" "\<And>j c p. ev \<noteq> EvPublishTo j c p" by auto
  then show ?case by (cases ev) (auto simp: offered_def published_def List.map_filter_simps)
qed (simp add: offered_def published_def List.map_filter_simps)

section \<open>Changes of the queues\<close>

lemma line_ok_grow:
  assumes t: "line_ok S Q H st t" and grow: "queues_grow S Q P D st st'"
    and P: "\<And>j. rx_of (phase t) = Some j \<Longrightarrow> P j \<and> j = i" and H': "\<And>ch. H' ch = H ch @ D i ch"
  shows "line_ok S Q H' st' t"
proof -
  have "subseq (data_msgs S ch (wire t) @ data_msgs S ch (queued Q c')) (H' ch)"
    if j: "rx_of (phase t) = Some j" and c': "map_of (connections (registry st')) j = Some c'" for j c' ch
  proof -
    have i: "rx_of (phase t) = Some i" "P i" and ji: "j = i" using P [OF j] j by auto
    from grow i(2) c' obtain c where c: "map_of (connections (registry st)) i = Some c"
      and d: "data_msgs S ch (queued Q c') = data_msgs S ch (queued Q c) \<or>
        data_msgs S ch (queued Q c') = data_msgs S ch (queued Q c) @ D i ch"
      unfolding queues_grow_def ji by blast
    have sub: "subseq (data_msgs S ch (wire t) @ data_msgs S ch (queued Q c)) (H ch)"
      using t i c unfolding line_ok_def by blast
    then have "subseq ((data_msgs S ch (wire t) @ data_msgs S ch (queued Q c)) @ D i ch) (H ch @ D i ch)"
      by (simp only: subseq_append)
    with d sub show ?thesis unfolding H' by (elim disjE) (simp_all add: subseq_rev_drop_many)
  qed
  with t show ?thesis by (simp add: line_ok_def H' subseq_rev_drop_many)
qed

lemma line_ok_same:
  assumes "line_ok S Q H st t" and "same_queues S Q P st st'" and "\<And>i. rx_of (phase t) = Some i \<Longrightarrow> P i"
  shows "line_ok S Q H st' t"
  by (rule line_ok_grow [where i = "the (rx_of (phase t))", OF assms(1,2) [unfolded same_queues_def]]) (simp_all add: assms(3))

lemma same_queues_refl: "same_queues S Q P st st"
  by (simp add: same_queues_def queues_grow_def)

lemma same_queues_trans:
  "same_queues S Q P st st' \<Longrightarrow> same_queues S Q P st' st'' \<Longrightarrow> same_queues S Q P st st''"
  unfolding same_queues_def queues_grow_def by (metis append_Nil2)

lemma same_queues_connections:
  assumes "\<And>i c'. map_of (connections (registry st')) i = Some c' \<Longrightarrow>
    \<exists>c. map_of (connections (registry st)) i = Some c \<and> tx c' = tx c"
  shows "same_queues S Q P st st'"
  unfolding same_queues_def queues_grow_def queued_def using assms by (metis append_Nil2)

lemma queues_delivery:
  assumes Q: "mpsc_ok Q"
    and conn: "\<And>i c'. map_of (connections reg') i = Some c' \<Longrightarrow>
      \<exists>c. map_of (connections (registry st)) i = Some c \<and>
        (c' = c \<or> c' = after_deliver Q f c \<and> (\<forall>ch. data_msgs S ch [to_message f] = D i ch))"
  shows "queues_grow S Q P D st (st\<lparr>registry := reg'\<rparr>)"
  unfolding queues_grow_def
proof (intro allI impI)
  fix i c' assume "map_of (connections (registry (st\<lparr>registry := reg'\<rparr>))) i = Some c'"
  then obtain c where c: "map_of (connections (registry st)) i = Some c"
    and c': "c' = c \<or> c' = after_deliver Q f c \<and> (\<forall>ch. data_msgs S ch [to_message f] = D i ch)"
    using conn by fastforce
  then have "queued Q c' = queued Q c \<or>
      queued Q c' = queued Q c @ [to_message f] \<and> (\<forall>ch. data_msgs S ch [to_message f] = D i ch)"
    using queued_deliver [OF Q] by blast
  then have "\<forall>ch. data_msgs S ch (queued Q c') = data_msgs S ch (queued Q c) \<or>
      data_msgs S ch (queued Q c') = data_msgs S ch (queued Q c) @ D i ch"
    by (metis data_msgs_simps(2))
  with c show "\<exists>c. map_of (connections (registry st)) i = Some c \<and>
      (\<forall>ch. data_msgs S ch (queued Q c') = data_msgs S ch (queued Q c) \<or>
        data_msgs S ch (queued Q c') = data_msgs S ch (queued Q c) @ D i ch)" by blast
qed

lemma queues_publish:
  assumes "mpsc_ok Q" and "registry_inv (registry st)" and "\<And>i c. data_msgs S c [to_message f] = D i c"
  shows "queues_grow S Q P D st (st\<lparr>registry := snd (Registry_publish Q ch f (registry st))\<rparr>)"
  using assms by (intro queues_delivery) (auto simp: publish_map_of split: if_splits)

lemma queues_broadcast:
  assumes "mpsc_ok Q" and "\<And>i c. data_msgs S c [to_message f] = D i c"
  shows "queues_grow S Q P D st (st\<lparr>registry := snd (Registry_broadcast Q f (registry st))\<rparr>)"
  using assms by (intro queues_delivery) (auto simp: broadcast_eq map_of_map_snd)

lemma queues_reply:
  assumes "mpsc_ok Q" and "\<And>c. data_msgs S c [to_message f] = D i c"
  shows "queues_grow S Q P D st (reply Q i f st)"
  unfolding reply_def using assms
  by (intro queues_delivery [of Q _ st f S D])
    (auto simp: Registry_send_def deliver_eq hash_simps split: option.splits if_splits)

lemma same_queues_reply:
  assumes "mpsc_ok Q" and "quiet_act S (SendFrame f)"
  shows "same_queues S Q P st (reply Q i f st)"
  unfolding same_queues_def by (rule queues_reply [OF assms(1)]) (simp add: data_msgs_quiet [OF assms(2)])

lemma same_queues_subscribe:
  "same_queues S Q P st (st\<lparr>registry := snd (Registry_subscribe i chs mx (registry st))\<rparr>)"
  by (rule same_queues_connections) (auto dest: subscribe_map_of)

lemma same_queues_unsubscribe:
  "same_queues S Q P st (st\<lparr>registry := snd (Registry_unsubscribe i chs (registry st))\<rparr>)"
  by (rule same_queues_connections) (auto dest: unsubscribe_map_of)

lemma same_queues_set_tx: "\<not> P i \<Longrightarrow> same_queues S Q P st (set_tx i g st)"
  unfolding same_queues_def queues_grow_def by (auto simp: map_of_set_tx split: if_splits)

lemma same_queues_handle_begin:
  assumes "serde_ok S" and "handle_begin S m i cl st = (acts, st')"
  shows "same_queues S Q P st st' \<and> (\<forall>a \<in> set acts. quiet_act S a)"
  using assms(2) same_queues_subscribe [of S Q P st i "allowed_of cl st _"] same_queues_unsubscribe [of S Q P st i]
  by (auto simp: handle_begin_def subscribe_begin_eq same_queues_refl to_frame_inject [OF assms(1)]
      split: sum.splits client_message.splits prod.splits)
    (metis snd_conv)+

lemma same_queues_act_step:
  assumes "serde_ok S" and "mpsc_ok Q" and "quiet_act S a" and "act_step S Q i a st = (pending, st')"
  shows "same_queues S Q P st st' \<and> (\<forall>a \<in> set pending. quiet_act S a)"
  using assms(3,4) same_queues_reply [OF assms(2), of S _ P st i]
  by (cases a) (auto simp: act_step_def same_queues_refl to_frame_inject [OF assms(1)] split: option.splits)

lemma same_queues_weaken: "same_queues S Q P st st' \<Longrightarrow> (\<And>i. P' i \<Longrightarrow> P i) \<Longrightarrow> same_queues S Q P' st st'"
  unfolding same_queues_def queues_grow_def by blast

lemma same_queues_heartbeat: "same_queues S Q P st (count_heartbeat_timeout st)"
  by (rule same_queues_connections) (auto simp: count_heartbeat_timeout_def Let_def)

lemma same_queues_refuse: "same_queues S Q P st (refuse_full st)"
  by (rule same_queues_connections) (auto simp: refuse_full_def Let_def)

section \<open>Steps of a task\<close>

text \<open>The phases before a connection is registered.\<close>

fun greeting :: "phase \<Rightarrow> bool" where
  "greeting Handshaking = True"
| "greeting Authenticating = True"
| "greeting (Refusing _) = True"
| "greeting Acking = True"
| "greeting Acked = True"
| "greeting _ = False"

text \<open>
  A step of the task that receives from \<open>i\<close>: its own line stays in order, the other queues keep their
  data, and it takes up no other connection.
\<close>

definition keeps_line ::
    "serde \<Rightarrow> ('q, 'x) mpsc_scheme \<Rightarrow> (string \<Rightarrow> message list) \<Rightarrow> connection_id \<Rightarrow> ('q, 's) shared \<Rightarrow>
     task \<times> ('q, 's) shared \<Rightarrow> bool" where
  "keeps_line S Q H i st r \<longleftrightarrow> line_ok S Q H (snd r) (fst r) \<and> same_queues S Q (\<lambda>j. j \<noteq> i) st (snd r) \<and>
     (\<forall>j. id_of (phase (fst r)) = Some j \<longrightarrow> j = i) \<and> \<not> greeting (phase (fst r))"

text \<open>What a task has written and what waits for it.\<close>

definition line_upto :: "serde \<Rightarrow> ('q, 'x) mpsc_scheme \<Rightarrow> (string \<Rightarrow> message list) \<Rightarrow> connection_id \<Rightarrow>
    message list \<Rightarrow> ('q, 's) shared \<Rightarrow> bool" where
  "line_upto S Q H i ms st \<longleftrightarrow>
     (\<forall>c ch. map_of (connections (registry st)) i = Some c \<longrightarrow>
        subseq (data_msgs S ch ms @ data_msgs S ch (queued Q c)) (H ch))"

lemma line_ok_receiving:
  "line_ok S Q H st t \<Longrightarrow> rx_of (phase t) = Some i \<Longrightarrow> line_upto S Q H i (wire t) st"
  by (simp add: line_ok_def line_upto_def)

lemma line_upto_same:
  assumes "line_upto S Q H i ms st" and "same_queues S Q P st st'" and "P i"
    and "\<And>ch. data_msgs S ch ms' = data_msgs S ch ms"
  shows "line_upto S Q H i ms' st'"
  using assms unfolding line_upto_def same_queues_def queues_grow_def by (metis append_Nil2)

lemma leave_session_line:
  assumes "\<And>ch. subseq (data_msgs S ch (wire t)) (H ch)" and "same_queues S Q (\<lambda>j. j \<noteq> i) st st'"
  shows "keeps_line S Q H i st (leave_session Q i r t st')"
  using assms same_queues_trans [OF assms(2) same_queues_set_tx, of i]
  by (simp add: keeps_line_def leave_session_def line_ok_def)

lemma after_branch_line:
  assumes w: "\<And>ch. subseq (data_msgs S ch (written ss)) (H ch)"
    and line: "c = Continue \<Longrightarrow> line_upto S Q H i (written ss) st'"
    and same: "same_queues S Q (\<lambda>j. j \<noteq> i) st st'" and nx: "nxt = Running \<or> nxt = Checking"
  shows "keeps_line S Q H i st (after_branch Q i nxt t (c, ss, st'))"
proof (cases c)
  case Continue
  have "rx_of (nxt i n) = Some i \<and> quiet_phase S (nxt i n) \<and> id_of (nxt i n) = Some i \<and> \<not> greeting (nxt i n)" for n
    using nx by auto
  with Continue line [OF Continue] w same show ?thesis
    by (auto simp: after_branch_def keeps_line_def line_ok_def line_upto_def Let_def)
next
  case (Stop y)
  with w same show ?thesis by (auto simp: after_branch_def Let_def intro!: leave_session_line)
next
  case (Return e)
  with w same show ?thesis by (auto simp: after_branch_def Let_def intro!: leave_session_line)
next
  case Parked
  with w same show ?thesis by (auto simp: after_branch_def keeps_line_def line_ok_def Let_def)
qed

text \<open>A branch that does not take a frame from the queue.\<close>

lemma on_inbound_quiet:
  assumes S: "serde_ok S" and Q: "mpsc_ok Q" and m: "\<And>b. m \<noteq> Text b"
    and h: "on_inbound S Q i cl m e ss st = (c, ss', st')"
  shows "same_queues S Q P st st' \<and> (\<forall>ch. data_msgs S ch (written ss') = data_msgs S ch (written ss))"
proof (cases m)
  case (WsPing p)
  with h show ?thesis
    using write_msg_written [of "WsPong p" e ss c ss'] by (auto simp: on_inbound_def same_queues_refl split: prod.splits)
next
  case (Binary d)
  have "same_queues S Q P st (reply Q i (to_frame S (Error x y)) st)" for x y
    by (rule same_queues_reply [OF Q quiet_frame [OF S]]) simp
  with h show ?thesis by (auto simp: on_inbound_def Binary)
qed (use h m in \<open>auto simp: on_inbound_def same_queues_refl\<close>)

lemma select_body_quiet:
  assumes S: "serde_ok S" and Q: "mpsc_ok Q"
    and ev: "\<And>b. ev \<noteq> Inbound (Some (Inr (Text b)))" "\<And>f. ev \<noteq> Outbound (Some f)"
    and h: "select_body S Q i cl ev e ss st = (c, ss', st')"
  shows "same_queues S Q P st st' \<and> (\<forall>ch. data_msgs S ch (written ss') = data_msgs S ch (written ss))"
proof (cases ev)
  case (Outbound x)
  with h ev(2) show ?thesis by (cases x) (auto simp: select_body_def same_queues_refl)
next
  case (Inbound x)
  show ?thesis
  proof (cases "\<exists>m. x = Some (Inr m)")
    case True
    then obtain m where x: "x = Some (Inr m)" by blast
    then have "\<And>b. m \<noteq> Text b" using ev(1) Inbound by auto
    from on_inbound_quiet [OF S Q this, of i cl e "ss\<lparr>last_seen := now e\<rparr>" st c ss' st' P] h
    show ?thesis by (simp add: select_body_def Inbound x)
  next
    case False
    with h show ?thesis
      by (auto simp: select_body_def Inbound same_queues_refl Let_def split: option.splits sum.splits)
  qed
next
  case Tick
  with h show ?thesis
    using write_msg_written [of "WsPing []" e ss c ss'] close_sink_written [of HeartbeatTimeout e ss c ss']
      same_queues_refl [of S Q P st] same_queues_heartbeat [of S Q P st]
    by (auto simp: select_body_def split: prod.splits if_splits)
qed

lemma branch_line:
  assumes S: "serde_ok S" and Q: "mpsc_ok Q" and t: "line_ok S Q H st t" "rx_of (phase t) = Some i"
    and ev: "\<And>b. ev \<noteq> Inbound (Some (Inr (Text b)))" "\<And>f. ev \<noteq> Outbound (Some f)"
  shows "keeps_line S Q H i st (after_branch Q i Checking t
     (select_body S Q i cl ev e \<lparr>last_seen = ls, written = wire t\<rparr> st))"
proof -
  obtain c ss st' where sel: "select_body S Q i cl ev e \<lparr>last_seen = ls, written = wire t\<rparr> st = (c, ss, st')"
    by (metis prod.exhaust)
  have same: "same_queues S Q P st st'" and d: "\<And>ch. data_msgs S ch (written ss) = data_msgs S ch (wire t)" for P
    using select_body_quiet [OF S Q ev sel] by simp_all
  have "line_upto S Q H i (written ss) st'"
    by (rule line_upto_same [where P = "\<lambda>_. True", OF line_ok_receiving [OF t] same]) (simp_all add: d)
  with t(1) show ?thesis
    unfolding sel by (intro after_branch_line same) (auto simp: d line_ok_def)
qed

lemma recv_queued:
  assumes Q: "mpsc_ok Q" and f: "fst (recv Q (tx c)) = Some f"
  shows "queued Q c = to_message f # queued Q (c\<lparr>tx := snd (recv Q (tx c))\<rparr>)"
  using f by (auto simp: queued_def mpsc_recv [OF Q] chan_recv_def split: list.splits)

lemma outbound_line:
  assumes Q: "mpsc_ok Q" and t: "line_ok S Q H st t" "rx_of (phase t) = Some i"
    and c: "map_of (connections (registry st)) i = Some c" and f: "fst (recv Q (tx c)) = Some f"
  shows "keeps_line S Q H i st (after_branch Q i Checking t
     (select_body S Q i cl (Outbound (Some f)) e \<lparr>last_seen = ls, written = wire t\<rparr> (set_tx i (\<lambda>q. snd (recv Q q)) st)))"
proof -
  let ?ss = "\<lparr>last_seen = ls, written = wire t\<rparr>" and ?st = "set_tx i (\<lambda>q. snd (recv Q q)) st"
  obtain k ss where w: "write_msg (to_message f) e ?ss = (k, ss)" by (metis prod.exhaust)
  then have sel: "select_body S Q i cl (Outbound (Some f)) e ?ss ?st = (k, ss, ?st)" by (simp add: select_body_def)
  have line: "subseq (data_msgs S ch (wire t @ [to_message f]) @
      data_msgs S ch (queued Q (c\<lparr>tx := snd (recv Q (tx c))\<rparr>))) (H ch)" for ch
  proof -
    have "data_msgs S ch (queued Q c) =
        data_msgs S ch [to_message f] @ data_msgs S ch (queued Q (c\<lparr>tx := snd (recv Q (tx c))\<rparr>))"
      unfolding recv_queued [OF Q f] data_msgs_simps(2) [symmetric] by simp
    moreover have "subseq (data_msgs S ch (wire t) @ data_msgs S ch (queued Q c)) (H ch)"
      using line_ok_receiving [OF t] c by (simp add: line_upto_def)
    ultimately show ?thesis by simp
  qed
  have wire: "subseq (data_msgs S ch (wire t @ [to_message f])) (H ch)" for ch
    using subseq_order.trans [OF _ line] by (metis list_emb_append2 prefix_imp_subseq prefixI)
  have "subseq (data_msgs S ch (written ss)) (H ch)" for ch
    using write_msg_written [OF w] wire [of ch] t(1) by (auto simp: line_ok_def)
  moreover have "line_upto S Q H i (written ss) ?st" if "k = Continue"
  proof -
    have "written ss = wire t @ [to_message f]"
      using w that by (auto simp: write_msg_def split: sum.splits)
    then show ?thesis using line c by (simp add: line_upto_def map_of_set_tx)
  qed
  ultimately show ?thesis
    unfolding sel by (intro after_branch_line same_queues_set_tx) auto
qed

lemma text_line:
  assumes S: "serde_ok S" and t: "line_ok S Q H st t" "rx_of (phase t) = Some i"
    and hb: "handle_begin S b i cl st = (acts, st')"
  shows "keeps_line S Q H i st (t\<lparr>phase := Handling i ls acts\<rparr>, st')"
proof -
  have same: "same_queues S Q P st st'" and "\<forall>a \<in> set acts. quiet_act S a" for P
    using same_queues_handle_begin [OF S hb, of Q P] by simp_all
  moreover have "line_upto S Q H i (wire t) st'"
    by (rule line_upto_same [where P = "\<lambda>_. True", OF line_ok_receiving [OF t] same]) simp_all
  ultimately show ?thesis using t by (auto simp: keeps_line_def line_ok_def line_upto_def)
qed

lemma on_running_line:
  assumes S: "serde_ok S" and Q: "mpsc_ok Q" and t: "line_ok S Q H st t" "phase t = Running i ls"
    and h: "on_running S Q cl i ls inp t st = Some r"
  shows "keeps_line S Q H i st r"
proof -
  have rx: "rx_of (phase t) = Some i" and w: "\<And>ch. subseq (data_msgs S ch (wire t)) (H ch)"
    using t by (simp_all add: line_ok_def)
  note branch = branch_line [OF S Q t(1) rx]
  consider (out_gone) e where "inp = Select WakeOutbound e" "map_of (connections (registry st)) i = None"
    | (out) e c where "inp = Select WakeOutbound e" "map_of (connections (registry st)) i = Some c"
    | (body) e b where "inp = Select (WakeInbound (Some (Inr (Text b)))) e"
    | (inb) e x where "inp = Select (WakeInbound x) e" "\<And>b. x \<noteq> Some (Inr (Text b))"
    | (tick) e where "inp = Select WakeTick e" | (panic) "inp = Panic"
  proof (cases inp)
    case (Select wk e)
    then show ?thesis
      using that by (cases wk; cases "map_of (connections (registry st)) i") blast+
  qed (use h that in \<open>simp_all add: on_running_def\<close>)
  then show ?thesis
  proof cases
    case out_gone
    with h branch [of "Outbound None"] show ?thesis by (auto simp: on_running_def)
  next
    case (out e c)
    with h obtain f where "fst (recv Q (tx c)) = Some f" and "r = after_branch Q i Checking t
        (select_body S Q i cl (Outbound (Some f)) e \<lparr>last_seen = ls, written = wire t\<rparr> (set_tx i (\<lambda>q. snd (recv Q q)) st))"
      by (auto simp: on_running_def split: option.splits)
    with outbound_line [OF Q t(1) rx out(2)] show ?thesis by simp
  next
    case (body e b)
    with h text_line [OF S t(1) rx] show ?thesis by (auto simp: on_running_def split: prod.splits)
  next
    case (inb e x)
    then have "r = after_branch Q i Checking t
        (select_body S Q i cl (Inbound x) e \<lparr>last_seen = ls, written = wire t\<rparr> st)"
      using h by (auto simp: on_running_def Let_def split: option.splits sum.splits message.splits)
    with inb(2) branch [of "Inbound x"] show ?thesis by auto
  next
    case (tick e)
    with h branch [of Tick] show ?thesis by (auto simp: on_running_def)
  next
    case panic
    with h leave_session_line [where st' = st and t = t, OF w same_queues_refl] show ?thesis
      by (auto simp: on_running_def)
  qed
qed

lemma on_handling_line:
  assumes S: "serde_ok S" and Q: "mpsc_ok Q" and t: "line_ok S Q H st t" "phase t = Handling i ls acts"
    and h: "on_handling S Q i ls acts inp t st = Some r"
  shows "keeps_line S Q H i st r"
proof -
  have rx: "rx_of (phase t) = Some i" and w: "\<And>ch. subseq (data_msgs S ch (wire t)) (H ch)"
    and quiet: "\<forall>a \<in> set acts. quiet_act S a"
    using t by (simp_all add: line_ok_def)
  consider "inp = Act" "acts = []" | a rest where "inp = Act" "acts = a # rest" | "inp = Panic"
    using h by (cases inp; cases acts) (auto simp: on_handling_def)
  then show ?thesis
  proof cases
    case 1
    with h t line_ok_receiving [OF t(1) rx] show ?thesis
      by (auto simp: on_handling_def keeps_line_def line_ok_def same_queues_refl)
  next
    case (2 a rest)
    obtain pending st' where step: "act_step S Q i a st = (pending, st')" by (metis prod.exhaust)
    have same: "same_queues S Q P st st'" and "\<forall>a \<in> set pending. quiet_act S a" for P
      using same_queues_act_step [OF S Q _ step] quiet 2 by simp_all
    moreover have "line_upto S Q H i (wire t) st'"
      by (rule line_upto_same [where P = "\<lambda>_. True", OF line_ok_receiving [OF t(1) rx] same]) simp_all
    ultimately show ?thesis
      using h w quiet 2 step by (auto simp: on_handling_def keeps_line_def line_ok_def line_upto_def)
  next
    case 3
    with h leave_session_line [where st' = st and t = t, OF w same_queues_refl] show ?thesis
      by (auto simp: on_handling_def)
  qed
qed

lemma on_checking_line:
  assumes t: "line_ok S Q H st t" "phase t = Checking i ls" and h: "on_checking Q i ls inp t st = Some r"
  shows "keeps_line S Q H i st r"
proof -
  have rx: "rx_of (phase t) = Some i" and w: "\<And>ch. subseq (data_msgs S ch (wire t)) (H ch)"
    using t by (simp_all add: line_ok_def)
  obtain e where inp: "inp = Check e" using h by (cases inp) (auto simp: on_checking_def)
  show ?thesis
  proof (cases "Registry_drops i (registry st) \<ge> max_consecutive_drops (config st)")
    case True
    obtain c ss where close: "close_sink TooSlow e \<lparr>last_seen = ls, written = wire t\<rparr> = (c, ss)"
      by (metis prod.exhaust)
    have d: "data_msgs S ch (written ss) = data_msgs S ch (wire t)" for ch
      using close_sink_written [OF close] by auto
    have "line_upto S Q H i (written ss) st"
      using line_ok_receiving [OF t(1) rx] by (simp add: line_upto_def d)
    then have "keeps_line S Q H i st (after_branch Q i Running t (c, ss, st))"
      using w by (intro after_branch_line same_queues_refl) (simp_all add: d)
    with True h close show ?thesis by (auto simp: on_checking_def inp)
  next
    case False
    with h t show ?thesis
      by (auto simp: on_checking_def inp keeps_line_def line_ok_def same_queues_refl)
  qed
qed

section \<open>Steps of the server\<close>

text \<open>
  \<open>H\<close> is the history of each connection. A task that has registered a connection is in line with the
  history of that one; after its session it stays in line with it.
\<close>

definition own_line ::
    "serde \<Rightarrow> ('q, 'x) mpsc_scheme \<Rightarrow> (connection_id \<Rightarrow> string \<Rightarrow> message list) \<Rightarrow> ('q, 's) shared \<Rightarrow> task \<Rightarrow> bool" where
  "own_line S Q H st t \<longleftrightarrow>
     (greeting (phase t) \<longrightarrow> (\<forall>ch. data_msgs S ch (wire t) = [])) \<and>
     (\<exists>i. (\<forall>j. id_of (phase t) = Some j \<longrightarrow> j = i) \<and> line_ok S Q (H i) st t)"

definition lines_ok ::
    "serde \<Rightarrow> ('q, 'x) mpsc_scheme \<Rightarrow> (connection_id \<Rightarrow> string \<Rightarrow> message list) \<Rightarrow> ('q, 's) sys \<Rightarrow> bool" where
  "lines_ok S Q H s \<longleftrightarrow> (\<forall>t \<in> set (tasks s). own_line S Q H (srv s) t)"

text \<open>A task that receives from nobody, before and after its step.\<close>

lemma line_ok_idle:
  "rx_of (phase t) = None \<Longrightarrow> quiet_phase S (phase t) \<Longrightarrow> (\<And>ch. subseq (data_msgs S ch (wire t)) (H ch)) \<Longrightarrow>
     line_ok S Q H st t"
  by (simp add: line_ok_def)

lemma rx_of_id: "rx_of p = Some i \<Longrightarrow> id_of p = Some i"
  by (cases p) auto

lemma own_line_session: "own_line S Q H st t \<Longrightarrow> id_of (phase t) = Some i \<Longrightarrow> line_ok S Q (H i) st t"
  by (auto simp: own_line_def)

lemma own_line_silent:
  "(\<And>ch. data_msgs S ch (wire t) = []) \<Longrightarrow> id_of (phase t) = None \<Longrightarrow> quiet_phase S (phase t) \<Longrightarrow> own_line S Q H st t"
  by (cases "phase t") (simp_all add: own_line_def line_ok_def)

lemma own_line_moved:
  assumes "own_line S Q H st t" and "\<And>ch. data_msgs S ch (wire t') = data_msgs S ch (wire t)"
    and "rx_of (phase t') = None" and "quiet_phase S (phase t')" and "\<not> greeting (phase t')" and "id_of (phase t') = None"
  shows "own_line S Q H st' t'"
  using assms by (auto simp: own_line_def line_ok_def)

lemma own_line_grow:
  assumes t: "own_line S Q H st t" and "queues_grow S Q P D st st'" and "\<And>i. rx_of (phase t) = Some i \<Longrightarrow> P i"
    and "\<And>i ch. H' i ch = H i ch @ D i ch"
  shows "own_line S Q H' st' t"
proof -
  obtain i where i: "\<forall>j. id_of (phase t) = Some j \<longrightarrow> j = i" and line: "line_ok S Q (H i) st t"
    using t by (auto simp: own_line_def)
  have "line_ok S Q (H' i) st' t"
    by (rule line_ok_grow [OF line assms(2)]) (use assms(3,4) i rx_of_id in auto)
  with i t show ?thesis by (auto simp: own_line_def)
qed

lemma own_line_same:
  assumes "own_line S Q H st t" and "same_queues S Q P st st'" and "\<And>i. rx_of (phase t) = Some i \<Longrightarrow> P i"
  shows "own_line S Q H st' t"
  using assms unfolding same_queues_def by (rule own_line_grow) simp_all

lemma lines_ok_change:
  assumes "lines_ok S Q H s" and "queues_grow S Q (\<lambda>_. True) D (srv s) st" and "\<And>i ch. H' i ch = H i ch @ D i ch"
  shows "lines_ok S Q H' (s\<lparr>srv := st\<rparr>)"
  using assms by (auto simp: lines_ok_def intro: own_line_grow)

lemma lines_ok_task:
  assumes lines: "lines_ok S Q H s" and k: "k < length (tasks s)" and t: "own_line S Q H st t"
    and same: "same_queues S Q P (srv s) st"
    and P: "\<And>j i. j < length (tasks s) \<Longrightarrow> j \<noteq> k \<Longrightarrow> rx_of (phase (tasks s ! j)) = Some i \<Longrightarrow> P i"
  shows "lines_ok S Q H (s\<lparr>srv := st, tasks := (tasks s)[k := t]\<rparr>)"
  unfolding lines_ok_def
proof
  fix t' assume "t' \<in> set (tasks (s\<lparr>srv := st, tasks := (tasks s)[k := t]\<rparr>))"
  then obtain j where j: "j < length (tasks s)" "t' = (tasks s)[k := t] ! j" by (auto simp: in_set_conv_nth)
  show "own_line S Q H (srv (s\<lparr>srv := st, tasks := (tasks s)[k := t]\<rparr>)) t'"
  proof (cases "j = k")
    case True
    with j t k show ?thesis by simp
  next
    case False
    with j have "t' = tasks s ! j" by simp
    moreover from this j lines have "own_line S Q H (srv s) t'" by (simp add: lines_ok_def)
    ultimately show ?thesis using own_line_same [OF _ same] P [OF j(1) False] by auto
  qed
qed

lemma lines_ok_session:
  assumes inv: "sys_inv S Q M b s" and lines: "lines_ok S Q H s" and k: "k < length (tasks s)"
    and id: "id_of (phase (tasks s ! k)) = Some i" and step: "keeps_line S Q (H i) i (srv s) (t, st)"
  shows "lines_ok S Q H (s\<lparr>srv := st, tasks := (tasks s)[k := t]\<rparr>)"
proof (rule lines_ok_task [OF lines k])
  show "own_line S Q H st t" and "same_queues S Q (\<lambda>j. j \<noteq> i) (srv s) st"
    using step by (auto simp: keeps_line_def own_line_def)
  fix j i' assume j: "j < length (tasks s)" "j \<noteq> k" "rx_of (phase (tasks s ! j)) = Some i'"
  then have "owns (tasks s) j i'" using rx_of_id by (auto simp: owns_def)
  moreover have "owns (tasks s) k i" using k id by (simp add: owns_def)
  ultimately show "i' \<noteq> i" using inv j(2) unfolding sys_inv_def owned_def by blast
qed

lemma lines_ok_local:
  assumes "lines_ok S Q H s" and "k < length (tasks s)"
    and "own_line S Q H st t" and "\<And>i. map_of (connections (registry st)) i = map_of (connections (registry (srv s))) i"
  shows "lines_ok S Q H (s\<lparr>srv := st, tasks := (tasks s)[k := t]\<rparr>)"
  using assms by (intro lines_ok_task [where P = "\<lambda>_. True"] same_queues_connections) auto

lemma greeting_line:
  assumes S: "serde_ok S" and t: "\<And>ch. data_msgs S ch (wire t) = []"
  shows "on_handshake inp t = Some t' \<Longrightarrow> own_line S Q H st' t'"
    and "on_authenticating S v inp t = Some t' \<Longrightarrow> own_line S Q H st' t'"
    and "on_refusing S e inp t = Some t' \<Longrightarrow> own_line S Q H st' t'"
    and "on_acking S cl inp t = Some t' \<Longrightarrow> own_line S Q H st' t'"
  by (rule own_line_silent;
      auto simp: on_handshake_def on_authenticating_def on_refusing_def on_acking_def data_msgs_frame [OF S] t
        split: input.splits timed.splits sum.splits)+

lemma register_line:
  assumes Q: "mpsc_ok Q" and inv: "sys_inv S Q M b s" and lines: "lines_ok S Q H s"
    and k: "k < length (tasks s)" and t: "phase (tasks s ! k) = Acked"
    and add: "Registry_add (subject cl) (new_channel Q (send_queue (config (srv s)))) (registry (srv s)) = (i, reg)"
    and most: "send_queue (config (srv s)) \<le> MAX_PERMITS"
  shows "lines_ok S Q H (s\<lparr>srv := (srv s)\<lparr>registry := reg\<rparr>,
     tasks := (tasks s)[k := (tasks s ! k)\<lparr>phase := Running i n\<rparr>]\<rparr>)"
proof (rule lines_ok_task [OF lines k])
  note flds = add_fields [OF add]
  have rinv: "registry_inv (registry (srv s))" and sq: "0 < send_queue (config (srv s))"
    using inv by (auto simp: sys_inv_def setup_ok_def)
  have "own_line S Q H (srv s) (tasks s ! k)" using lines k by (simp add: lines_ok_def)
  then have "data_msgs S ch (wire (tasks s ! k)) = []" for ch using t by (simp add: own_line_def)
  then show "own_line S Q H ((srv s)\<lparr>registry := reg\<rparr>) ((tasks s ! k)\<lparr>phase := Running i n\<rparr>)"
    by (auto simp: own_line_def line_ok_def flds(4) hash_simps queued_def mpsc_new [OF Q sq most])
  show "same_queues S Q (\<lambda>j. j \<noteq> i) (srv s) ((srv s)\<lparr>registry := reg\<rparr>)"
    unfolding same_queues_def queues_grow_def by (auto simp: flds(4) hash_simps)
  fix j i' assume "j < length (tasks s)" "rx_of (phase (tasks s ! j)) = Some i'"
  then have "owns (tasks s) j i'" using rx_of_id by (auto simp: owns_def)
  then have "i' \<in> fst ` set (connections (registry (srv s)))"
    using inv unfolding sys_inv_def owned_def by blast
  then show "i' \<noteq> i" using next_id_fresh [OF rinv] flds(1) by metis
qed

lemma acked_line:
  assumes Q: "mpsc_ok Q" and inv: "sys_inv S Q M b s" and lines: "lines_ok S Q H s"
    and k: "k < length (tasks s)" and t: "phase (tasks s ! k) = Acked"
    and h: "on_acked Q cl inp (tasks s ! k) (srv s) = Some (t', st)"
  shows "lines_ok S Q H (s\<lparr>srv := st, tasks := (tasks s)[k := t']\<rparr>)"
  using h
proof (cases rule: on_acked_cases)
  case (Registers n i reg)
  with register_line [OF Q inv lines k t Registers(3,2)] show ?thesis by simp
next
  case (Panics n)
  have "own_line S Q H (srv s) (tasks s ! k)" using lines k by (simp add: lines_ok_def)
  then have "own_line S Q H st t'" by (rule own_line_moved) (simp_all add: Panics)
  then show ?thesis by (rule lines_ok_local [OF lines k]) (simp add: Panics)
qed

lemma guard_line:
  assumes "lines_ok S Q H s" and "k < length (tasks s)" and "phase (tasks s ! k) = Unwinding i r"
  shows "lines_ok S Q H (s\<lparr>srv := (srv s)\<lparr>registry := Registry_remove i (registry (srv s))\<rparr>,
     tasks := (tasks s)[k := (tasks s ! k)\<lparr>phase := Finished r\<rparr>]\<rparr>)"
proof (rule lines_ok_task [where P = "\<lambda>_. True", OF assms(1,2)])
  have "own_line S Q H (srv s) (tasks s ! k)" using assms by (simp add: lines_ok_def)
  then show "own_line S Q H ((srv s)\<lparr>registry := Registry_remove i (registry (srv s))\<rparr>)
      ((tasks s ! k)\<lparr>phase := Finished r\<rparr>)"
    by (rule own_line_moved) simp_all
  show "same_queues S Q (\<lambda>_. True) (srv s) ((srv s)\<lparr>registry := Registry_remove i (registry (srv s))\<rparr>)"
    by (rule same_queues_connections) (auto dest: remove_map_of)
qed simp

lemma permit_line:
  assumes "lines_ok S Q H s" and "k < length (tasks s)" and "phase (tasks s ! k) = Finished r"
    and "permit_drop M inp (tasks s ! k) (srv s) = Some (t, st)"
  shows "lines_ok S Q H (s\<lparr>srv := st, tasks := (tasks s)[k := t]\<rparr>)"
proof (rule lines_ok_local [OF assms(1,2)])
  have "own_line S Q H (srv s) (tasks s ! k)" using assms by (simp add: lines_ok_def)
  then show "own_line S Q H st t"
    by (rule own_line_moved) (use assms(4) in \<open>auto simp: permit_drop_def split: input.splits\<close>)
qed (use assms(4) in \<open>auto simp: permit_drop_def split: input.splits\<close>)

lemma local_line:
  assumes "lines_ok S Q H s" and "k < length (tasks s)" and "local_step x (srv s) = Some (t, st)"
    and "\<And>t'. x = Some t' \<Longrightarrow> own_line S Q H (srv s) t'"
  shows "lines_ok S Q H (s\<lparr>srv := st, tasks := (tasks s)[k := t]\<rparr>)"
  using assms(3,4) by (auto simp: local_step_def intro!: lines_ok_local [OF assms(1,2)])

lemma anonymous_line:
  assumes S: "serde_ok S" and lines: "lines_ok S Q H s" and k: "k < length (tasks s)" and w: "who (tasks s ! k) = None"
    and h: "connection_step S Q M inp (tasks s ! k) (srv s) = Some (t, st)"
  shows "lines_ok S Q H (s\<lparr>srv := st, tasks := (tasks s)[k := t]\<rparr>)"
proof (cases "\<exists>r. phase (tasks s ! k) = Finished r")
  case True
  then obtain r where r: "phase (tasks s ! k) = Finished r" by blast
  with h w permit_line [OF lines k r] show ?thesis by (simp add: connection_step_def)
next
  case False
  then have "greeting (phase (tasks s ! k))"
    using h w by (cases "phase (tasks s ! k)") (simp_all add: connection_step_def)
  then have "data_msgs S ch (wire (tasks s ! k)) = []" for ch
    using lines k by (auto simp: lines_ok_def own_line_def)
  note phases = greeting_line [OF S this]
  from False h w show ?thesis
    using phases(1,2,3)
    by (cases "phase (tasks s ! k)") (auto simp: connection_step_def intro!: local_line [OF lines k])
qed

lemma task_line:
  assumes S: "serde_ok S" and Q: "mpsc_ok Q" and inv: "sys_inv S Q M b s" and lines: "lines_ok S Q H s"
    and k: "k < length (tasks s)" and h: "connection_step S Q M inp (tasks s ! k) (srv s) = Some (t, st)"
  shows "lines_ok S Q H (s\<lparr>srv := st, tasks := (tasks s)[k := t]\<rparr>)"
proof (cases "who (tasks s ! k)")
  case None
  from anonymous_line [OF S lines k None h] show ?thesis .
next
  case (Some cl)
  let ?t = "tasks s ! k"
  have own: "own_line S Q H (srv s) ?t" using lines k by (simp add: lines_ok_def)
  note ok = own_line_session [OF own] and session = lines_ok_session [OF inv lines k]
  show ?thesis
  proof (cases "phase ?t")
    case Acking
    then have "data_msgs S ch (wire ?t) = []" for ch using own by (simp add: own_line_def)
    note phases = greeting_line(4) [OF S this]
    from Acking h Some show ?thesis
      using phases by (auto simp: connection_step_def intro!: local_line [OF lines k])
  next
    case Acked
    with h Some acked_line [OF Q inv lines k Acked] show ?thesis by (simp add: connection_step_def)
  next
    case (Running i ls)
    with h Some show ?thesis
      using on_running_line [OF S Q ok Running] by (auto simp: connection_step_def intro!: session)
  next
    case (Handling i ls acts)
    with h Some show ?thesis
      using on_handling_line [OF S Q ok Handling] by (auto simp: connection_step_def intro!: session)
  next
    case (Checking i ls)
    with h Some show ?thesis
      using on_checking_line [OF ok Checking] by (auto simp: connection_step_def intro!: session)
  next
    case (Unwinding i r)
    with h Some guard_line [OF lines k Unwinding] show ?thesis
      by (auto simp: connection_step_def Registered_drop_def split: input.splits)
  next
    case (Finished r)
    with h Some show ?thesis using permit_line [OF lines k Finished] by (auto simp: connection_step_def)
  qed (use h Some in \<open>simp_all add: connection_step_def\<close>)
qed

lemma accept_line:
  assumes lines: "lines_ok S Q H s"
  shows "lines_ok S Q H (serve_accept M stream s)"
proof -
  have "own_line S Q H st new_task" for st by (rule own_line_silent) (simp_all add: new_task_def)
  moreover have "own_line S Q H (refuse_full (srv s)) t" if "t \<in> set (tasks s)" for t
  proof -
    have "own_line S Q H (srv s) t" using lines that by (simp add: lines_ok_def)
    then show ?thesis by (rule own_line_same [OF _ same_queues_refuse [where P = "\<lambda>_. True"]]) simp
  qed
  moreover have "own_line S Q H ((srv s)\<lparr>slots := n\<rparr>) t" if "t \<in> set (tasks s)" for t n
    using lines that by (auto simp: lines_ok_def own_line_def line_ok_def)
  ultimately show ?thesis
    using lines by (auto simp: serve_accept_def lines_ok_def split: option.splits)
qed

text \<open>What one event adds to the histories.\<close>

lemma exec_line:
  assumes S: "serde_ok S" and Q: "mpsc_ok Q" and inv: "sys_inv S Q M b s" and lines: "lines_ok S Q H s"
    and h: "sys_exec S Q M ev s = Some s'"
  shows "lines_ok S Q (\<lambda>i ch. H i ch @ offered_msgs S i ch [ev]) s'"
proof -
  have rinv: "registry_inv (registry (srv s))" using inv by (simp add: sys_inv_def)
  have quiet: "offered_msgs S i ch [ev] = []" if "\<And>c p. ev \<noteq> EvPublish c p" "\<And>c p. ev \<noteq> EvPublishTo i c p" for i ch
    using that by (simp add: offered_msgs_def offered_simps)
  have quiet_step: "lines_ok S Q (\<lambda>i ch. H i ch @ offered_msgs S i ch [ev]) s'"
    if "lines_ok S Q H s'" "\<And>c p. ev \<noteq> EvPublish c p" "\<And>j c p. ev \<noteq> EvPublishTo j c p" using that quiet by simp
  note grow = lines_ok_change [OF lines, of "\<lambda>i ch. offered_msgs S i ch [ev]"]
    and one = queues_reply [OF Q, where D = "\<lambda>i ch. offered_msgs S i ch [ev]"]
  show ?thesis
  proof (cases ev)
    case (EvAccept stream)
    with h accept_line [OF lines] have "lines_ok S Q H s'" by (auto split: if_splits)
    then show ?thesis by (rule quiet_step) (simp_all add: EvAccept)
  next
    case EvAbort
    with h lines have "lines_ok S Q H s'" by (auto simp: Accepting_drop_def lines_ok_def)
    then show ?thesis by (rule quiet_step) (simp_all add: EvAbort)
  next
    case (EvTask k inp)
    with h task_line [OF S Q inv lines] have "lines_ok S Q H s'" by (auto split: if_splits)
    then show ?thesis by (rule quiet_step) (simp_all add: EvTask)
  next
    case (EvPublish ch p)
    have "data_msgs S c [to_message (to_frame S (Data ch p))] = offered_msgs S i c [ev]" for i c
      by (simp add: data_msgs_frame [OF S] offered_msgs_def EvPublish offered_simps)
    from grow [OF queues_publish [OF Q rinv this, where ch = ch] refl] h show ?thesis
      by (simp add: EvPublish Server_publish_def split_beta Let_def)
  next
    case (EvPublishTo i ch p)
    have "data_msgs S c [to_message (to_frame S (Data ch p))] = offered_msgs S i c [ev]" for c
      by (simp add: data_msgs_frame [OF S] offered_msgs_def EvPublishTo offered_simps)
    from grow [OF one [OF this] refl] h show ?thesis by (simp add: EvPublishTo split: if_splits)
  next
    case EvResyncAll
    have "data_msgs S c [to_message (to_frame S (Resync []))] = offered_msgs S i c [ev]" for i c
      using quiet [of i c] by (simp add: data_msgs_frame [OF S] EvResyncAll)
    from grow [OF queues_broadcast [OF Q this] refl] h show ?thesis
      by (simp add: EvResyncAll Server_resync_all_def split_beta Let_def)
  next
    case (EvResyncOn chs ch)
    have "data_msgs S c [to_message (to_frame S (Resync chs))] = offered_msgs S i c [ev]" for i c
      using quiet [of i c] by (simp add: data_msgs_frame [OF S] EvResyncOn)
    from grow [OF queues_publish [OF Q rinv this, where ch = ch] refl] h show ?thesis
      by (simp add: EvResyncOn resync_on_def split: if_splits)
  next
    case (EvResyncTo i chs)
    have "data_msgs S c [to_message (to_frame S (Resync chs))] = offered_msgs S i c [ev]" for c
      using quiet [of i c] by (simp add: data_msgs_frame [OF S] EvResyncTo)
    from grow [OF one [OF this] refl] h show ?thesis by (simp add: EvResyncTo)
  next
    case (EvSnapshots snap)
    with h lines have "lines_ok S Q H s'" by (auto simp: lines_ok_def own_line_def line_ok_def)
    then show ?thesis by (rule quiet_step) (simp_all add: EvSnapshots)
  qed
qed

lemma offered_msgs_append:
  "offered_msgs S i ch (evs @ evs') = offered_msgs S i ch evs @ offered_msgs S i ch evs'"
  by (simp add: offered_msgs_def offered_def List.map_filter_def)

lemma run_line:
  assumes S: "serde_ok S" and Q: "mpsc_ok Q" and M: "sem_ok M"
  shows "sys_inv S Q M b s \<Longrightarrow> lines_ok S Q H s \<Longrightarrow> sys_run S Q M evs s = Some s' \<Longrightarrow>
    lines_ok S Q (\<lambda>i ch. H i ch @ offered_msgs S i ch evs) s'"
proof (induction evs arbitrary: s H)
  case Nil
  then show ?case by (simp add: offered_msgs_def offered_simps)
next
  case (Cons ev evs)
  from Cons.prems(3) obtain s1 where s1: "sys_exec S Q M ev s = Some s1" "sys_run S Q M evs s1 = Some s'"
    by (auto split: option.splits)
  have "sys_inv S Q M b s1" by (rule inv_step [OF S Q M Cons.prems(1) sys_exec_step [OF s1(1)]])
  from Cons.IH [OF this exec_line [OF S Q Cons.prems(1,2) s1(1)] s1(2)] show ?case
    using offered_msgs_append [of S _ _ "[ev]" evs] by simp
qed

lemma run_from_start:
  assumes "serde_ok S" and "mpsc_ok Q" and "sem_ok M" and "started M b s0" and "sys_run S Q M evs s0 = Some s"
  shows "lines_ok S Q (\<lambda>i ch. offered_msgs S i ch evs) s"
proof -
  have "sys_inv S Q M b s0" by (rule inv_started [OF assms(3,4)])
  moreover have "lines_ok S Q (\<lambda>_ _. []) s0"
    using assms(4) by (auto simp: started_def serving_def lines_ok_def)
  ultimately show ?thesis
    using run_line [OF assms(1-3), of b s0 "\<lambda>_ _. []" evs s] assms(5) by simp
qed

section \<open>Properties\<close>

text \<open>A run in which a second publisher of the channel overlaps with a first one.\<close>

definition overlap_events :: "(chan, nat) sys_event list" where
  "overlap_events = butlast demo_events @ [EvPublishTo (ConnectionId 1) ''tu'' ''9'',
     EvTask 0 (Select WakeOutbound (quiet 5)), EvPublishTo (ConnectionId 1) ''tu'' ''10'']"

lemma overlap_run: "\<exists>s. sys_run demo_serde ref_mpsc ref_sem overlap_events demo_start = Some s \<and> length (tasks s) = 1 \<and>
     id_of (phase (hd (tasks s))) = Some (ConnectionId 1)"
  by (simp add: overlap_events_def demo_defs demo_eval indexed_def)

text \<open>
  C5: A client receives a channel's data in the order it was offered. Over any run of the server,
  whatever the tasks do between publications, whatever is dropped and however many publishers overlap:
  there is one connection, the one the task has registered while it has one, such that for every
  channel the data frames the socket has taken are a subsequence of those offered to that connection,
  by whole publications and by the single deliveries of overlapping ones. None is made up, repeated,
  altered or reordered. When no publications overlap, this is the order of publication for every client.
\<close>

theorem data_arrives_in_published_order:
  assumes "serde_ok S" and "mpsc_ok Q" and "sem_ok M"
    and start: "started M b s0" and run: "sys_run S Q M evs s0 = Some s" and t: "t \<in> set (tasks s)"
  shows "\<exists>i. (\<forall>j. id_of (phase t) = Some j \<longrightarrow> j = i) \<and>
    (\<forall>ch. subseq (data_msgs S ch (wire t)) (map (\<lambda>p. to_message (to_frame S (Data ch p))) (offered i ch evs)) \<and>
      ((\<forall>j c p. EvPublishTo j c p \<notin> set evs) \<longrightarrow>
        subseq (data_msgs S ch (wire t)) (map (\<lambda>p. to_message (to_frame S (Data ch p))) (published ch evs))))"
proof -
  have "own_line S Q (\<lambda>i ch. offered_msgs S i ch evs) (srv s) t"
    using run_from_start [OF assms(1-3) start run] t by (simp add: lines_ok_def)
  then obtain i where i: "\<forall>j. id_of (phase t) = Some j \<longrightarrow> j = i"
    and sub: "\<forall>ch. subseq (data_msgs S ch (wire t)) (map (\<lambda>p. to_message (to_frame S (Data ch p))) (offered i ch evs))"
    by (auto simp: own_line_def line_ok_def offered_msgs_def)
  have "subseq (data_msgs S ch (wire t)) (map (\<lambda>p. to_message (to_frame S (Data ch p))) (published ch evs))"
    if "\<forall>j c p. EvPublishTo j c p \<notin> set evs" for ch
    using sub offered_published [of evs i ch] that by metis
  with i sub show ?thesis by blast
qed

theorem data_arrives_in_published_order_witness:
  "offered (ConnectionId 1) ''tu'' overlap_events = [''8'', ''9'', ''10''] \<and>
   (\<exists>s. sys_run demo_serde ref_mpsc ref_sem overlap_events demo_start = Some s \<and>
      subseq (data_msgs demo_serde ''tu'' (wire (hd (tasks s))))
        (map (\<lambda>p. to_message (to_frame demo_serde (Data ''tu'' p))) [''8'', ''9'', ''10'']))"
proof -
  have p: "offered (ConnectionId 1) ''tu'' overlap_events = [''8'', ''9'', ''10'']"
    by (simp add: overlap_events_def demo_events_def offered_def List.map_filter_simps)
  obtain s where run: "sys_run demo_serde ref_mpsc ref_sem overlap_events demo_start = Some s" "length (tasks s) = 1"
    and ph: "id_of (phase (hd (tasks s))) = Some (ConnectionId 1)"
    using overlap_run by blast
  then have t: "hd (tasks s) \<in> set (tasks s)" by (cases "tasks s") auto
  from data_arrives_in_published_order [OF demo_ok demo_started run(1) t] ph
  have "subseq (data_msgs demo_serde ''tu'' (wire (hd (tasks s))))
      (map (\<lambda>p. to_message (to_frame demo_serde (Data ''tu'' p))) (offered (ConnectionId 1) ''tu'' overlap_events))" by auto
  then show ?thesis using run(1) unfolding p by blast
qed

end
