(* ===== verification/Eventual_Delivery.thy ===== *)
theory Eventual_Delivery
  imports Progress Delivery_Order
begin

text \<open>
  That what is queued for a client is written. In an infinite run, the queue of a session only changes in two ways: frames are
  added at its end, and its head moves to the socket. Under a runtime that polls the task and does not
  neglect the outbound branch of its \<^verbatim>\<open>select!\<close> for ever, every frame that a connection's queue has taken
  reaches the socket, after those before it, unless the session ends.
\<close>

section \<open>Lines\<close>

text \<open>
  The line of a connection: what its socket has taken, and what its queue holds. A line moves when messages are
  added to either part, or when the head of the queue is written.
\<close>

type_synonym line = "message list \<times> message list"

definition grows :: "line \<Rightarrow> line \<Rightarrow> bool" where
  "grows l l' \<longleftrightarrow> prefix (fst l) (fst l') \<and> prefix (snd l) (snd l')"

definition writes :: "line \<Rightarrow> line \<Rightarrow> bool" where
  "writes l l' \<longleftrightarrow> (\<exists>m. snd l = m # snd l' \<and> fst l' = fst l @ [m])"

text \<open>Of the messages \<open>ms\<close> that were queued when \<open>w0\<close> had been written, all but the last ones, \<open>rest\<close>, have been written since.\<close>

definition awaits :: "message list \<Rightarrow> message list \<Rightarrow> message list \<Rightarrow> line \<Rightarrow> bool" where
  "awaits w0 ms rest l \<longleftrightarrow>
     (\<exists>x sent. fst l = w0 @ x \<and> ms = sent @ rest \<and> subseq sent x \<and> prefix rest (snd l))"

lemma awaits_start: "awaits w ms ms (w, ms)"
  by (simp add: awaits_def)

lemma awaits_grows:
  assumes "awaits w0 ms rest l" and "grows l l'"
  shows "awaits w0 ms rest l'"
proof -
  obtain x sent y where l: "fst l = w0 @ x" "ms = sent @ rest" "subseq sent x" "prefix rest (snd l)"
    and y: "fst l' = fst l @ y" "prefix (snd l) (snd l')"
    using assms by (auto simp: awaits_def grows_def elim: prefixE)
  have "subseq sent (x @ y)" using l(3) by (simp add: subseq_rev_drop_many)
  moreover have "prefix rest (snd l')" using l(4) y(2) by (rule prefix_order.trans)
  ultimately show ?thesis using l y unfolding awaits_def by (metis append.assoc)
qed

lemma awaits_writes:
  assumes "awaits w0 ms (m # rest) l" and "writes l l'"
  shows "awaits w0 ms rest l'"
proof -
  obtain x sent where l: "fst l = w0 @ x" "ms = sent @ m # rest" "subseq sent x" "prefix (m # rest) (snd l)"
    using assms(1) by (auto simp: awaits_def)
  have l': "snd l = m # snd l'" "fst l' = fst l @ [m]" using assms(2) l(4) by (auto simp: writes_def)
  have "subseq (sent @ [m]) (x @ [m])" using l(3) by (simp add: list_emb_append_mono)
  moreover have "ms = (sent @ [m]) @ rest" "fst l' = w0 @ x @ [m]" "prefix rest (snd l')" using l l' by simp_all
  ultimately show ?thesis unfolding awaits_def by blast
qed

lemma awaits_nonempty: "awaits w0 ms (m # rest) l \<Longrightarrow> snd l \<noteq> []"
  by (auto simp: awaits_def)

lemma awaits_written: "awaits w0 ms [] l \<Longrightarrow> \<exists>x. fst l = w0 @ x \<and> subseq ms x"
  by (auto simp: awaits_def)

section \<open>Changes of the shared state\<close>

text \<open>Every queue in question holds what it held, and possibly more behind it; its receiver is where it was.\<close>

definition longer :: "('q, 'x) mpsc_scheme \<Rightarrow> 'q connection \<Rightarrow> 'q connection \<Rightarrow> bool" where
  "longer Q c c' \<longleftrightarrow> prefix (queued Q c) (queued Q c') \<and> rx_gone (view Q (tx c')) = rx_gone (view Q (tx c))"

definition queues_extend ::
    "('q, 'x) mpsc_scheme \<Rightarrow> (connection_id \<Rightarrow> bool) \<Rightarrow> ('q, 's) shared \<Rightarrow> ('q, 's) shared \<Rightarrow> bool" where
  "queues_extend Q P st st' \<longleftrightarrow>
     (\<forall>i c'. P i \<longrightarrow> map_of (connections (registry st')) i = Some c' \<longrightarrow>
        (\<exists>c. map_of (connections (registry st)) i = Some c \<and> longer Q c c'))"

lemma longer_refl: "longer Q c c"
  by (simp add: longer_def)

lemma longer_trans: "longer Q c c' \<Longrightarrow> longer Q c' c'' \<Longrightarrow> longer Q c c''"
  unfolding longer_def by (meson prefix_order.trans)

lemma longer_deliver: "mpsc_ok Q \<Longrightarrow> longer Q c (after_deliver Q f c)"
  by (simp add: longer_def queued_def after_deliver_view)

lemma extend_refl: "queues_extend Q P st st"
  by (simp add: queues_extend_def longer_refl)

lemma extend_trans: "queues_extend Q P st st' \<Longrightarrow> queues_extend Q P st' st'' \<Longrightarrow> queues_extend Q P st st''"
  unfolding queues_extend_def by (meson longer_trans)

lemma extend_connections:
  assumes "\<And>i c'. map_of (connections (registry st')) i = Some c' \<Longrightarrow>
    \<exists>c. map_of (connections (registry st)) i = Some c \<and> tx c' = tx c"
  shows "queues_extend Q P st st'"
  using assms unfolding queues_extend_def longer_def queued_def by (metis prefix_order.refl)

lemma extend_delivery:
  assumes Q: "mpsc_ok Q" and conn: "\<And>i c'. map_of (connections reg') i = Some c' \<Longrightarrow>
      \<exists>c. map_of (connections (registry st)) i = Some c \<and> (c' = c \<or> c' = after_deliver Q f c)"
  shows "queues_extend Q P st (st\<lparr>registry := reg'\<rparr>)"
  unfolding queues_extend_def
proof (intro allI impI)
  fix i c' assume "map_of (connections (registry (st\<lparr>registry := reg'\<rparr>))) i = Some c'"
  then obtain c where c: "map_of (connections (registry st)) i = Some c" "c' = c \<or> c' = after_deliver Q f c"
    using conn by auto
  then have "longer Q c c'" using longer_deliver [OF Q] longer_refl by blast
  with c(1) show "\<exists>c. map_of (connections (registry st)) i = Some c \<and> longer Q c c'" by blast
qed

lemma extend_publish:
  assumes "mpsc_ok Q" and "registry_inv (registry st)"
  shows "queues_extend Q P st (st\<lparr>registry := snd (Registry_publish Q ch f (registry st))\<rparr>)"
  using assms by (intro extend_delivery) (auto simp: publish_map_of split: if_splits)

lemma extend_broadcast:
  "mpsc_ok Q \<Longrightarrow> queues_extend Q P st (st\<lparr>registry := snd (Registry_broadcast Q f (registry st))\<rparr>)"
  by (intro extend_delivery) (auto simp: broadcast_eq map_of_map_snd)

lemma extend_reply: "mpsc_ok Q \<Longrightarrow> queues_extend Q P st (reply Q i f st)"
  unfolding reply_def
  by (intro extend_delivery) (auto simp: Registry_send_def deliver_eq hash_simps split: option.splits if_splits)

lemma extend_subscription:
  "queues_extend Q P st (st\<lparr>registry := snd (Registry_subscribe i chs mx (registry st))\<rparr>)"
  "queues_extend Q P st (st\<lparr>registry := snd (Registry_unsubscribe i chs (registry st))\<rparr>)"
  by (rule extend_connections; auto dest: subscribe_map_of unsubscribe_map_of)+

lemma extend_set_tx: "\<not> P i \<Longrightarrow> queues_extend Q P st (set_tx i g st)"
  unfolding queues_extend_def by (auto simp: map_of_set_tx longer_refl split: if_splits)

lemma extend_heartbeat: "queues_extend Q P st (count_heartbeat_timeout st)"
  by (rule extend_connections) (auto simp: count_heartbeat_timeout_def Let_def)

lemma extend_refuse: "queues_extend Q P st (refuse_full st)"
  by (rule extend_connections) (auto simp: refuse_full_def Let_def)

lemma extend_remove: "queues_extend Q P st (st\<lparr>registry := Registry_remove i (registry st)\<rparr>)"
  by (rule extend_connections) (auto dest: remove_map_of)

lemma extend_handle_begin: "queues_extend Q P st (snd (handle_begin S msg i cl st))"
proof -
  have "queues_extend Q P st (snd (subscribe_begin S chs i cl st))" for chs
    using extend_subscription(1) [of Q P st i "allowed_of cl st chs" "max_subscriptions (config st)"]
    by (auto simp: subscribe_begin_eq Let_def split: prod.splits)
  with extend_subscription(2) [of Q P st i] show ?thesis
    by (simp add: handle_begin_def Let_def split_beta extend_refl split: sum.splits client_message.splits)
qed

lemma extend_act_step: "mpsc_ok Q \<Longrightarrow> queues_extend Q P st (snd (act_step S Q i a st))"
  by (auto simp: act_step_def extend_refl intro!: extend_reply split: act.splits option.splits)

lemmas extend_intros = extend_refl extend_heartbeat extend_reply extend_act_step extend_handle_begin

section \<open>Steps of the task itself\<close>

definition backlog :: "('q, 'x) mpsc_scheme \<Rightarrow> ('q, 's) shared \<Rightarrow> connection_id \<Rightarrow> message list" where
  "backlog Q st i = (case map_of (connections (registry st)) i of None \<Rightarrow> [] | Some c \<Rightarrow> queued Q c)"

definition line_of :: "('q, 'x) mpsc_scheme \<Rightarrow> connection_id \<Rightarrow> task \<Rightarrow> ('q, 's) shared \<Rightarrow> line" where
  "line_of Q i t st = (wire t, backlog Q st i)"

lemma line_grows:
  assumes "prefix (wire t) (wire t')" and "queues_extend Q P st st'" and "P i"
    and "i \<in> fst ` set (connections (registry st'))"
  shows "grows (line_of Q i t st) (line_of Q i t' st')"
proof -
  obtain c' where c': "map_of (connections (registry st')) i = Some c'"
    using assms(4) by (metis map_of_eq_None_iff option.exhaust)
  then obtain c where "map_of (connections (registry st)) i = Some c" "prefix (queued Q c) (queued Q c')"
    using assms(2,3) unfolding queues_extend_def longer_def by blast
  with c' assms(1) show ?thesis by (simp add: grows_def line_of_def backlog_def)
qed

lemma on_inbound_extends:
  assumes Q: "mpsc_ok Q" and "\<And>b. m \<noteq> Text b" and h: "on_inbound S Q i cl m e ss st = (c, ss', st')"
  shows "queues_extend Q P st st' \<and> prefix (written ss) (written ss')"
  using assms extend_reply [OF Q, of P st i]
  by (cases m) (auto simp: on_inbound_def extend_refl dest: write_msg_written split: prod.splits)

lemma select_body_extends:
  assumes Q: "mpsc_ok Q" and ev: "\<And>b. ev \<noteq> Inbound (Some (Inr (Text b)))"
    and h: "select_body S Q i cl ev e ss st = (c, ss', st')"
  shows "queues_extend Q P st st' \<and> prefix (written ss) (written ss')"
proof (cases "\<exists>m. ev = Inbound (Some (Inr m))")
  case True
  then obtain m where m: "ev = Inbound (Some (Inr m))" by blast
  then have "\<And>b. m \<noteq> Text b" using ev by auto
  from on_inbound_extends [OF Q this, of S i cl e "ss\<lparr>last_seen := now e\<rparr>" st c ss' st' P] h
  show ?thesis by (simp add: select_body_def m)
next
  case False
  with h extend_refl [of Q P st] extend_heartbeat [of Q P st] show ?thesis
    by (auto simp: select_body_def Let_def dest!: write_msg_written close_sink_written
        split: event.splits option.splits sum.splits prod.splits if_splits)
qed

lemma after_branch_stays:
  assumes "(t', st') = after_branch Q i nxt t (c, ss, st)" and "rx_of (phase t') = Some i"
  shows "c = Continue \<and> wire t' = written ss \<and> st' = st"
  using assms by (cases c) (simp_all add: after_branch_def leave_session_def Let_def)

text \<open>What a step of a session that goes on does: the outbound branch writes the head of the queue; every other one lets queues grow.\<close>

definition session_effect ::
    "('q, 'x) mpsc_scheme \<Rightarrow> connection_id \<Rightarrow> ('q, 's) input \<Rightarrow> task \<Rightarrow> ('q, 's) shared \<Rightarrow> task \<Rightarrow> ('q, 's) shared \<Rightarrow> bool" where
  "session_effect Q i inp t st t' st' \<longleftrightarrow>
     (if \<exists>e. inp = Select WakeOutbound e
      then \<exists>c f. map_of (connections (registry st)) i = Some c \<and> fst (recv Q (tx c)) = Some f \<and>
             wire t' = wire t @ [to_message f] \<and> st' = set_tx i (\<lambda>q. snd (recv Q q)) st
      else prefix (wire t) (wire t') \<and> queues_extend Q (\<lambda>_. True) st st')"

lemma outbound_effect:
  assumes f: "wake_event Q i WakeOutbound st = Some (ev, st0)"
    and sel: "select_body S Q i cl ev e \<lparr>last_seen = ls, written = wire t\<rparr> st0 = (Continue, ss, st')"
    and w: "wire t' = written ss"
  shows "session_effect Q i (Select WakeOutbound e') t st t' st'"
proof -
  obtain c g where c: "map_of (connections (registry st)) i = Some c" "fst (recv Q (tx c)) = Some g"
    and st0: "ev = Outbound (Some g)" "st0 = set_tx i (\<lambda>q. snd (recv Q q)) st"
    using f sel by (auto simp: select_body_def split: option.splits)
  have "written ss = wire t @ [to_message g]" "st' = st0"
    using sel by (auto simp: st0(1) select_body_def write_msg_def split: prod.splits sum.splits)
  with c st0(2) w show ?thesis by (simp add: session_effect_def)
qed

lemma running_effect:
  assumes Q: "mpsc_ok Q" and t: "who t = Some cl" "phase t = Running i ls"
    and step: "connection_step S Q M inp t st = Some (t', st')" and stay: "rx_of (phase t') = Some i"
  shows "session_effect Q i inp t st t' st'"
proof (cases "\<exists>msg e. inp = Select (WakeInbound (Some (Inr (Text msg)))) e")
  case True
  then obtain msg e where inp: "inp = Select (WakeInbound (Some (Inr (Text msg)))) e" by blast
  then have "st' = snd (handle_begin S msg i cl st)" "wire t' = wire t"
    using t step by (auto simp: connection_step_def on_running_def split: prod.splits)
  with extend_handle_begin inp show ?thesis by (simp add: session_effect_def)
next
  case False
  from t step show ?thesis
  proof (cases rule: running_step)
    case (Branch wk e ev st0)
    obtain c ss st1 where sel: "select_body S Q i cl ev e \<lparr>last_seen = ls, written = wire t\<rparr> st0 = (c, ss, st1)"
      by (metis prod.exhaust)
    have c: "c = Continue" and t': "wire t' = written ss" "st' = st1"
      using after_branch_stays [OF Branch(3) [unfolded sel] stay] by simp_all
    show ?thesis
    proof (cases "wk = WakeOutbound")
      case True
      then show ?thesis using outbound_effect [OF _ _ t'(1)] Branch(1,2) sel c t'(2) by metis
    next
      case wk: False
      then have "st0 = st" using Branch(2) by (cases wk) auto
      moreover have "\<And>b. ev \<noteq> Inbound (Some (Inr (Text b)))"
        using False Branch(1) wake_event_cases(2) [OF Branch(2)] by blast
      ultimately have "queues_extend Q (\<lambda>_. True) st st' \<and> prefix (wire t) (wire t')"
        using select_body_extends [OF Q _ sel] t' by simp
      with wk Branch(1) show ?thesis by (simp add: session_effect_def)
    qed
  qed (use False stay in auto)
qed

lemma handling_effect:
  assumes Q: "mpsc_ok Q" and t: "who t = Some cl" "phase t = Handling i ls acts"
    and step: "connection_step S Q M inp t st = Some (t', st')" and stay: "rx_of (phase t') = Some i"
  shows "session_effect Q i inp t st t' st'"
proof -
  have "wire t' = wire t \<and> (st' = st \<or> (\<exists>a. st' = snd (act_step S Q i a st)))" and inp: "\<And>e. inp \<noteq> Select WakeOutbound e"
    using t step stay
    by (auto simp: connection_step_def on_handling_def leave_session_def split: input.splits list.splits prod.splits)
      (metis snd_conv)
  then have "wire t' = wire t" "queues_extend Q (\<lambda>_. True) st st'"
    using extend_act_step [OF Q, of "\<lambda>_. True" st S i] extend_refl by auto
  with inp show ?thesis by (simp add: session_effect_def)
qed

lemma checking_stays:
  assumes t: "who t = Some cl" "phase t = Checking i ls"
    and step: "connection_step S Q M inp t st = Some (t', st')" and stay: "rx_of (phase t') = Some i"
  shows "(\<exists>e. inp = Check e) \<and> t' = t\<lparr>phase := Running i ls\<rparr> \<and> st' = st"
proof -
  obtain e where inp: "inp = Check e" using t step by (cases inp) (auto simp: connection_step_def on_checking_def)
  obtain c ss where cs: "close_sink TooSlow e \<lparr>last_seen = ls, written = wire t\<rparr> = (c, ss)" by (metis prod.exhaust)
  have "c \<noteq> Continue" using close_sink_cases [OF cs] by simp
  then have "rx_of (phase (fst (after_branch Q i Running t (c, ss, st)))) \<noteq> Some i"
    using after_branch_stays [OF surjective_pairing [symmetric]] by blast
  then show ?thesis
    using t step stay cs by (auto simp: connection_step_def on_checking_def inp Let_def split: if_splits)
qed

section \<open>Steps of others\<close>

lemma extend_wake: "wake_event Q i wk st = Some (ev, st0) \<Longrightarrow> \<not> P i \<Longrightarrow> queues_extend Q P st st0"
  by (cases wk) (auto simp: extend_refl extend_set_tx split: option.splits)

lemma extend_after_branch: "\<not> P i \<Longrightarrow> queues_extend Q P st (snd (after_branch Q i nxt t (c, ss, st)))"
  by (cases c) (auto simp: after_branch_def leave_session_def Let_def extend_refl extend_set_tx)

lemma extend_running:
  assumes Q: "mpsc_ok Q" and t: "who t = Some cl" "phase t = Running i ls"
    and step: "connection_step S Q M inp t st = Some (t', st')" and P: "\<not> P i"
  shows "queues_extend Q P st st'"
proof (cases "\<exists>msg e. inp = Select (WakeInbound (Some (Inr (Text msg)))) e")
  case True
  then obtain msg e where "inp = Select (WakeInbound (Some (Inr (Text msg)))) e" by blast
  then have "st' = snd (handle_begin S msg i cl st)"
    using t step by (auto simp: connection_step_def on_running_def split: prod.splits)
  with extend_handle_begin show ?thesis by metis
next
  case False
  from t step show ?thesis
  proof (cases rule: running_step)
    case (Branch wk e ev st0)
    obtain c ss st1 where sel: "select_body S Q i cl ev e \<lparr>last_seen = ls, written = wire t\<rparr> st0 = (c, ss, st1)"
      by (metis prod.exhaust)
    have "\<And>b. ev \<noteq> Inbound (Some (Inr (Text b)))"
      using False Branch(1) wake_event_cases(2) [OF Branch(2)] by blast
    then have "queues_extend Q P st0 st1" using select_body_extends [OF Q _ sel] by simp
    moreover have "st' = snd (after_branch Q i Checking t (c, ss, st1))" using Branch(3) sel by (metis snd_conv)
    moreover have "queues_extend Q P st st0" by (rule extend_wake [OF Branch(2)]) (rule P)
    moreover have "queues_extend Q P st1 (snd (after_branch Q i Checking t (c, ss, st1)))"
      by (rule extend_after_branch) (rule P)
    ultimately show ?thesis using extend_trans by metis
  qed (use False P in \<open>auto intro: extend_set_tx\<close>)
qed

lemma extend_handling:
  assumes Q: "mpsc_ok Q" and "on_handling S Q i ls acts inp t st = Some (t', st')" and P: "\<not> P i"
  shows "queues_extend Q P st st'"
  using assms(2) extend_act_step [OF Q, of P st S i]
  by (auto simp: on_handling_def leave_session_def extend_refl extend_set_tx P split: input.splits list.splits prod.splits)
    (metis snd_conv)

lemma extend_checking:
  assumes "on_checking Q i ls inp t st = Some (t', st')" and P: "\<not> P i"
  shows "queues_extend Q P st st'"
proof -
  obtain e where inp: "inp = Check e" using assms(1) by (cases inp) (auto simp: on_checking_def)
  obtain c ss where "close_sink TooSlow e \<lparr>last_seen = ls, written = wire t\<rparr> = (c, ss)" by (metis prod.exhaust)
  then show ?thesis
    using assms(1) extend_after_branch [of P i Q st Running t c ss, OF P]
    by (auto simp: on_checking_def inp Let_def extend_refl split: if_splits)
qed

lemma extend_acked:
  assumes "on_acked Q cl inp t st = Some (t', st')" and P: "\<And>i. P i \<Longrightarrow> i \<in> fst ` set (connections (registry st))"
    and inv: "registry_inv (registry st)"
  shows "queues_extend Q P st st'"
  using assms(1)
proof (cases rule: on_acked_cases)
  case (Registers n i reg)
  have "\<not> P i" using next_id_fresh [OF inv] add_fields(1) [OF Registers(3)] P by metis
  then show ?thesis
    by (auto simp: Registers(5) queues_extend_def longer_refl add_fields(4) [OF Registers(3)] hash_simps)
qed (simp add: extend_refl)

lemma extend_task:
  assumes Q: "mpsc_ok Q" and inv: "registry_inv (registry st)"
    and step: "connection_step S Q M inp t st = Some (t', st')"
    and P: "\<And>i. P i \<Longrightarrow> i \<in> fst ` set (connections (registry st))" "\<And>i. id_of (phase t) = Some i \<Longrightarrow> \<not> P i"
  shows "queues_extend Q P st st'"
proof -
  have same: "queues_extend Q P st (st\<lparr>slots := x\<rparr>)" for x by (rule extend_connections) simp
  show ?thesis
  proof (cases "who t")
    case None
    then show ?thesis
      using step same extend_refl [of Q P st]
      by (auto simp: connection_step_def local_step_def permit_drop_def split: phase.splits input.splits)
  next
    case (Some cl)
    show ?thesis
    proof (cases "phase t")
      case (Running i ls)
      from extend_running [OF Q Some Running step] P(2) Running show ?thesis by simp
    next
      case Acked
      with step Some extend_acked [OF _ P(1) inv] show ?thesis by (simp add: connection_step_def)
    qed (use step Some P(2) same extend_refl [of Q P st] extend_remove [of Q P st] in
        \<open>auto simp: connection_step_def local_step_def permit_drop_def Registered_drop_def
          intro: extend_handling [OF Q] extend_checking split: input.splits\<close>)
  qed
qed

text \<open>Every step of a task moves it to another phase.\<close>

lemma branch_moves:
  assumes "seen (phase t) = Some ls" and "\<And>n. nxt i n \<noteq> phase t"
  shows "phase (fst (after_branch Q i nxt t r)) \<noteq> phase t"
  using assms by (cases r; cases "fst r"; cases "phase t") (simp_all add: after_branch_phase)

lemma step_moves:
  assumes step: "connection_step S Q M inp t st = Some (t', st')"
  shows "phase t' \<noteq> phase t"
proof (cases "seen (phase t)")
  case None
  from outside_step [OF step None] show ?thesis by auto
next
  case (Some ls)
  then obtain cl where who: "who t = Some cl"
    using step by (cases "who t") (auto simp: connection_step_def split: phase.splits)
  note branch = branch_moves [OF Some]
  show ?thesis
  proof (cases "phase t")
    case (Running i n)
    with branch [of Checking i] running_step [OF who Running step] show ?thesis by (metis fst_conv phase.distinct phase.simps)
  next
    case (Handling i n acts)
    from handling_step [OF who Handling step] Handling show ?thesis by auto
  next
    case (Checking i n)
    then obtain e where inp: "inp = Check e"
      using who step by (cases inp) (auto simp: connection_step_def on_checking_def)
    obtain c ss where cs: "close_sink TooSlow e \<lparr>last_seen = n, written = wire t\<rparr> = (c, ss)" by (metis prod.exhaust)
    have "phase (fst (after_branch Q i Running t (c, ss, st))) \<noteq> phase t" by (rule branch) (simp add: Checking)
    with Checking who step cs show ?thesis
      by (auto simp: connection_step_def on_checking_def inp Let_def split: if_splits)
  qed (use Some in auto)
qed

lemma extend_other:
  assumes Q: "mpsc_ok Q" and inv: "registry_inv (registry (srv s))" and l: "labelled_step S Q M ByOther s s'"
  shows "queues_extend Q P (srv s) (srv s')"
proof -
  have step: "server_step S Q M s s'" and same: "take (length (tasks s)) (tasks s') = tasks s" using l by simp_all
  show ?thesis
    using step
  proof cases
    case (Accept stream)
    then show ?thesis by (auto simp: serve_accept_def extend_refuse intro!: extend_connections split: option.splits)
  next
    case Abort
    then show ?thesis by (simp add: Accepting_drop_def extend_refl)
  next
    case (Task j inp t st)
    from Task(1,2) same have "(tasks s)[j := t] ! j = tasks s ! j" by simp
    with Task(2) step_moves [OF Task(4)] show ?thesis by simp
  next
    case (Publish ch p)
    then show ?thesis using extend_publish [OF Q inv] by (simp add: Server_publish_def split_beta Let_def)
  next
    case ResyncAll
    then show ?thesis using extend_broadcast [OF Q] by (simp add: Server_resync_all_def split_beta Let_def)
  next
    case (ResyncOn ch chs)
    then show ?thesis using extend_publish [OF Q inv] by (simp add: resync_on_def)
  next
    case (PublishTo j ch p)
    then show ?thesis using extend_reply [OF Q] by simp
  next
    case (ResyncTo j chs)
    then show ?thesis using extend_reply [OF Q] by simp
  next
    case (Snapshots snap)
    then show ?thesis by (auto intro!: extend_connections)
  qed
qed

section \<open>Runs\<close>

definition line_at :: "('q, 'x) mpsc_scheme \<Rightarrow> (nat \<Rightarrow> ('q, 's) sys) \<Rightarrow> nat \<Rightarrow> connection_id \<Rightarrow> nat \<Rightarrow> line" where
  "line_at Q \<sigma> k i n = line_of Q i (tasks (\<sigma> n) ! k) (srv (\<sigma> n))"

text \<open>
  The runtime does not neglect the outbound branch: if the session is at its \<^verbatim>\<open>select!\<close> with frames in its queue again and
  again, that branch fires again and again (\<^verbatim>\<open>select!\<close> polls its branches in random order).
\<close>

definition outbound_fair ::
    "('q, 'x) mpsc_scheme \<Rightarrow> (nat \<Rightarrow> ('q, 's) label) \<Rightarrow> (nat \<Rightarrow> ('q, 's) sys) \<Rightarrow> nat \<Rightarrow> bool" where
  "outbound_fair Q lab \<sigma> k \<longleftrightarrow>
     (\<forall>i. (\<forall>n. \<exists>m \<ge> n. is_running (phase_at \<sigma> k m) \<and> rx_of (phase_at \<sigma> k m) = Some i \<and> backlog Q (srv (\<sigma> m)) i \<noteq> []) \<longrightarrow>
        (\<forall>n. \<exists>m \<ge> n. \<exists>e. lab m = ByTask k (Select WakeOutbound e)))"

lemma own_effect:
  assumes Q: "mpsc_ok Q" and step: "connection_step S Q M inp t st = Some (t', st')"
    and rx: "rx_of (phase t) = Some i" "rx_of (phase t') = Some i"
  shows "session_effect Q i inp t st t' st'"
proof -
  obtain cl where who: "who t = Some cl"
    using step rx(1) by (cases "who t") (auto simp: connection_step_def split: phase.splits)
  show ?thesis
  proof (cases "phase t")
    case (Running j ls)
    with rx(1) running_effect [OF Q who _ step rx(2)] show ?thesis by simp
  next
    case (Handling j ls acts)
    with rx(1) handling_effect [OF Q who _ step rx(2)] show ?thesis by simp
  next
    case (Checking j ls)
    with rx(1) checking_stays [OF who _ step rx(2), of ls] show ?thesis by (auto simp: session_effect_def extend_refl)
  qed (use rx(1) in simp_all)
qed

lemma effect_line:
  assumes Q: "mpsc_ok Q" and eff: "session_effect Q i inp t st t' st'" and i: "i \<in> fst ` set (connections (registry st'))"
  shows "if \<exists>e. inp = Select WakeOutbound e then writes (line_of Q i t st) (line_of Q i t' st')
    else grows (line_of Q i t st) (line_of Q i t' st')"
proof (cases "\<exists>e. inp = Select WakeOutbound e")
  case True
  with eff obtain c f where c: "map_of (connections (registry st)) i = Some c" "fst (recv Q (tx c)) = Some f"
    and t': "wire t' = wire t @ [to_message f]" "st' = set_tx i (\<lambda>q. snd (recv Q q)) st"
    by (auto simp: session_effect_def)
  with True recv_queued [OF Q c(2)] show ?thesis by (auto simp: writes_def line_of_def backlog_def map_of_set_tx)
next
  case False
  with eff have "grows (line_of Q i t st) (line_of Q i t' st')"
    by (intro line_grows [OF _ _ _ i, of t t' Q "\<lambda>_. True"]) (simp_all add: session_effect_def)
  with False show ?thesis by simp
qed

lemma session_registered:
  assumes "sys_inv S Q M b s" and "k < length (tasks s)" and "rx_of (phase (tasks s ! k)) = Some i"
  shows "i \<in> fst ` set (connections (registry (srv s)))" and "owns (tasks s) k i"
proof -
  show mine: "owns (tasks s) k i" using assms(2) rx_of_id [OF assms(3)] by (simp add: owns_def)
  with assms(1) show "i \<in> fst ` set (connections (registry (srv s)))" unfolding sys_inv_def owned_def by blast
qed

lemma others_extend:
  assumes Q: "mpsc_ok Q" and inv: "sys_inv S Q M b s" and k: "k < length (tasks s)" "rx_of (phase (tasks s ! k)) = Some i"
    and l: "labelled_step S Q M l s s'" "\<forall>inp. l \<noteq> ByTask k inp"
  shows "queues_extend Q (\<lambda>j. j = i) (srv s) (srv s')"
proof (cases l)
  case (ByTask j inp)
  have j: "j \<noteq> k" using l(2) ByTask by blast
  from l(1) ByTask have "labelled_step S Q M (ByTask j inp) s s'" by simp
  then obtain t st where step: "connection_step S Q M inp (tasks s ! j) (srv s) = Some (t, st)" "j < length (tasks s)"
    and s': "s' = s\<lparr>srv := st, tasks := (tasks s)[j := t]\<rparr>" by (rule own_label)
  have "id_of (phase (tasks s ! j)) \<noteq> Some i"
    using session_registered(2) [OF inv k] inv j step(2) unfolding sys_inv_def owned_def owns_def by blast
  then have "queues_extend Q (\<lambda>j. j = i) (srv s) st"
    using session_registered(1) [OF inv k] inv by (intro extend_task [OF Q _ step(1)]) (auto simp: sys_inv_def)
  then show ?thesis by (simp add: s')
next
  case ByOther
  have "registry_inv (registry (srv s))" using inv by (simp add: sys_inv_def)
  from extend_other [OF Q this] l(1) ByOther show ?thesis by metis
qed

lemma line_step:
  assumes ok: "serde_ok S" "mpsc_ok Q" "sem_ok M" and run: "is_run S Q M b lab \<sigma>" and k: "k < length (tasks (\<sigma> n))"
    and rx: "rx_of (phase_at \<sigma> k n) = Some i" "rx_of (phase_at \<sigma> k (Suc n)) = Some i"
  shows "if \<exists>e. lab n = ByTask k (Select WakeOutbound e) then writes (line_at Q \<sigma> k i n) (line_at Q \<sigma> k i (Suc n))
    else grows (line_at Q \<sigma> k i n) (line_at Q \<sigma> k i (Suc n))"
proof -
  have inv: "sys_inv S Q M b (\<sigma> m)" for m by (rule reachable_inv [OF ok run_reachable [OF run]])
  have l: "labelled_step S Q M (lab n) (\<sigma> n) (\<sigma> (Suc n))" using run by (simp add: is_run_def)
  have k': "k < length (tasks (\<sigma> (Suc n)))" using run_length [OF run k] by simp
  have i: "i \<in> fst ` set (connections (registry (srv (\<sigma> (Suc n)))))"
    using session_registered(1) [OF inv k'] rx(2) by (simp add: phase_at_def)
  show ?thesis
  proof (cases "\<exists>inp. lab n = ByTask k inp")
    case True
    then obtain inp where inp: "lab n = ByTask k inp" ..
    with l have "labelled_step S Q M (ByTask k inp) (\<sigma> n) (\<sigma> (Suc n))" by simp
    then obtain t st where step: "connection_step S Q M inp (tasks (\<sigma> n) ! k) (srv (\<sigma> n)) = Some (t, st)"
      and s': "\<sigma> (Suc n) = (\<sigma> n)\<lparr>srv := st, tasks := (tasks (\<sigma> n))[k := t]\<rparr>" by (rule own_label)
    have "session_effect Q i inp (tasks (\<sigma> n) ! k) (srv (\<sigma> n)) t st"
      using own_effect [OF ok(2) step] rx k by (simp add: s' phase_at_def)
    from effect_line [OF ok(2) this] i k inp show ?thesis by (simp add: s' line_at_def)
  next
    case False
    then have other: "\<forall>inp. lab n \<noteq> ByTask k inp" by simp
    have "queues_extend Q (\<lambda>j. j = i) (srv (\<sigma> n)) (srv (\<sigma> (Suc n)))"
      using others_extend [OF ok(2) inv k _ l other] rx(1) by (simp add: phase_at_def)
    moreover have "tasks (\<sigma> (Suc n)) ! k = tasks (\<sigma> n) ! k" using other_label [OF l k other] by simp
    ultimately show ?thesis
      using line_grows [of "tasks (\<sigma> n) ! k" "tasks (\<sigma> n) ! k" Q "\<lambda>j. j = i" "srv (\<sigma> n)" "srv (\<sigma> (Suc n))" i] i other
      by (simp add: line_at_def)
  qed
qed

section \<open>Receivers\<close>

text \<open>While a session lasts, the receiving end of its queue is there.\<close>

definition receivers_ok :: "('q, 'x) mpsc_scheme \<Rightarrow> ('q, 's) sys \<Rightarrow> bool" where
  "receivers_ok Q s \<longleftrightarrow>
     (\<forall>k i c. k < length (tasks s) \<longrightarrow> rx_of (phase (tasks s ! k)) = Some i \<longrightarrow>
        map_of (connections (registry (srv s))) i = Some c \<longrightarrow> \<not> rx_gone (view Q (tx c)))"

lemma branch_receiver:
  assumes "\<And>n. rx_of (nxt i n) = Some i"
  shows "rx_of (phase (fst (after_branch Q i nxt t r))) \<in> {Some i, None}"
  using assms by (cases r; cases "fst r") (simp_all add: after_branch_phase)

lemma step_receiver:
  assumes step: "connection_step S Q M inp t st = Some (t', st')" and rx: "rx_of (phase t) = Some j"
  shows "rx_of (phase t') \<in> {Some j, None}"
proof -
  obtain cl where who: "who t = Some cl"
    using step rx by (cases "who t") (auto simp: connection_step_def split: phase.splits)
  show ?thesis
  proof (cases "phase t")
    case (Running i n)
    from who Running step show ?thesis
    proof (cases rule: running_step)
      case (Branch wk e ev st0)
      from branch_receiver [of Checking i Q t] show ?thesis
        using Branch(3) Running rx by (metis fst_conv option.inject rx_of.simps(1,3))
    qed (use Running rx in auto)
  next
    case (Handling i n acts)
    from handling_step [OF who Handling step] Handling rx show ?thesis
      using who step by (auto simp: connection_step_def on_handling_def leave_session_def split: list.splits prod.splits)
  next
    case (Checking i n)
    then obtain e where inp: "inp = Check e"
      using who step by (cases inp) (auto simp: connection_step_def on_checking_def)
    obtain c ss where cs: "close_sink TooSlow e \<lparr>last_seen = n, written = wire t\<rparr> = (c, ss)" by (metis prod.exhaust)
    have "rx_of (phase (fst (after_branch Q i Running t (c, ss, st)))) \<in> {Some i, None}" by (rule branch_receiver) simp
    with Checking who step cs rx show ?thesis
      by (auto simp: connection_step_def on_checking_def inp Let_def split: if_splits)
  qed (use rx in auto)
qed

text \<open>A task gets a connection to receive from when it registers.\<close>

lemma receives_from:
  assumes "connection_step S Q M inp t st = Some (t', st')" and "rx_of (phase t') = Some i" and "rx_of (phase t) \<noteq> Some i"
  shows "\<exists>subj reg. Registry_add subj (new_channel Q (send_queue (config st))) (registry st) = (i, reg) \<and>
    st' = st\<lparr>registry := reg\<rparr> \<and> send_queue (config st) \<le> MAX_PERMITS"
proof (cases "rx_of (phase t)")
  case None
  have "phase t = Acked"
    using assms None
    by (cases "phase t"; cases "who t")
      (auto simp: connection_step_def local_step_def on_handshake_def on_authenticating_def on_refusing_def on_acking_def
        Registered_drop_def permit_drop_def Let_def split: input.splits timed.splits sum.splits)
  then obtain cl where "on_acked Q cl inp t st = Some (t', st')"
    using assms(1) by (cases "who t") (auto simp: connection_step_def)
  then show ?thesis by (rule on_acked_cases) (use assms(2) in auto)
next
  case (Some j)
  with step_receiver [OF assms(1) Some] assms(2,3) show ?thesis by auto
qed

lemma own_receiver:
  assumes Q: "mpsc_ok Q" and inv: "sys_inv S Q M b s" and ok: "receivers_ok Q s" and k: "k < length (tasks s)"
    and step: "connection_step S Q M inp (tasks s ! k) (srv s) = Some (t', st')"
    and rx: "rx_of (phase t') = Some i" and c': "map_of (connections (registry st')) i = Some c'"
  shows "\<not> rx_gone (view Q (tx c'))"
proof (cases "rx_of (phase (tasks s ! k)) = Some i")
  case True
  have alive: "\<not> rx_gone (view Q (tx c))" if "map_of (connections (registry (srv s))) i = Some c" for c
    using ok k True that unfolding receivers_ok_def by blast
  from own_effect [OF Q step True rx] alive c' show ?thesis
    by (auto simp: session_effect_def queues_extend_def longer_def map_of_set_tx mpsc_recv(2) [OF Q] chan_recv_def
        split: if_splits list.splits) blast
next
  case False
  from receives_from [OF step rx False] obtain subj reg
    where add: "Registry_add subj (new_channel Q (send_queue (config (srv s)))) (registry (srv s)) = (i, reg)"
      and st': "st' = (srv s)\<lparr>registry := reg\<rparr>" and "send_queue (config (srv s)) \<le> MAX_PERMITS" by blast
  moreover have "0 < send_queue (config (srv s))" using inv by (auto simp: sys_inv_def setup_ok_def)
  ultimately show ?thesis using c' by (auto simp: st' add_fields(4) [OF add] hash_simps mpsc_new [OF Q])
qed

lemma receivers_step:
  assumes Q: "mpsc_ok Q" and inv: "sys_inv S Q M b s" and ok: "receivers_ok Q s" and l: "labelled_step S Q M l s s'"
  shows "receivers_ok Q s'"
  unfolding receivers_ok_def
proof (intro allI impI)
  fix k i c' assume k: "k < length (tasks s')" and rx: "rx_of (phase (tasks s' ! k)) = Some i"
    and c': "map_of (connections (registry (srv s'))) i = Some c'"
  have old: "k < length (tasks s)"
  proof (rule ccontr)
    assume "\<not> k < length (tasks s)"
    with labelled_is_step [OF l] k have "tasks s' ! k = new_task"
      by (cases rule: server_step.cases) (auto simp: serve_accept_def Accepting_drop_def nth_append split: option.splits)
    with rx show False by (simp add: new_task_def)
  qed
  show "\<not> rx_gone (view Q (tx c'))"
  proof (cases "\<exists>inp. l = ByTask k inp")
    case True
    then obtain inp where "labelled_step S Q M (ByTask k inp) s s'" using l by blast
    then show ?thesis by (rule own_label) (use own_receiver [OF Q inv ok old] rx c' old in auto)
  next
    case False
    then have other: "\<forall>inp. l \<noteq> ByTask k inp" by blast
    have "tasks s' ! k = tasks s ! k" using other_label [OF l old other] by simp
    with rx have rx0: "rx_of (phase (tasks s ! k)) = Some i" by simp
    from others_extend [OF Q inv old rx0 l other] c' obtain c
      where "map_of (connections (registry (srv s))) i = Some c" "longer Q c c'" unfolding queues_extend_def by blast
    with ok old rx0 show ?thesis unfolding receivers_ok_def longer_def by blast
  qed
qed

lemma reachable_receivers:
  assumes ok: "serde_ok S" "mpsc_ok Q" "sem_ok M"
  shows "reachable S Q M b s \<Longrightarrow> receivers_ok Q s"
proof (induction rule: reachable.induct)
  case (Bound s)
  then show ?case by (auto simp: started_def serving_def receivers_ok_def)
next
  case (Step s s')
  obtain l where "labelled_step S Q M l s s'" using step_is_labelled [OF Step.hyps(2)] ..
  from receivers_step [OF ok(2) reachable_inv [OF ok Step.hyps(1)] Step.IH this] show ?case .
qed

text \<open>So a session's queue takes a frame exactly when it has room.\<close>

lemma session_accepts:
  assumes ok: "serde_ok S" "mpsc_ok Q" "sem_ok M" and reach: "reachable S Q M b s"
    and k: "k < length (tasks s)" "rx_of (phase (tasks s ! k)) = Some i" and c: "map_of (connections (registry (srv s))) i = Some c"
  shows "accepts Q (tx c) \<longleftrightarrow> length (queued Q c) < send_queue (b_config b)"
    and "full Q (tx c) \<longleftrightarrow> \<not> accepts Q (tx c)"
proof -
  have "\<not> rx_gone (view Q (tx c))" using reachable_receivers [OF ok reach] k c unfolding receivers_ok_def by blast
  moreover have "capacity (view Q (tx c)) = send_queue (b_config b)"
    using connection_of_task [OF reachable_inv [OF ok reach] c] by (auto simp: conn_ok_def)
  ultimately show "accepts Q (tx c) \<longleftrightarrow> length (queued Q c) < send_queue (b_config b)"
    "full Q (tx c) \<longleftrightarrow> \<not> accepts Q (tx c)" by (auto simp: accepts_def full_def queued_def)
qed

section \<open>Everything queued is written\<close>

text \<open>A session that lasts comes back to its \<^verbatim>\<open>select!\<close>.\<close>

lemma session_comes_back:
  assumes step: "connection_step S Q M inp t st = Some (t', st')"
    and rx: "rx_of (phase t) = Some i" "rx_of (phase t') = Some i" and "\<not> is_running (phase t)"
  shows "to_select (phase t') < to_select (phase t)"
proof -
  obtain cl where who: "who t = Some cl"
    using step rx(1) by (cases "who t") (auto simp: connection_step_def split: phase.splits)
  show ?thesis
  proof (cases "phase t")
    case (Handling j ls acts)
    with handling_step [OF who Handling step] rx show ?thesis by auto
  next
    case (Checking j ls)
    with checking_stays [OF who _ step rx(2), of ls] rx(1) show ?thesis by auto
  qed (use assms(4) rx(1) in simp_all)
qed

lemma session_selects:
  assumes run: "is_run S Q M b lab \<sigma>" and sched: "scheduled lab \<sigma> k"
    and "k < length (tasks (\<sigma> n))" and "\<forall>m \<ge> n. rx_of (phase_at \<sigma> k m) = Some i"
  shows "\<exists>m \<ge> n. is_running (phase_at \<sigma> k m)"
  using assms(3,4)
proof (induction "to_select (phase_at \<sigma> k n)" arbitrary: n rule: less_induct)
  case less
  show ?case
  proof (cases "is_running (phase_at \<sigma> k n)")
    case False
    have "\<not> is_parked (phase_at \<sigma> k n)" "phase_at \<sigma> k n \<noteq> Ended"
      using less.prems(2) [rule_format, of n] by (cases "phase_at \<sigma> k n"; simp)+
    then have "\<exists>m \<ge> n. \<exists>inp. lab m = ByTask k inp" using sched False by (simp add: scheduled_def)
    then obtain m inp where m: "n \<le> m" "lab m = ByTask k inp" "tasks (\<sigma> m) ! k = tasks (\<sigma> n) ! k"
      using next_step [OF run less.prems(1)] by metis
    obtain st where step: "connection_step S Q M inp (tasks (\<sigma> m) ! k) (srv (\<sigma> m)) = Some (tasks (\<sigma> (Suc m)) ! k, st)"
      by (rule run_own_step [OF run m(2)])
    have "rx_of (phase_at \<sigma> k m) = Some i" "rx_of (phase_at \<sigma> k (Suc m)) = Some i" using less.prems(2) m(1) by simp_all
    then have "to_select (phase_at \<sigma> k (Suc m)) < to_select (phase_at \<sigma> k n)"
      using session_comes_back [OF step] False m(3) by (simp add: phase_at_def)
    from less.hyps [OF this run_length [OF run less.prems(1)]] show ?thesis
      using less.prems(2) m(1) by (meson Suc_leD le_SucI order_trans)
  qed auto
qed

text \<open>The run of a session that lasts for ever from some point on.\<close>

definition lasts ::
    "serde \<Rightarrow> ('q, 'x) mpsc_scheme \<Rightarrow> ('s, 'y) semaphore_scheme \<Rightarrow> builder \<Rightarrow> (nat \<Rightarrow> ('q, 's) label) \<Rightarrow>
     (nat \<Rightarrow> ('q, 's) sys) \<Rightarrow> nat \<Rightarrow> connection_id \<Rightarrow> nat \<Rightarrow> bool" where
  "lasts S Q M b lab \<sigma> k i n \<longleftrightarrow>
     serde_ok S \<and> mpsc_ok Q \<and> sem_ok M \<and> is_run S Q M b lab \<sigma> \<and> scheduled lab \<sigma> k \<and> outbound_fair Q lab \<sigma> k \<and>
     k < length (tasks (\<sigma> n)) \<and> (\<forall>m \<ge> n. rx_of (phase_at \<sigma> k m) = Some i)"

lemma lasts_later: "lasts S Q M b lab \<sigma> k i n \<Longrightarrow> n \<le> m \<Longrightarrow> lasts S Q M b lab \<sigma> k i m"
  unfolding lasts_def using run_length by (metis order_trans)

lemma lasts_step:
  assumes "lasts S Q M b lab \<sigma> k i n"
  shows "if \<exists>e. lab n = ByTask k (Select WakeOutbound e) then writes (line_at Q \<sigma> k i n) (line_at Q \<sigma> k i (Suc n))
    else grows (line_at Q \<sigma> k i n) (line_at Q \<sigma> k i (Suc n))"
  using assms unfolding lasts_def by (intro line_step) auto

lemma next_is_written:
  assumes last: "lasts S Q M b lab \<sigma> k i n" and aw: "awaits w0 ms (x # rest) (line_at Q \<sigma> k i n)"
  shows "\<exists>m \<ge> n. awaits w0 ms rest (line_at Q \<sigma> k i m)"
proof (rule ccontr)
  assume never: "\<not> ?thesis"
  have all: "awaits w0 ms (x # rest) (line_at Q \<sigma> k i m)" if "n \<le> m" for m
    using that
  proof (induction rule: dec_induct)
    case (step m)
    then have "\<not> writes (line_at Q \<sigma> k i m) (line_at Q \<sigma> k i (Suc m))"
      using never awaits_writes [OF step.IH] by (meson le_SucI)
    then show ?case
      using lasts_step [OF lasts_later [OF last step.hyps(1)]] awaits_grows [OF step.IH] by (auto split: if_splits)
  qed (rule aw)
  have "\<exists>m \<ge> n'. is_running (phase_at \<sigma> k m) \<and> rx_of (phase_at \<sigma> k m) = Some i \<and> backlog Q (srv (\<sigma> m)) i \<noteq> []" for n'
  proof -
    have l: "lasts S Q M b lab \<sigma> k i (max n n')" using lasts_later [OF last] by simp
    then obtain m where m: "max n n' \<le> m" "is_running (phase_at \<sigma> k m)"
      using session_selects unfolding lasts_def by metis
    moreover have "backlog Q (srv (\<sigma> m)) i \<noteq> []"
      using awaits_nonempty [OF all] m(1) by (simp add: line_at_def line_of_def)
    ultimately show ?thesis using l unfolding lasts_def by (metis max.bounded_iff)
  qed
  then obtain m e where m: "n \<le> m" "lab m = ByTask k (Select WakeOutbound e)"
    using last unfolding lasts_def outbound_fair_def by metis
  then have "writes (line_at Q \<sigma> k i m) (line_at Q \<sigma> k i (Suc m))"
    using lasts_step [OF lasts_later [OF last m(1)]] by auto
  from awaits_writes [OF all [OF m(1)] this] never m(1) show False by (meson le_SucI)
qed

lemma all_is_written:
  assumes "lasts S Q M b lab \<sigma> k i n" and "awaits w0 ms rest (line_at Q \<sigma> k i n)"
  shows "\<exists>m \<ge> n. awaits w0 ms [] (line_at Q \<sigma> k i m)"
  using assms
proof (induction rest arbitrary: n)
  case (Cons x rest)
  from next_is_written [OF Cons.prems] obtain m where m: "n \<le> m" "awaits w0 ms rest (line_at Q \<sigma> k i m)" by blast
  from Cons.IH [OF lasts_later [OF Cons.prems(1) m(1)] m(2)] m(1) show ?case by (meson order_trans)
qed auto

section \<open>A concrete run\<close>

text \<open>The client of the demonstration subscribes; a publication; its task writes what is queued.\<close>

definition write_next :: "(chan, nat) sys_event list" where
  "write_next = map (EvTask 0) [Select WakeOutbound (quiet 2), Check (quiet 2)]"

definition fanout_events :: "(chan, nat) sys_event list" where
  "fanout_events =
     EvAccept (Some ()) # map (EvTask 0) [HandshakeDone (Completed (Inr ())),
       FirstMessage (Completed (Some (Inr (Text ''A'')))), AckSent (Inr ()), Register 0,
       Select (WakeInbound (Some (Inr (Text ''S'')))) (quiet 1), Act, Act, Act, Act, Act, Check (quiet 1)]
     @ EvPublish ''tu'' ''8'' # write_next @ write_next @ write_next"

abbreviation fanout_states :: "nat \<Rightarrow> (chan, nat) sys" where
  "fanout_states \<equiv> run_states demo_serde ref_mpsc ref_sem fanout_events demo_start"

lemmas fanout_eval = run_states_def fanout_events_def write_next_def demo_defs demo_eval

lemma fanout_run: "is_run demo_serde ref_mpsc ref_sem demo_builder (run_labels fanout_events) fanout_states"
proof -
  have "\<exists>s. sys_run demo_serde ref_mpsc ref_sem fanout_events demo_start = Some s"
    by (simp add: fanout_eval)
  then show ?thesis using finite_schedule_is_run [OF demo_reachable] by blast
qed

lemma fanout_before:
  "map phase (tasks (fanout_states 12)) = [Running (ConnectionId 1) 1]"
  "map_of (connections (registry (srv (fanout_states 12)))) (ConnectionId 1) =
     Some \<lparr>conn_subject = ''alice'', subscriptions = [''tu'', ''t''],
       tx = \<lparr>capacity = 256, buffered = [to_frame demo_serde (Subscribed [''t'', ''tu''] [\<lparr>channel = ''private'', reason = ''invalid''\<rparr>,
         \<lparr>channel = ''u'', reason = ''unauthorized''\<rparr>, \<lparr>channel = ''tv'', reason = ''limit''\<rparr>]),
         to_frame demo_serde (Snapshot ''tu'' ''7'')], rx_gone = False\<rparr>, dropped = 0\<rparr>"
  by (simp_all add: fanout_eval)

lemma fanout_publishes:
  "sys_exec demo_serde ref_mpsc ref_sem (EvPublish ''tu'' ''8'') (fanout_states 12) = Some (fanout_states 13)"
  by (simp add: fanout_eval)

lemma fanout_after:
  assumes "19 \<le> n"
  shows "phase_at fanout_states 0 n = Running (ConnectionId 1) 1 \<and> backlog ref_mpsc (srv (fanout_states n)) (ConnectionId 1) = []"
  using assms by (simp add: phase_at_def backlog_def queued_def fanout_eval)

lemma fanout_fair:
  "scheduled (run_labels fanout_events) fanout_states 0" "outbound_fair ref_mpsc (run_labels fanout_events) fanout_states 0"
proof -
  have last_step: "run_labels fanout_events 18 = ByTask 0 (Check (quiet 2))"
    by (simp add: run_labels_def fanout_events_def write_next_def)
  have "\<exists>m \<ge> n. \<exists>inp. run_labels fanout_events m = ByTask 0 inp" if "\<not> is_running (phase_at fanout_states 0 n)" for n
  proof -
    have "\<not> 19 \<le> n" using that fanout_after by auto
    then have "n \<le> 18" by simp
    with last_step show ?thesis by blast
  qed
  then show "scheduled (run_labels fanout_events) fanout_states 0" by (simp add: scheduled_def)
  have "backlog ref_mpsc (srv (fanout_states m)) i = []" if "19 \<le> m" "rx_of (phase_at fanout_states 0 m) = Some i" for m i
    using fanout_after [OF that(1)] that(2) by simp
  then show "outbound_fair ref_mpsc (run_labels fanout_events) fanout_states 0" unfolding outbound_fair_def by metis
qed

section \<open>Published data is written\<close>

lemma publish_line:
  assumes Q: "mpsc_ok Q" and inv: "registry_inv (registry (srv s))"
    and c: "map_of (connections (registry (srv s))) i = Some c" "ch \<in> set (subscriptions c)" "accepts Q (tx c)"
    and pub: "sys_exec S Q M (EvPublish ch p) s = Some s'"
  shows "line_of Q i (tasks s' ! k) (srv s') =
    (wire (tasks s ! k), queued Q c @ [to_message (to_frame S (Data ch p))])"
proof -
  have "ch \<in> subs_of (registry (srv s)) i" using c(2) by (simp add: subs_of_Some [OF c(1)])
  with c pub show ?thesis
    by (auto simp: Server_publish_def Let_def split_beta line_of_def backlog_def publish_map_of [OF inv] queued_def
        after_deliver_view [OF Q])
qed

text \<open>
  C4: What is published reaches the subscribers' sockets. In every infinite run in which the runtime keeps polling the task of a
  connection and does not neglect the outbound branch of its \<open>select!\<close> for ever: when data is published on a channel that the
  connection holds and its queue has room, then the frames queued before and after them that data are all written to its
  socket, in this order; unless the session ends.
\<close>

theorem published_data_is_written:
  assumes "serde_ok S" and "mpsc_ok Q" and "sem_ok M" and run: "is_run S Q M b lab \<sigma>"
    and "scheduled lab \<sigma> k" and "outbound_fair Q lab \<sigma> k"
    and k: "k < length (tasks (\<sigma> n))" and rx: "rx_of (phase_at \<sigma> k n) = Some i"
    and c: "map_of (connections (registry (srv (\<sigma> n)))) i = Some c" "ch \<in> set (subscriptions c)"
      "length (queued Q c) < send_queue (b_config b)"
    and pub: "sys_exec S Q M (EvPublish ch p) (\<sigma> n) = Some (\<sigma> (Suc n))"
  shows "\<exists>m > n. rx_of (phase_at \<sigma> k m) \<noteq> Some i \<or>
    (\<exists>x. wire (tasks (\<sigma> m) ! k) = wire (tasks (\<sigma> n) ! k) @ x \<and>
       subseq (queued Q c @ [to_message (to_frame S (Data ch p))]) x)"
proof (cases "\<exists>m > n. rx_of (phase_at \<sigma> k m) \<noteq> Some i")
  case False
  let ?w = "wire (tasks (\<sigma> n) ! k)" and ?ms = "queued Q c @ [to_message (to_frame S (Data ch p))]"
  have "registry_inv (registry (srv (\<sigma> n)))"
    using reachable_inv [OF assms(1-3) run_reachable [OF run]] by (simp add: sys_inv_def)
  moreover have "accepts Q (tx c)"
    using session_accepts(1) [OF assms(1-3) run_reachable [OF run] k _ c(1)] rx c(3) by (simp add: phase_at_def)
  ultimately have "line_of Q i (tasks (\<sigma> (Suc n)) ! k) (srv (\<sigma> (Suc n))) = (?w, ?ms)"
    using publish_line [OF assms(2) _ c(1,2) _ pub] by blast
  then have "line_at Q \<sigma> k i (Suc n) = (?w, ?ms)" by (simp add: line_at_def)
  then have "awaits ?w ?ms ?ms (line_at Q \<sigma> k i (Suc n))" by (simp add: awaits_start)
  moreover have "lasts S Q M b lab \<sigma> k i (Suc n)"
    using assms(1-6) run_length [OF run k] False by (auto simp: lasts_def)
  ultimately obtain m where m: "Suc n \<le> m" "awaits ?w ?ms [] (line_at Q \<sigma> k i m)" using all_is_written by blast
  then obtain x where "fst (line_at Q \<sigma> k i m) = ?w @ x" "subseq ?ms x" using awaits_written by blast
  then show ?thesis using m(1) by (intro exI [of _ m]) (auto simp: line_at_def line_of_def)
qed blast

theorem published_data_is_written_witness:
  "\<exists>m > 12. rx_of (phase_at fanout_states 0 m) \<noteq> Some (ConnectionId 1) \<or>
     to_message (to_frame demo_serde (Data ''tu'' ''8'')) \<in> set (wire (tasks (fanout_states m) ! 0))"
proof -
  let ?c = "the (map_of (connections (registry (srv (fanout_states 12)))) (ConnectionId 1))"
  have k: "0 < length (tasks (fanout_states 12))" "phase_at fanout_states 0 12 = Running (ConnectionId 1) 1"
    using fanout_before(1) by (cases "tasks (fanout_states 12)"; simp add: phase_at_def)+
  have c: "map_of (connections (registry (srv (fanout_states 12)))) (ConnectionId 1) = Some ?c"
    "''tu'' \<in> set (subscriptions ?c)" "length (queued ref_mpsc ?c) < send_queue (b_config demo_builder)"
    unfolding fanout_before(2)
    by (simp_all add: queued_def ref_mpsc_def demo_builder_def demo_config_def Config_default_def)
  have "rx_of (phase_at fanout_states 0 12) = Some (ConnectionId 1)" by (simp add: k(2))
  from published_data_is_written [OF demo_ok fanout_run fanout_fair k(1) this c, of "''8''"] fanout_publishes
  obtain m where m: "12 < m" "rx_of (phase_at fanout_states 0 m) \<noteq> Some (ConnectionId 1) \<or>
    (\<exists>x. wire (tasks (fanout_states m) ! 0) = wire (tasks (fanout_states 12) ! 0) @ x \<and>
       subseq (queued ref_mpsc ?c @ [to_message (to_frame demo_serde (Data ''tu'' ''8''))]) x)" by auto
  moreover have "y \<in> set x" if "subseq (ys @ [y]) x" for y x and ys :: "message list"
    using that by (auto dest: list_emb_set)
  ultimately show ?thesis by (metis Un_iff set_append)
qed

end
