(* ===== verification/Gap_Freedom.thy ===== *)
theory Gap_Freedom
  imports Eventual_Delivery
begin

text \<open>
  That nothing is lost without being counted. \<open>Delivery_Order\<close> shows that a client receives a subsequence of what is published
  on a channel. Here: as long as a session holds the channel and the counter \<open>frames_dropped\<close> does not move, it is not
  just a subsequence. What its socket has taken and its queue holds grows by exactly the data offered to it, by whole
  publications and by those of overlapping publishers, frame by frame.
\<close>

section \<open>What a client has got and is about to get\<close>

definition line_data ::
    "serde \<Rightarrow> ('q, 'x) mpsc_scheme \<Rightarrow> string \<Rightarrow> nat \<Rightarrow> connection_id \<Rightarrow> ('q, 's) sys \<Rightarrow> message list" where
  "line_data S Q ch k i s = data_msgs S ch (wire (tasks s ! k)) @ data_msgs S ch (backlog Q (srv s) i)"

definition dropped_so_far :: "('q, 's) sys \<Rightarrow> u64" where
  "dropped_so_far s = frames_dropped (metrics (registry (srv s)))"

definition holding :: "nat \<Rightarrow> connection_id \<Rightarrow> string \<Rightarrow> ('q, 's) sys \<Rightarrow> bool" where
  "holding k i ch s \<longleftrightarrow> k < length (tasks s) \<and> rx_of (phase (tasks s ! k)) = Some i \<and> ch \<in> subs_of (registry (srv s)) i"

text \<open>A list of events during which task \<open>k\<close> stays in the session of connection \<open>i\<close>, holds \<open>ch\<close>, and no frame is dropped anywhere.\<close>

fun steady ::
    "serde \<Rightarrow> ('q, 'x) mpsc_scheme \<Rightarrow> ('s, 'y) semaphore_scheme \<Rightarrow> nat \<Rightarrow> connection_id \<Rightarrow> string \<Rightarrow>
     ('q, 's) sys_event list \<Rightarrow> ('q, 's) sys \<Rightarrow> bool" where
  "steady S Q M k i ch [] s \<longleftrightarrow> holding k i ch s"
| "steady S Q M k i ch (ev # evs) s \<longleftrightarrow> holding k i ch s \<and>
     (case sys_exec S Q M ev s of
        None \<Rightarrow> False
      | Some s' \<Rightarrow> dropped_so_far s' = dropped_so_far s \<and> steady S Q M k i ch evs s')"

section \<open>Steps that publish nothing\<close>

lemma holding_registered: "holding k i ch s \<Longrightarrow> i \<in> fst ` set (connections (registry (srv s)))"
  by (auto simp: holding_def subs_of_def split: option.splits dest: map_of_SomeD_key)

lemma same_backlog:
  assumes "queues_grow S Q P D st st'" and "P i" and "D i ch = []" and "i \<in> fst ` set (connections (registry st'))"
  shows "data_msgs S ch (backlog Q st' i) = data_msgs S ch (backlog Q st i)"
proof -
  obtain c' where c': "map_of (connections (registry st')) i = Some c'"
    using assms(4) by (metis map_of_eq_None_iff option.exhaust)
  with assms(1,2) obtain c where c: "map_of (connections (registry st)) i = Some c"
    and d: "data_msgs S ch (queued Q c') = data_msgs S ch (queued Q c) \<or>
      data_msgs S ch (queued Q c') = data_msgs S ch (queued Q c) @ D i ch"
    unfolding queues_grow_def by blast
  then have "data_msgs S ch (queued Q c') = data_msgs S ch (queued Q c)" using assms(3) by auto
  with c c' show ?thesis by (simp add: backlog_def)
qed

lemma running_quiet:
  assumes S: "serde_ok S" and Q: "mpsc_ok Q" and t: "who t = Some cl" "phase t = Running i ls"
    and step: "connection_step S Q M inp t st = Some (t', st')" and stay: "rx_of (phase t') = Some i"
    and inp: "\<And>e. inp \<noteq> Select WakeOutbound e"
  shows "same_queues S Q P st st' \<and> (\<forall>ch. data_msgs S ch (wire t') = data_msgs S ch (wire t))"
proof (cases "\<exists>msg e. inp = Select (WakeInbound (Some (Inr (Text msg)))) e")
  case True
  then obtain msg e where "inp = Select (WakeInbound (Some (Inr (Text msg)))) e" by blast
  then obtain acts where "handle_begin S msg i cl st = (acts, st')" "wire t' = wire t"
    using t step by (auto simp: connection_step_def on_running_def split: prod.splits)
  with same_queues_handle_begin [OF S, of msg i cl st acts st' Q P] show ?thesis by simp
next
  case False
  from t step show ?thesis
  proof (cases rule: running_step)
    case (Branch wk e ev st0)
    obtain c ss st1 where sel: "select_body S Q i cl ev e \<lparr>last_seen = ls, written = wire t\<rparr> st0 = (c, ss, st1)"
      by (metis prod.exhaust)
    have t': "wire t' = written ss" "st' = st1"
      using after_branch_stays [OF Branch(3) [unfolded sel] stay] by simp_all
    have "wk \<noteq> WakeOutbound" using inp Branch(1) by blast
    then have "st0 = st" "\<And>f. ev \<noteq> Outbound f" using Branch(2) by (cases wk; auto)+
    moreover have "\<And>b. ev \<noteq> Inbound (Some (Inr (Text b)))"
      using False Branch(1) wake_event_cases(2) [OF Branch(2)] by blast
    ultimately show ?thesis using select_body_quiet [OF S Q _ _ sel] t' by simp
  qed (use False stay in auto)
qed

lemma own_quiet:
  assumes S: "serde_ok S" and Q: "mpsc_ok Q" and quiet: "quiet_phase S (phase t)"
    and step: "connection_step S Q M inp t st = Some (t', st')"
    and rx: "rx_of (phase t) = Some i" "rx_of (phase t') = Some i" and inp: "\<And>e. inp \<noteq> Select WakeOutbound e"
  shows "same_queues S Q P st st' \<and> (\<forall>ch. data_msgs S ch (wire t') = data_msgs S ch (wire t))"
proof -
  obtain cl where who: "who t = Some cl"
    using step rx(1) by (cases "who t") (auto simp: connection_step_def split: phase.splits)
  show ?thesis
  proof (cases "phase t")
    case (Running j ls)
    with rx(1) running_quiet [OF S Q who _ step rx(2) inp] show ?thesis by simp
  next
    case (Handling j ls acts)
    have "wire t' = wire t \<and> (st' = st \<or> (\<exists>a \<in> set acts. st' = snd (act_step S Q j a st)))"
      using who Handling step rx(2)
      by (auto simp: connection_step_def on_handling_def leave_session_def split: input.splits list.splits prod.splits)
    moreover have "same_queues S Q P st (snd (act_step S Q j a st))" if "a \<in> set acts" for a
      using same_queues_act_step [OF S Q] quiet Handling that by (metis prod.collapse quiet_phase.simps(1))
    ultimately show ?thesis using same_queues_refl by metis
  next
    case (Checking j ls)
    with rx(1) checking_stays [OF who _ step rx(2), of ls] show ?thesis by (auto simp: same_queues_refl)
  qed (use rx(1) in simp_all)
qed

lemma own_data:
  assumes S: "serde_ok S" and Q: "mpsc_ok Q" and quiet: "quiet_phase S (phase t)"
    and step: "connection_step S Q M inp t st = Some (t', st')"
    and rx: "rx_of (phase t) = Some i" "rx_of (phase t') = Some i" and i: "i \<in> fst ` set (connections (registry st'))"
  shows "data_msgs S ch (wire t') @ data_msgs S ch (backlog Q st' i) = data_msgs S ch (wire t) @ data_msgs S ch (backlog Q st i)"
proof (cases "\<exists>e. inp = Select WakeOutbound e")
  case True
  with effect_line [OF Q own_effect [OF Q step rx] i] obtain m
    where "backlog Q st i = m # backlog Q st' i" "wire t' = wire t @ [m]"
    by (auto simp: writes_def line_of_def)
  then show ?thesis using data_msgs_simps(2) [of S ch "[m]" "backlog Q st' i"] by simp
next
  case False
  with own_quiet [OF S Q quiet step rx, of "\<lambda>_. True"]
  have "same_queues S Q (\<lambda>_. True) st st'" "data_msgs S ch (wire t') = data_msgs S ch (wire t)" by auto
  then show ?thesis using same_backlog [of S Q "\<lambda>_. True" "\<lambda>_ _. []" st st' i ch] i by (simp add: same_queues_def)
qed

lemma other_quiet:
  assumes S: "serde_ok S" and Q: "mpsc_ok Q" and inv: "registry_inv (registry st)" and line: "line_ok S Q H st t"
    and step: "connection_step S Q M inp t st = Some (t', st')"
    and P: "\<And>i. P i \<Longrightarrow> i \<in> fst ` set (connections (registry st))" "\<And>i. id_of (phase t) = Some i \<Longrightarrow> \<not> P i"
  shows "same_queues S Q P st st'"
proof -
  have same: "same_queues S Q P st (st\<lparr>slots := x\<rparr>)" "same_queues S Q P st (st\<lparr>registry := Registry_remove i (registry st)\<rparr>)"
    for x i by (rule same_queues_connections; auto dest: remove_map_of)+
  have session: "same_queues S Q P st st'" if "keeps_line S Q H i st (t', st')" "id_of (phase t) = Some i" for i
    using that P(2) same_queues_weaken [of S Q "\<lambda>j. j \<noteq> i" st st' P] by (auto simp: keeps_line_def)
  show ?thesis
  proof (cases "who t")
    case None
    then show ?thesis
      using step same same_queues_refl [of S Q P st]
      by (auto simp: connection_step_def local_step_def permit_drop_def split: phase.splits input.splits)
  next
    case (Some cl)
    show ?thesis
    proof (cases "phase t")
      case Acked
      with step Some have "on_acked Q cl inp t st = Some (t', st')" by (simp add: connection_step_def)
      then show ?thesis
      proof (cases rule: on_acked_cases)
        case (Registers n i reg)
        have "\<not> P i" using next_id_fresh [OF inv] add_fields(1) [OF Registers(3)] P(1) by metis
        then show ?thesis
          unfolding same_queues_def queues_grow_def by (auto simp: Registers(5) add_fields(4) [OF Registers(3)] hash_simps)
      qed (simp add: same_queues_refl)
    next
      case (Running i ls)
      with session [of i] on_running_line [OF S Q line Running] step Some show ?thesis by (simp add: connection_step_def)
    next
      case (Handling i ls acts)
      with session [of i] on_handling_line [OF S Q line Handling] step Some show ?thesis by (simp add: connection_step_def)
    next
      case (Checking i ls)
      with session [of i] on_checking_line [OF line Checking] step Some show ?thesis by (simp add: connection_step_def)
    qed (use step Some same same_queues_refl [of S Q P st] in
        \<open>auto simp: connection_step_def local_step_def permit_drop_def Registered_drop_def split: input.splits\<close>)
  qed
qed

section \<open>Publications\<close>

lemma few_connections:
  assumes "registry_inv reg" and "A \<subseteq> fst ` set (connections reg)"
  shows "card A < 2 ^ 64"
proof -
  have "A \<subseteq> range ConnectionId - {ConnectionId 0}"
  proof
    fix i assume "i \<in> A"
    then obtain n where n: "i = ConnectionId n" "ConnectionId n \<in> fst ` set (connections reg)"
      using assms(2) by (cases i) auto
    then have "n \<noteq> 0" using assms(1) unfolding registry_inv_def ids_issued_def by (metis less_irrefl)
    with n show "i \<in> range ConnectionId - {ConnectionId 0}" by simp
  qed
  then have "card A \<le> card (range ConnectionId - {ConnectionId 0})" by (intro card_mono) simp_all
  also have "\<dots> < card (range ConnectionId)" by (intro psubset_card_mono) auto
  also have "\<dots> \<le> card (UNIV :: u64 set)" by (intro card_image_le) simp
  finally show ?thesis by (simp add: card_word)
qed

lemma full_queue_is_counted:
  assumes inv: "registry_inv reg" and Q: "mpsc_ok Q" and c: "map_of (connections reg) i = Some c"
    and "ch \<in> set (subscriptions c)" and "full Q (tx c)"
  shows "frames_dropped (metrics (snd (Registry_publish Q ch f reg))) \<noteq> frames_dropped (metrics reg)"
proof -
  let ?A = "{i. \<exists>c. map_of (connections reg) i = Some c \<and> ch \<in> set (subscriptions c) \<and> full Q (tx c)}"
  have sub: "?A \<subseteq> fst ` set (connections reg)" by (auto dest: map_of_SomeD_key)
  have "card ?A < 2 ^ 64" by (rule few_connections [OF inv sub])
  moreover have "0 < card ?A" using assms(3-5) finite_subset [OF sub] by (auto simp: card_gt_0_iff)
  ultimately have "(of_nat (card ?A) :: u64) \<noteq> 0" by (auto simp: word_of_nat_eq_0_iff dest: nat_dvd_not_less)
  then show ?thesis by (simp add: publish_metrics_account [OF inv Q])
qed

lemma publish_data:
  assumes ok: "serde_ok S" "mpsc_ok Q" "sem_ok M" and reach: "reachable S Q M b s" and hold: "holding k i ch s"
    and exec: "sys_exec S Q M (EvPublish ch p) s = Some s'" and drop: "dropped_so_far s' = dropped_so_far s"
  shows "line_data S Q ch k i s' = line_data S Q ch k i s @ [to_message (to_frame S (Data ch p))]"
proof -
  have k: "k < length (tasks s)" "rx_of (phase (tasks s ! k)) = Some i" and sub: "ch \<in> subs_of (registry (srv s)) i"
    using hold by (simp_all add: holding_def)
  have inv: "registry_inv (registry (srv s))" using reachable_inv [OF ok reach] by (simp add: sys_inv_def)
  obtain c where c: "map_of (connections (registry (srv s))) i = Some c" "ch \<in> set (subscriptions c)"
    using sub by (auto simp: subs_of_def split: option.splits)
  have "accepts Q (tx c)"
    using session_accepts(2) [OF ok reach k c(1)] full_queue_is_counted [OF inv ok(2) c] exec drop
    by (auto simp: dropped_so_far_def Server_publish_def Let_def split_beta)
  from publish_line [OF ok(2) inv c this exec, of k] c(1) show ?thesis
    by (simp add: line_data_def line_of_def backlog_def data_msgs_frame [OF ok(1)])
qed

text \<open>The same for a single delivery of a publication in progress.\<close>

lemma single_data:
  assumes ok: "serde_ok S" "mpsc_ok Q" "sem_ok M" and reach: "reachable S Q M b s" and hold: "holding k i ch s"
    and exec: "sys_exec S Q M (EvPublishTo i ch p) s = Some s'" and drop: "dropped_so_far s' = dropped_so_far s"
  shows "line_data S Q ch k i s' = line_data S Q ch k i s @ [to_message (to_frame S (Data ch p))]"
proof -
  have k: "k < length (tasks s)" "rx_of (phase (tasks s ! k)) = Some i" and sub: "ch \<in> subs_of (registry (srv s)) i"
    using hold by (simp_all add: holding_def)
  obtain c where c: "map_of (connections (registry (srv s))) i = Some c"
    using sub by (auto simp: subs_of_def split: option.splits)
  let ?f = "to_frame S (Data ch p)"
  have s': "s' = s\<lparr>srv := reply Q i ?f (srv s)\<rparr>" using exec by (simp split: if_splits)
  have "fst (try_send Q (tx c) ?f) \<noteq> SendFull"
    using drop by (auto simp: s' dropped_so_far_def reply_def Registry_send_def c deliver_eq tally_def)
  then have "accepts Q (tx c)" using session_accepts(2) [OF ok reach k c] try_send_SendFull_iff [OF ok(2)] by blast
  then show ?thesis
    by (simp add: s' line_data_def backlog_def reply_def Registry_send_def c deliver_eq hash_simps queued_def
        after_deliver_view [OF ok(2)] data_msgs_frame [OF ok(1)])
qed

lemma task_data:
  assumes ok: "serde_ok S" "mpsc_ok Q" "sem_ok M" and reach: "reachable S Q M b s" and lines: "lines_ok S Q H s"
    and hold: "holding k i ch s" "holding k i ch s'" and exec: "sys_exec S Q M (EvTask j inp) s = Some s'"
  shows "line_data S Q ch k i s' = line_data S Q ch k i s"
proof -
  have k: "k < length (tasks s)" "rx_of (phase (tasks s ! k)) = Some i" "rx_of (phase (tasks s' ! k)) = Some i"
    using hold by (simp_all add: holding_def)
  have inv: "sys_inv S Q M b s" by (rule reachable_inv [OF ok reach])
  have i: "i \<in> fst ` set (connections (registry (srv s')))" by (rule holding_registered [OF hold(2)])
  obtain t st where step: "connection_step S Q M inp (tasks s ! j) (srv s) = Some (t, st)" "j < length (tasks s)"
    and s': "s' = s\<lparr>srv := st, tasks := (tasks s)[j := t]\<rparr>" using exec by (auto split: if_splits)
  have "own_line S Q H (srv s) (tasks s ! j)" using lines step(2) by (simp add: lines_ok_def)
  then obtain H' where line: "line_ok S Q H' (srv s) (tasks s ! j)" by (auto simp: own_line_def)
  show ?thesis
  proof (cases "j = k")
    case True
    have "quiet_phase S (phase (tasks s ! k))" using line True by (simp add: line_ok_def)
    from own_data [OF ok(1,2) this _ k(2), of M inp "srv s" t st ch] step k i s' True show ?thesis by (simp add: line_data_def)
  next
    case False
    have "id_of (phase (tasks s ! j)) \<noteq> Some i"
      using session_registered(2) [OF inv k(1,2)] inv False step(2) unfolding sys_inv_def owned_def owns_def by blast
    then have "same_queues S Q (\<lambda>x. x = i) (srv s) st"
      using session_registered(1) [OF inv k(1,2)] inv
      by (intro other_quiet [OF ok(1,2) _ line step(1)]) (auto simp: sys_inv_def)
    from same_backlog [OF this [unfolded same_queues_def], of i ch] i s' False show ?thesis by (simp add: line_data_def)
  qed
qed

text \<open>Everything else that happens in the server adds no data of the channel to the connection's queue.\<close>

lemma quiet_event:
  assumes ok: "serde_ok S" "mpsc_ok Q" and inv: "registry_inv (registry (srv s))" and k: "k < length (tasks s)"
    and ev: "\<And>j inp. ev \<noteq> EvTask j inp" "\<And>p. ev \<noteq> EvPublish ch p" "\<And>p. ev \<noteq> EvPublishTo i ch p"
    and exec: "sys_exec S Q M ev s = Some s'"
  shows "\<exists>D. queues_grow S Q (\<lambda>_. True) D (srv s) (srv s') \<and> D i ch = [] \<and> tasks s' ! k = tasks s ! k"
proof -
  let ?D = "\<lambda>m _ x. data_msgs S x [to_message (to_frame S m)]"
  let ?One = "\<lambda>m j n x. if n = j then data_msgs S x [to_message (to_frame S m)] else []"
  have none: "data_msgs S ch [to_message (to_frame S m)] = []" if "\<And>p. m \<noteq> Data ch p" for m
    using that by (auto simp: data_msgs_frame [OF ok(1)] split: server_message.splits)
  have one: "queues_grow S Q (\<lambda>_. True) (?One m j) (srv s) (reply Q j (to_frame S m) (srv s))" for m j
    by (rule queues_reply [OF ok(2)]) simp
  have unchanged: "queues_grow S Q (\<lambda>_. True) (\<lambda>_ _. []) (srv s) (srv s')"
    if "\<And>j. map_of (connections (registry (srv s'))) j = map_of (connections (registry (srv s))) j"
    using same_queues_connections [of "srv s'" "srv s" S Q "\<lambda>_. True"] that by (simp add: same_queues_def)
  show ?thesis
  proof (cases ev)
    case (EvAccept stream)
    with exec k unchanged show ?thesis
      by (intro exI [of _ "\<lambda>_ _. []"])
        (auto simp: serve_accept_def refuse_full_def Let_def nth_append split: if_splits option.splits)
  next
    case (EvPublish c p)
    with exec ev(2) queues_publish [OF ok(2) inv refl] none show ?thesis
      by (intro exI [of _ "?D (Data c p)"]) (auto simp: Server_publish_def split_beta Let_def)
  next
    case (EvPublishTo j c p)
    with exec ev(3) one [of j "Data c p"] none [of "Data c p"] show ?thesis
      by (intro exI [of _ "?One (Data c p) j"]) (auto split: if_splits)
  next
    case (EvResyncTo j chs)
    with exec one [of j "Resync chs"] none [of "Resync chs"] show ?thesis
      by (intro exI [of _ "?One (Resync chs) j"]) auto
  next
    case EvResyncAll
    with exec queues_broadcast [OF ok(2) refl] none show ?thesis
      by (intro exI [of _ "?D (Resync [])"]) (auto simp: Server_resync_all_def split_beta Let_def)
  next
    case (EvResyncOn chs c)
    with exec queues_publish [OF ok(2) inv refl] none show ?thesis
      by (intro exI [of _ "?D (Resync chs)"]) (auto simp: resync_on_def split: if_splits)
  qed (use exec ev(1) unchanged in \<open>auto simp: Accepting_drop_def\<close>)
qed

lemma exec_data:
  assumes ok: "serde_ok S" "mpsc_ok Q" "sem_ok M" and reach: "reachable S Q M b s" and lines: "lines_ok S Q H s"
    and hold: "holding k i ch s" "holding k i ch s'" and exec: "sys_exec S Q M ev s = Some s'"
    and drop: "dropped_so_far s' = dropped_so_far s"
  shows "line_data S Q ch k i s' = line_data S Q ch k i s @ offered_msgs S i ch [ev]"
proof -
  consider (whole) p where "ev = EvPublish ch p" | (single) p where "ev = EvPublishTo i ch p"
    | (task) j inp where "ev = EvTask j inp" | (other) "\<And>j inp. ev \<noteq> EvTask j inp" "\<And>p. ev \<noteq> EvPublish ch p"
      "\<And>p. ev \<noteq> EvPublishTo i ch p"
    by blast
  then show ?thesis
  proof cases
    case (whole p)
    from publish_data [OF ok reach hold(1) exec [unfolded whole] drop] show ?thesis
      by (simp add: whole offered_msgs_def offered_simps)
  next
    case (single p)
    from single_data [OF ok reach hold(1) exec [unfolded single] drop] show ?thesis
      by (simp add: single offered_msgs_def offered_simps)
  next
    case (task j inp)
    from task_data [OF ok reach lines hold exec [unfolded task]] show ?thesis
      by (simp add: task offered_msgs_def offered_simps)
  next
    case other
    have none: "offered_msgs S i ch [ev] = []"
      using other by (cases ev) (auto simp: offered_msgs_def offered_simps)
    have "k < length (tasks s)" "registry_inv (registry (srv s))"
      using hold(1) reachable_inv [OF ok reach] by (simp_all add: holding_def sys_inv_def)
    then obtain D where D: "queues_grow S Q (\<lambda>_. True) D (srv s) (srv s')" "D i ch = []" "tasks s' ! k = tasks s ! k"
      using quiet_event [OF ok(1,2) _ _ other exec] by blast
    from same_backlog [OF D(1) _ D(2) holding_registered [OF hold(2)]] D(3) none show ?thesis
      by (simp add: line_data_def)
  qed
qed

lemma steady_data:
  assumes ok: "serde_ok S" "mpsc_ok Q" "sem_ok M"
  shows "reachable S Q M b s \<Longrightarrow> lines_ok S Q H s \<Longrightarrow> steady S Q M k i ch evs s \<Longrightarrow> sys_run S Q M evs s = Some s' \<Longrightarrow>
    line_data S Q ch k i s' = line_data S Q ch k i s @ offered_msgs S i ch evs"
proof (induction evs arbitrary: s H)
  case Nil
  then show ?case by (simp add: offered_msgs_def offered_simps)
next
  case (Cons ev evs)
  from Cons.prems(3,4) obtain s1 where s1: "sys_exec S Q M ev s = Some s1" "sys_run S Q M evs s1 = Some s'"
    and hold: "holding k i ch s" and st: "steady S Q M k i ch evs s1" "dropped_so_far s1 = dropped_so_far s"
    by (auto simp del: sys_exec.simps split: option.splits)
  have "holding k i ch s1" using st(1) by (cases evs) auto
  from exec_data [OF ok Cons.prems(1,2) hold this s1(1) st(2)]
  have step: "line_data S Q ch k i s1 = line_data S Q ch k i s @ offered_msgs S i ch [ev]" .
  have "reachable S Q M b s1" by (rule reachable.Step [OF Cons.prems(1) sys_exec_step [OF s1(1)]])
  moreover have "lines_ok S Q (\<lambda>i ch. H i ch @ offered_msgs S i ch [ev]) s1"
    by (rule exec_line [OF ok(1,2) reachable_inv [OF ok Cons.prems(1)] Cons.prems(2) s1(1)])
  ultimately show ?case
    using Cons.IH [OF _ _ st(1) s1(2)] step offered_msgs_append [of S i ch "[ev]" evs] by simp
qed

section \<open>No gap without a counted drop\<close>

text \<open>The session of the demonstration, from the publication on.\<close>

definition gap_free_events :: "(chan, nat) sys_event list" where
  "gap_free_events = drop 12 fanout_events @ [EvPublish ''tu'' ''9'', EvPublishTo (ConnectionId 1) ''tu'' ''10'', EvPublish ''t'' ''1'']"

lemma gap_free_run:
  "sys_run demo_serde ref_mpsc ref_sem (take 12 fanout_events) demo_start = Some (fanout_states 12)"
  "steady demo_serde ref_mpsc ref_sem 0 (ConnectionId 1) ''tu'' gap_free_events (fanout_states 12)"
  "\<exists>s. sys_run demo_serde ref_mpsc ref_sem gap_free_events (fanout_states 12) = Some s"
  by (simp_all add: gap_free_events_def fanout_eval dropped_so_far_def holding_def subs_of_def indexed_def)

text \<open>
  C6: No gap without a counted drop. Over any part of any run during which a session stays and holds a channel and the counter
  \<open>frames_dropped\<close> does not move, the data frames of the channel that the client's socket has taken or that wait in its
  queue grow by exactly what is offered to the connection on the channel, by whole publications and by the single
  deliveries of overlapping ones: every offer, in order, once. Without overlap that is every publication.
\<close>

theorem no_gap_without_counted_drop:
  assumes "serde_ok S" and "mpsc_ok Q" and "sem_ok M" and "started M b s0"
    and before: "sys_run S Q M evs0 s0 = Some s" and run: "sys_run S Q M evs s = Some s'"
    and "steady S Q M k i ch evs s"
  shows "data_msgs S ch (wire (tasks s' ! k)) @ data_msgs S ch (backlog Q (srv s') i) =
    data_msgs S ch (wire (tasks s ! k)) @ data_msgs S ch (backlog Q (srv s) i) @
    map (\<lambda>p. to_message (to_frame S (Data ch p))) (offered i ch evs)"
proof -
  have "reachable S Q M b s" by (rule sys_run_reachable [OF reachable.Bound [OF assms(4)] before])
  moreover note run_from_start [OF assms(1-4) before]
  ultimately show ?thesis
    using steady_data [OF assms(1-3) _ _ assms(7) run] by (simp add: line_data_def offered_msgs_def)
qed

theorem no_gap_without_counted_drop_witness:
  "\<exists>s. sys_run demo_serde ref_mpsc ref_sem gap_free_events (fanout_states 12) = Some s \<and>
     data_msgs demo_serde ''tu'' (wire (tasks s ! 0)) @ data_msgs demo_serde ''tu'' (backlog ref_mpsc (srv s) (ConnectionId 1)) =
     data_msgs demo_serde ''tu'' (wire (tasks (fanout_states 12) ! 0)) @
     data_msgs demo_serde ''tu'' (backlog ref_mpsc (srv (fanout_states 12)) (ConnectionId 1)) @
     map (\<lambda>p. to_message (to_frame demo_serde (Data ''tu'' p))) [''8'', ''9'', ''10'']"
proof -
  obtain s where s: "sys_run demo_serde ref_mpsc ref_sem gap_free_events (fanout_states 12) = Some s"
    using gap_free_run(3) by blast
  have p: "offered (ConnectionId 1) ''tu'' gap_free_events = [''8'', ''9'', ''10'']"
    by (simp add: gap_free_events_def fanout_events_def write_next_def offered_def List.map_filter_simps)
  from no_gap_without_counted_drop [OF demo_ok demo_started gap_free_run(1) s gap_free_run(2)] s show ?thesis
    unfolding p by blast
qed

end
