(* ===== verification/Publishers.thy ===== *)
theory Publishers
  imports Registry_Spec "HOL-Library.Sublist"
begin

text \<open>
  The registry under threads that really run at the same time. \<^verbatim>\<open>publish\<close>, \<^verbatim>\<open>broadcast\<close> and \<^verbatim>\<open>send\<close>
  of \<^verbatim>\<open>src/src/registry.rs\<close> hold its lock as readers, so several of them are in the middle of their
  loops together, and one \<^verbatim>\<open>deliver\<close> is three separate effects on what they share: the attempt to
  queue the frame, the counter of the metrics and the streak of the connection. The operations that
  change connections or subscriptions hold the lock as writers: they run when no reader is inside. The
  receiving end of a queue takes no lock.

  A thread is between two effects in a \<open>pc\<close>. The fields \<open>offers\<close>, \<open>called\<close>, \<open>taken\<close> and \<open>fulls\<close> of the
  state record what happened and have no influence on it.
\<close>

section \<open>Threads and steps\<close>

datatype call = CallPublish string frame | CallBroadcast frame | CallSend connection_id frame

fun call_frame :: "call \<Rightarrow> frame" where
  "call_frame (CallPublish _ f) = f"
| "call_frame (CallBroadcast f) = f"
| "call_frame (CallSend _ f) = f"

text \<open>What the loop of a call runs over, read under the lock.\<close>

fun call_ids :: "'q registry \<Rightarrow> call \<Rightarrow> connection_id list" where
  "call_ids reg (CallPublish ch _) = (case map_of (by_channel reg) ch of None \<Rightarrow> [] | Some ids \<Rightarrow> ids)"
| "call_ids reg (CallBroadcast _) = map fst (connections reg)"
| "call_ids reg (CallSend i _) = [i]"

text \<open>
  A thread outside; in its loop with the ids to come and the deliveries so far; after its attempt to
  queue the frame; after the counter.
\<close>

datatype pc =
    Outside
  | Looping frame "connection_id list" nat
  | Tried frame connection_id send_result "connection_id list" nat
  | Tallied frame connection_id send_result "connection_id list" nat

record 'q race =
  reg_of :: "'q registry"
  threads :: "pc list"
  offers :: "(nat \<times> connection_id \<times> frame \<times> send_result) list"
  called :: "(nat \<times> frame \<times> connection_id list) list"
  taken :: "(connection_id \<times> frame) list"
  fulls :: "connection_id \<Rightarrow> nat"

datatype write_op =
    WAdd string nat
  | WRemove connection_id
  | WSubscribe connection_id "string list" nat
  | WUnsubscribe connection_id "string list"

fun write_exec :: "('q, 'x) mpsc_scheme \<Rightarrow> write_op \<Rightarrow> 'q registry \<Rightarrow> 'q registry" where
  "write_exec Q (WAdd subj n) reg = snd (Registry_add subj (new_channel Q n) reg)"
| "write_exec Q (WRemove i) reg = Registry_remove i reg"
| "write_exec Q (WSubscribe i chs mx) reg = snd (Registry_subscribe i chs mx reg)"
| "write_exec Q (WUnsubscribe i chs) reg = snd (Registry_unsubscribe i chs reg)"

fun write_ok :: "write_op \<Rightarrow> 'q registry \<Rightarrow> bool" where
  "write_ok (WAdd _ n) reg \<longleftrightarrow> 0 < n \<and> n \<le> MAX_PERMITS \<and> next_id reg \<noteq> - 1"
| "write_ok _ reg \<longleftrightarrow> True"

datatype race_event =
    Lock nat call
  | TrySend nat
  | Count nat
  | Mark nat
  | Unlock nat
  | Write write_op
  | TakeFrom connection_id
  | CloseRx connection_id

definition on_conn :: "connection_id \<Rightarrow> ('q connection \<Rightarrow> 'q connection) \<Rightarrow> 'q registry \<Rightarrow> 'q registry" where
  "on_conn i g reg =
     (case map_of (connections reg) i of
        None \<Rightarrow> reg
      | Some c \<Rightarrow> reg\<lparr>connections := AList.update i (g c) (connections reg)\<rparr>)"

definition registered :: "'q registry \<Rightarrow> connection_id \<Rightarrow> bool" where
  "registered reg i \<longleftrightarrow> map_of (connections reg) i \<noteq> None"

definition step_lock :: "nat \<Rightarrow> call \<Rightarrow> 'q race \<Rightarrow> 'q race" where
  "step_lock j c s =
     s\<lparr>threads := (threads s)[j := Looping (call_frame c) (call_ids (reg_of s) c) 0],
       called := called s @ [(j, call_frame c, filter (registered (reg_of s)) (call_ids (reg_of s) c))]\<rparr>"

text \<open>\<^verbatim>\<open>conn.tx.try_send(frame.clone())\<close>, for the next id of the loop that is still there.\<close>

definition step_try ::
    "('q, 'x) mpsc_scheme \<Rightarrow> nat \<Rightarrow> frame \<Rightarrow> connection_id \<Rightarrow> connection_id list \<Rightarrow> nat \<Rightarrow> 'q race \<Rightarrow> 'q race" where
  "step_try Q j f i ids n s =
     (case map_of (connections (reg_of s)) i of
        None \<Rightarrow> s\<lparr>threads := (threads s)[j := Looping f ids n]\<rparr>
      | Some c \<Rightarrow>
          let (r, q) = try_send Q (tx c) f
          in s\<lparr>reg_of := on_conn i (\<lambda>c. c\<lparr>tx := q\<rparr>) (reg_of s),
               threads := (threads s)[j := Tried f i r ids n],
               offers := offers s @ [(j, i, f, r)],
               fulls := (if r = SendFull then (fulls s)(i := fulls s i + 1) else fulls s)\<rparr>)"

text \<open>\<^verbatim>\<open>Metrics::add(&self.metrics.frames_sent, 1)\<close> and \<^verbatim>\<open>Metrics::add(&self.metrics.frames_dropped, 1)\<close>.\<close>

definition bump :: "send_result \<Rightarrow> metrics \<Rightarrow> metrics" where
  "bump r m =
     (case r of
        SendOk \<Rightarrow> m\<lparr>frames_sent := Metrics_add (frames_sent m) 1\<rparr>
      | SendFull \<Rightarrow> m\<lparr>frames_dropped := Metrics_add (frames_dropped m) 1\<rparr>
      | SendClosed \<Rightarrow> m)"

text \<open>\<^verbatim>\<open>conn.dropped.store(0, ..)\<close> and \<^verbatim>\<open>conn.dropped.fetch_add(1, ..)\<close>.\<close>

definition mark :: "send_result \<Rightarrow> 'q connection \<Rightarrow> 'q connection" where
  "mark r c =
     (case r of
        SendOk \<Rightarrow> c\<lparr>dropped := 0\<rparr>
      | SendFull \<Rightarrow> c\<lparr>dropped := dropped c + 1\<rparr>
      | SendClosed \<Rightarrow> c)"

definition step_count :: "nat \<Rightarrow> pc \<Rightarrow> send_result \<Rightarrow> 'q race \<Rightarrow> 'q race" where
  "step_count j p r s =
     s\<lparr>reg_of := (reg_of s)\<lparr>metrics := bump r (metrics (reg_of s))\<rparr>, threads := (threads s)[j := p]\<rparr>"

definition step_mark :: "nat \<Rightarrow> pc \<Rightarrow> connection_id \<Rightarrow> send_result \<Rightarrow> 'q race \<Rightarrow> 'q race" where
  "step_mark j p i r s =
     s\<lparr>reg_of := on_conn i (mark r) (reg_of s), threads := (threads s)[j := p],
       fulls := (if r = SendOk then (fulls s)(i := 0) else fulls s)\<rparr>"

definition step_take :: "('q, 'x) mpsc_scheme \<Rightarrow> connection_id \<Rightarrow> 'q race \<Rightarrow> 'q race option" where
  "step_take Q i s =
     (case map_of (connections (reg_of s)) i of
        None \<Rightarrow> None
      | Some c \<Rightarrow>
          (case (rx_gone (view Q (tx c)), recv Q (tx c)) of
             (False, (Some f, q)) \<Rightarrow>
               Some (s\<lparr>reg_of := on_conn i (\<lambda>c. c\<lparr>tx := q\<rparr>) (reg_of s), taken := taken s @ [(i, f)]\<rparr>)
           | _ \<Rightarrow> None))"

fun race_exec :: "('q, 'x) mpsc_scheme \<Rightarrow> race_event \<Rightarrow> 'q race \<Rightarrow> 'q race option" where
  "race_exec Q (Lock j c) s =
     (if j < length (threads s) \<and> threads s ! j = Outside then Some (step_lock j c s) else None)"
| "race_exec Q (TrySend j) s =
     (if j < length (threads s)
      then case threads s ! j of Looping f (i # ids) n \<Rightarrow> Some (step_try Q j f i ids n s) | _ \<Rightarrow> None
      else None)"
| "race_exec Q (Count j) s =
     (if j < length (threads s)
      then case threads s ! j of Tried f i r ids n \<Rightarrow> Some (step_count j (Tallied f i r ids n) r s) | _ \<Rightarrow> None
      else None)"
| "race_exec Q (Mark j) s =
     (if j < length (threads s)
      then case threads s ! j of
             Tallied f i r ids n \<Rightarrow> Some (step_mark j (Looping f ids (if r = SendOk then n + 1 else n)) i r s)
           | _ \<Rightarrow> None
      else None)"
| "race_exec Q (Unlock j) s =
     (if j < length (threads s)
      then case threads s ! j of Looping f [] n \<Rightarrow> Some (s\<lparr>threads := (threads s)[j := Outside]\<rparr>) | _ \<Rightarrow> None
      else None)"
| "race_exec Q (Write w) s =
     (if (\<forall>p \<in> set (threads s). p = Outside) \<and> write_ok w (reg_of s)
      then Some (s\<lparr>reg_of := write_exec Q w (reg_of s)\<rparr>) else None)"
| "race_exec Q (TakeFrom i) s = step_take Q i s"
| "race_exec Q (CloseRx i) s = Some (s\<lparr>reg_of := on_conn i (\<lambda>c. c\<lparr>tx := drop_rx Q (tx c)\<rparr>) (reg_of s)\<rparr>)"

fun race_run :: "('q, 'x) mpsc_scheme \<Rightarrow> race_event list \<Rightarrow> 'q race \<Rightarrow> 'q race option" where
  "race_run Q [] s = Some s"
| "race_run Q (ev # evs) s = (case race_exec Q ev s of None \<Rightarrow> None | Some s' \<Rightarrow> race_run Q evs s')"

definition race_start :: "nat \<Rightarrow> 'q race" where
  "race_start n = \<lparr>reg_of = Registry_new Metrics_default, threads = replicate n Outside, offers = [], called = [],
     taken = [], fulls = (\<lambda>_. 0)\<rparr>"

section \<open>What is said about a run\<close>

definition offers_by :: "nat \<Rightarrow> 'q race \<Rightarrow> (connection_id \<times> frame) list" where
  "offers_by j s = map (\<lambda>(_, i, f, _). (i, f)) (filter (\<lambda>x. fst x = j) (offers s))"

definition calls_by :: "nat \<Rightarrow> 'q race \<Rightarrow> (frame \<times> connection_id list) list" where
  "calls_by j s = map snd (filter (\<lambda>x. fst x = j) (called s))"

definition targets :: "frame \<times> connection_id list \<Rightarrow> (connection_id \<times> frame) list" where
  "targets c = map (\<lambda>i. (i, fst c)) (snd c)"

text \<open>The frames a connection's queue accepted, each with the thread that sent it.\<close>

definition accepted :: "connection_id \<Rightarrow> 'q race \<Rightarrow> (nat \<times> frame) list" where
  "accepted i s = map (\<lambda>(j, _, f, _). (j, f)) (filter (\<lambda>(_, i', _, r). i' = i \<and> r = SendOk) (offers s))"

definition taken_by :: "connection_id \<Rightarrow> 'q race \<Rightarrow> frame list" where
  "taken_by i s = map snd (filter (\<lambda>x. fst x = i) (taken s))"

definition outcomes :: "send_result \<Rightarrow> 'q race \<Rightarrow> nat" where
  "outcomes r s = length (filter (\<lambda>(_, _, _, r'). r' = r) (offers s))"

text \<open>The failures in a row at the end of a connection's attempts.\<close>

definition row_of_drops :: "connection_id \<Rightarrow> 'q race \<Rightarrow> nat" where
  "row_of_drops i s =
     length (takeWhile (\<lambda>r. r = SendFull)
       (rev (map (\<lambda>(_, _, _, r). r) (filter (\<lambda>(_, i', _, _). i' = i) (offers s)))))"

fun uncounted :: "send_result \<Rightarrow> pc \<Rightarrow> bool" where
  "uncounted r (Tried _ _ r' _ _) = (r' = r)"
| "uncounted r _ = False"

fun unmarked :: "connection_id \<Rightarrow> pc \<Rightarrow> bool" where
  "unmarked i (Tried _ i' r _ _) \<longleftrightarrow> i' = i \<and> r = SendFull"
| "unmarked i (Tallied _ i' r _ _) \<longleftrightarrow> i' = i \<and> r = SendFull"
| "unmarked i _ \<longleftrightarrow> False"

fun ids_left :: "pc \<Rightarrow> (frame \<times> connection_id list) option" where
  "ids_left Outside = None"
| "ids_left (Looping f ids _) = Some (f, ids)"
| "ids_left (Tried f _ _ ids _) = Some (f, ids)"
| "ids_left (Tallied f _ _ ids _) = Some (f, ids)"

definition left :: "'q registry \<Rightarrow> pc \<Rightarrow> (connection_id \<times> frame) list" where
  "left reg p = (case ids_left p of None \<Rightarrow> [] | Some (f, ids) \<Rightarrow> map (\<lambda>i. (i, f)) (filter (registered reg) ids))"

section \<open>Steps\<close>

lemma race_cases:
  assumes "race_exec Q ev s = Some s'"
  obtains
    (Lock) j c where "ev = Lock j c" and "j < length (threads s)" and "threads s ! j = Outside" and "s' = step_lock j c s"
  | (Skip) j f i ids n where "j < length (threads s)" and "threads s ! j = Looping f (i # ids) n"
      and "map_of (connections (reg_of s)) i = None" and "s' = s\<lparr>threads := (threads s)[j := Looping f ids n]\<rparr>"
  | (Try) j f i ids n c r q where "j < length (threads s)" and "threads s ! j = Looping f (i # ids) n"
      and "map_of (connections (reg_of s)) i = Some c" and "try_send Q (tx c) f = (r, q)"
      and "s' = s\<lparr>reg_of := on_conn i (\<lambda>c. c\<lparr>tx := q\<rparr>) (reg_of s), threads := (threads s)[j := Tried f i r ids n],
            offers := offers s @ [(j, i, f, r)],
            fulls := (if r = SendFull then (fulls s)(i := fulls s i + 1) else fulls s)\<rparr>"
  | (Count) j f i r ids n where "j < length (threads s)" and "threads s ! j = Tried f i r ids n"
      and "s' = step_count j (Tallied f i r ids n) r s"
  | (Mark) j f i r ids n m where "j < length (threads s)" and "threads s ! j = Tallied f i r ids n"
      and "s' = step_mark j (Looping f ids m) i r s"
  | (Unlock) j f n where "j < length (threads s)" and "threads s ! j = Looping f [] n"
      and "s' = s\<lparr>threads := (threads s)[j := Outside]\<rparr>"
  | (Write) w where "ev = Write w" and "\<forall>p \<in> set (threads s). p = Outside" and "write_ok w (reg_of s)"
      and "s' = s\<lparr>reg_of := write_exec Q w (reg_of s)\<rparr>"
  | (Take) i c f q where "map_of (connections (reg_of s)) i = Some c" and "\<not> rx_gone (view Q (tx c))"
      and "recv Q (tx c) = (Some f, q)"
      and "s' = s\<lparr>reg_of := on_conn i (\<lambda>c. c\<lparr>tx := q\<rparr>) (reg_of s), taken := taken s @ [(i, f)]\<rparr>"
  | (Close) i where "s' = s\<lparr>reg_of := on_conn i (\<lambda>c. c\<lparr>tx := drop_rx Q (tx c)\<rparr>) (reg_of s)\<rparr>"
  using assms
proof (cases ev)
  case (TrySend j)
  with assms obtain f i ids n where j: "j < length (threads s)" "threads s ! j = Looping f (i # ids) n"
      "s' = step_try Q j f i ids n s"
    by (auto split: if_splits pc.splits list.splits)
  then show thesis
    using that(2) [OF j(1,2)] that(3) [OF j(1,2)]
    by (cases "map_of (connections (reg_of s)) i"; cases "try_send Q (tx (the (map_of (connections (reg_of s)) i))) f")
      (auto simp: step_try_def)
next
  case (TakeFrom i)
  with assms show thesis
    using that(8) by (auto simp: step_take_def split: option.splits bool.splits prod.splits)
qed (use that in \<open>auto split: if_splits pc.splits list.splits\<close>)

lemma race_induct [consumes 1, case_names Start Step]:
  assumes "race_run Q evs s = Some s'" and "P s"
    and "\<And>s ev s'. P s \<Longrightarrow> race_exec Q ev s = Some s' \<Longrightarrow> P s'"
  shows "P s'"
  using assms(1,2)
proof (induction evs arbitrary: s)
  case (Cons ev evs)
  then show ?case using assms(3) by (auto split: option.splits)
qed simp

section \<open>The lock keeps the routing\<close>

lemma on_conn_map_of:
  "map_of (connections (on_conn i g reg)) k =
     (if k = i then map_option g (map_of (connections reg) k) else map_of (connections reg) k)"
  by (auto simp: on_conn_def hash_simps split: option.splits)

lemma on_conn_fields [simp]: "metrics (on_conn i g reg) = metrics reg" "next_id (on_conn i g reg) = next_id reg"
  by (simp_all add: on_conn_def split: option.splits)

lemma routing_on_conn:
  assumes "\<And>c. conn_subject (g c) = conn_subject c \<and> subscriptions (g c) = subscriptions c"
  shows "routing (on_conn i g reg) = routing reg"
proof (cases "map_of (connections reg) i")
  case (Some c)
  then show ?thesis
    using map_of_SomeD_key [OF Some] assms by (auto simp: on_conn_def routing_def hash_simps)
qed (simp add: on_conn_def)

lemma routing_bump: "routing (reg\<lparr>metrics := bump r (metrics reg)\<rparr>) = routing reg"
  by (simp add: routing_def bump_def split: send_result.splits)

lemma mark_fields [simp]: "conn_subject (mark r c) = conn_subject c" "subscriptions (mark r c) = subscriptions c"
  "tx (mark r c) = tx c"
  by (simp_all add: mark_def split: send_result.splits)

lemma reader_keeps_routing:
  assumes "race_exec Q ev s = Some s'" and "\<forall>w. ev \<noteq> Write w"
  shows "routing (reg_of s') = routing (reg_of s)"
  using assms(1)
  by (cases rule: race_cases)
    (use assms(2) in \<open>auto simp: step_lock_def step_count_def step_mark_def routing_bump intro!: routing_on_conn\<close>)

lemma write_inv: "registry_inv reg \<Longrightarrow> write_ok w reg \<Longrightarrow> registry_inv (write_exec Q w reg)"
  by (cases w)
    (auto simp: store.inv_remove store.inv_subscribe store.inv_unsubscribe split_beta
      intro: registry_inv_add [OF _ _ prod.collapse [symmetric]])

lemma race_registry_inv:
  assumes "race_exec Q ev s = Some s'" and "registry_inv (reg_of s)"
  shows "registry_inv (reg_of s')"
proof (cases "\<exists>w. ev = Write w")
  case True
  then show ?thesis using assms write_inv by (auto split: if_splits)
next
  case False
  then show ?thesis using registry_inv_routing [OF reader_keeps_routing [OF assms(1), symmetric]] assms(2) by blast
qed

lemma registered_routing: "routing reg' = routing reg \<Longrightarrow> registered reg' = registered reg"
proof
  fix i assume "routing reg' = routing reg"
  then have "map_option (\<lambda>c. (conn_subject c, subscriptions c)) (map_of (connections reg') i) =
      map_option (\<lambda>c. (conn_subject c, subscriptions c)) (map_of (connections reg) i)"
    by (auto simp: routing_def dest: fun_cong [of _ _ i])
  then show "registered reg' i = registered reg i"
    by (cases "map_of (connections reg') i"; cases "map_of (connections reg) i") (simp_all add: registered_def)
qed

lemma left_routing: "routing reg' = routing reg \<Longrightarrow> left reg' p = left reg p"
  by (drule registered_routing) (simp add: left_def split: option.splits)

section \<open>Every call offers its frame once to each of its targets\<close>

definition calls_ok :: "'q race \<Rightarrow> bool" where
  "calls_ok s \<longleftrightarrow> (\<forall>j < length (threads s).
     offers_by j s @ left (reg_of s) (threads s ! j) = concat (map targets (calls_by j s)))"

lemma left_simps [simp]:
  "left reg Outside = []"
  "left reg (Looping f [] n) = []"
  "left reg (Looping f (i # ids) n) = (if registered reg i then [(i, f)] else []) @ left reg (Looping f ids n)"
  "left reg (Tried f i r ids n) = left reg (Looping f ids n)"
  "left reg (Tallied f i r ids n) = left reg (Looping f ids n)"
  "left reg (Looping f ids (Suc n)) = left reg (Looping f ids n)"
  by (simp_all add: left_def)

lemma left_count: "left reg (Looping f ids n) = left reg (Looping f ids m)"
  by (simp add: left_def)

lemma left_lock: "left reg (Looping f ids n) = targets (f, filter (registered reg) ids)"
  by (simp add: left_def targets_def)

lemma calls_ok_reader:
  assumes "routing (reg_of s') = routing (reg_of s)" and "length (threads s') = length (threads s)"
    and "\<And>k. k < length (threads s) \<Longrightarrow>
      offers_by k s' @ left (reg_of s) (threads s' ! k) = concat (map targets (calls_by k s'))"
  shows "calls_ok s'"
  using assms left_routing [OF assms(1)] by (simp add: calls_ok_def)

lemma calls_ok_step:
  assumes "calls_ok s" and "race_exec Q ev s = Some s'"
  shows "calls_ok s'"
proof (cases "\<exists>w. ev = Write w")
  case True
  then obtain w where "ev = Write w" ..
  with assms(2) have "\<forall>p \<in> set (threads s). p = Outside" and s': "threads s' = threads s" "offers s' = offers s" "called s' = called s"
    by (auto split: if_splits)
  then have "left reg (threads s ! j) = []" if "j < length (threads s)" for reg :: "'a registry" and j
    using nth_mem [OF that] by fastforce
  with s' assms(1) show ?thesis by (simp add: calls_ok_def offers_by_def calls_by_def)
next
  case False
  then have r: "routing (reg_of s') = routing (reg_of s)" using reader_keeps_routing [OF assms(2)] by blast
  have at: "offers_by j s @ left (reg_of s) (threads s ! j) = concat (map targets (calls_by j s))"
    if "j < length (threads s)" for j using assms(1) that by (simp add: calls_ok_def)
  note logs = offers_by_def calls_by_def nth_list_update
  from assms(2) show ?thesis
  proof (cases rule: race_cases)
    case (Lock j c)
    show ?thesis by (rule calls_ok_reader [OF r]) (use Lock at [of j] at in \<open>auto simp: step_lock_def logs left_lock\<close>)
  next
    case (Skip j f i ids n)
    show ?thesis by (rule calls_ok_reader [OF r]) (use Skip at [of j] at in \<open>auto simp: logs registered_def\<close>)
  next
    case (Try j f i ids n c q)
    show ?thesis by (rule calls_ok_reader [OF r]) (use Try at [of j] at in \<open>auto simp: logs registered_def\<close>)
  next
    case (Count j f i res ids n)
    show ?thesis by (rule calls_ok_reader [OF r]) (use Count at [of j] at in \<open>auto simp: logs step_count_def\<close>)
  next
    case (Mark j f i res ids n m)
    show ?thesis
      by (rule calls_ok_reader [OF r]) (use Mark at [of j] at left_count [of "reg_of s" f ids m n] in \<open>auto simp: logs step_mark_def\<close>)
  next
    case (Unlock j f n)
    show ?thesis by (rule calls_ok_reader [OF r]) (use Unlock at [of j] at in \<open>auto simp: logs\<close>)
  next
    case (Take i c f q)
    show ?thesis by (rule calls_ok_reader [OF r]) (use Take at in \<open>auto simp: logs\<close>)
  next
    case (Close i)
    show ?thesis by (rule calls_ok_reader [OF r]) (use Close at in \<open>auto simp: logs\<close>)
  qed (use False in blast)
qed

lemma calls_ok_start: "calls_ok (race_start n)"
  by (simp add: calls_ok_def race_start_def offers_by_def calls_by_def)

section \<open>Every queue holds what it accepted\<close>

definition queues_ok :: "('q, 'x) mpsc_scheme \<Rightarrow> 'q race \<Rightarrow> bool" where
  "queues_ok Q s \<longleftrightarrow>
     registry_inv (reg_of s) \<and>
     (\<forall>i c. map_of (connections (reg_of s)) i = Some c \<longrightarrow> \<not> rx_gone (view Q (tx c)) \<longrightarrow>
        map snd (accepted i s) = taken_by i s @ buffered (view Q (tx c))) \<and>
     (\<forall>i. prefix (taken_by i s) (map snd (accepted i s))) \<and>
     (\<forall>n. next_id (reg_of s) \<le> n \<longrightarrow> accepted (ConnectionId n) s = [] \<and> taken_by (ConnectionId n) s = [])"

lemma write_map_of:
  assumes "map_of (connections (write_exec Q w reg)) i = Some c'"
  obtains c where "map_of (connections reg) i = Some c" and "tx c' = tx c" and "dropped c' = dropped c"
  | subj n where "w = WAdd subj n" and "i = ConnectionId (next_id reg)" and "tx c' = new_channel Q n" and "dropped c' = 0"
proof (cases w)
  case (WAdd subj n)
  then show thesis
    using assms that by (auto simp: Registry_add_def Let_def hash_simps split: if_splits)
next
  case (WRemove k)
  then show thesis
    using assms that(1) by (auto simp: Registry_remove_def hash_simps split: option.splits if_splits)
next
  case (WSubscribe k chs mx)
  then show thesis
    using assms that(1) by (auto simp: Registry_subscribe_def hash_simps split: option.splits prod.splits if_splits)
next
  case (WUnsubscribe k chs)
  then show thesis
    using assms that(1) by (auto simp: Registry_unsubscribe_def hash_simps split: option.splits prod.splits if_splits)
qed

lemma write_next_id:
  assumes "write_ok w reg"
  shows "next_id reg \<le> next_id (write_exec Q w reg)" and "w = WAdd subj n \<Longrightarrow> next_id reg < next_id (write_exec Q w reg)"
proof -
  have "next_id reg < next_id reg + 1" if "next_id reg \<noteq> - 1"
    using that by (metis inc_less_eq_self_iff_eq linorder_not_le)
  then show "next_id reg \<le> next_id (write_exec Q w reg)" "w = WAdd subj n \<Longrightarrow> next_id reg < next_id (write_exec Q w reg)"
    using assms
    by (cases w; auto simp: Registry_add_def Registry_remove_def Registry_subscribe_def Registry_unsubscribe_def Let_def
        split: option.splits prod.splits intro: less_imp_le)+
qed

lemma known_id:
  assumes "queues_ok Q s" and "map_of (connections (reg_of s)) i = Some c" and "next_id (reg_of s) \<le> n"
  shows "i \<noteq> ConnectionId n"
proof -
  have "\<forall>m. ConnectionId m \<in> fst ` set (connections (reg_of s)) \<longrightarrow> m < next_id (reg_of s)"
    using assms(1) by (simp add: queues_ok_def registry_inv_def ids_issued_def)
  then show ?thesis using map_of_SomeD_key [OF assms(2)] assms(3) by (metis linorder_not_le)
qed

lemma queues_ok_write:
  assumes Q: "mpsc_ok Q" and ok: "queues_ok Q s" and w: "write_ok w (reg_of s)"
  shows "queues_ok Q (s\<lparr>reg_of := write_exec Q w (reg_of s)\<rparr>)"
proof -
  let ?r = "write_exec Q w (reg_of s)" and ?s = "s\<lparr>reg_of := write_exec Q w (reg_of s)\<rparr>"
  have logs: "accepted i ?s = accepted i s" "taken_by i ?s = taken_by i s" for i by (simp_all add: accepted_def taken_by_def)
  have "map snd (accepted i s) = taken_by i s @ buffered (view Q (tx c))"
    if c: "map_of (connections ?r) i = Some c" and open_rx: "\<not> rx_gone (view Q (tx c))" for i c
  proof (cases rule: write_map_of [OF c])
    case (1 c0)
    then show ?thesis using ok open_rx by (simp add: queues_ok_def)
  next
    case (2 subj n)
    then have "0 < n" "n \<le> MAX_PERMITS" using w by simp_all
    moreover have "accepted i s = []" "taken_by i s = []" using ok 2(2) by (simp_all add: queues_ok_def)
    ultimately show ?thesis by (simp add: 2(3) mpsc_new [OF Q])
  qed
  moreover have "registry_inv ?r" using ok w write_inv by (auto simp: queues_ok_def)
  moreover have "accepted (ConnectionId n) s = [] \<and> taken_by (ConnectionId n) s = []" if "next_id ?r \<le> n" for n
    using ok write_next_id(1) [OF w, of Q] that by (auto simp: queues_ok_def)
  ultimately show ?thesis using ok by (simp add: queues_ok_def logs)
qed

text \<open>A step that changes no connection's queue and neither log.\<close>

lemma queues_ok_same:
  assumes ok: "queues_ok Q s" and "offers s' = offers s" and "taken s' = taken s" and r: "routing (reg_of s') = routing (reg_of s)"
    and conn: "\<And>i c'. map_of (connections (reg_of s')) i = Some c' \<Longrightarrow>
      \<exists>c. map_of (connections (reg_of s)) i = Some c \<and> (rx_gone (view Q (tx c')) \<or> tx c' = tx c)"
  shows "queues_ok Q s'"
proof -
  have logs: "accepted i s' = accepted i s" "taken_by i s' = taken_by i s" for i
    using assms(2,3) by (simp_all add: accepted_def taken_by_def)
  have "map snd (accepted i s) = taken_by i s @ buffered (view Q (tx c'))"
    if "map_of (connections (reg_of s')) i = Some c'" "\<not> rx_gone (view Q (tx c'))" for i c'
    using conn [OF that(1)] that(2) ok by (auto simp: queues_ok_def)
  moreover have "registry_inv (reg_of s')"
    using registry_inv_routing [OF r [symmetric]] ok by (simp add: queues_ok_def)
  moreover have "next_id (reg_of s') = next_id (reg_of s)" using r by (simp add: routing_def)
  ultimately show ?thesis using ok by (simp add: queues_ok_def logs)
qed

lemma queues_ok_try:
  assumes Q: "mpsc_ok Q" and ok: "queues_ok Q s" and c: "map_of (connections (reg_of s)) i = Some c"
    and r: "try_send Q (tx c) f = (r, q)"
    and s': "reg_of s' = on_conn i (\<lambda>c. c\<lparr>tx := q\<rparr>) (reg_of s)" "offers s' = offers s @ [(j, i, f, r)]" "taken s' = taken s"
  shows "queues_ok Q s'"
proof -
  have acc: "accepted k s' = accepted k s @ (if k = i \<and> r = SendOk then [(j, f)] else [])"
    and tak: "taken_by k s' = taken_by k s" for k
    using s' by (auto simp: accepted_def taken_by_def)
  have q: "view Q q = (if r = SendOk then (view Q (tx c))\<lparr>buffered := buffered (view Q (tx c)) @ [f]\<rparr> else view Q (tx c))"
    using mpsc_try_send_view [OF Q, of "tx c" f] r by simp
  have routing: "routing (reg_of s') = routing (reg_of s)" unfolding s'(1) by (rule routing_on_conn) simp
  have "map snd (accepted k s') = taken_by k s' @ buffered (view Q (tx c'))"
    if "map_of (connections (reg_of s')) k = Some c'" "\<not> rx_gone (view Q (tx c'))" for k c'
    using that ok c by (auto simp: s'(1) on_conn_map_of acc tak q queues_ok_def split: if_splits)
  moreover have "registry_inv (reg_of s')"
    using registry_inv_routing [OF routing [symmetric]] ok by (simp add: queues_ok_def)
  moreover have "accepted (ConnectionId n) s' = [] \<and> taken_by (ConnectionId n) s' = []" if "next_id (reg_of s') \<le> n" for n
    using ok that known_id [OF ok c, of n] by (auto simp: acc tak s'(1) queues_ok_def)
  moreover have "prefix (taken_by k s') (map snd (accepted k s'))" for k
    using ok by (simp add: acc tak queues_ok_def prefix_def) (metis append.assoc)
  ultimately show ?thesis by (simp add: queues_ok_def)
qed

lemma queues_ok_take:
  assumes Q: "mpsc_ok Q" and ok: "queues_ok Q s" and c: "map_of (connections (reg_of s)) i = Some c"
    and open_rx: "\<not> rx_gone (view Q (tx c))" and f: "recv Q (tx c) = (Some f, q)"
  shows "queues_ok Q (s\<lparr>reg_of := on_conn i (\<lambda>c. c\<lparr>tx := q\<rparr>) (reg_of s), taken := taken s @ [(i, f)]\<rparr>)" (is "queues_ok Q ?s")
proof -
  have acc: "accepted k ?s = accepted k s" and tak: "taken_by k ?s = taken_by k s @ (if k = i then [f] else [])" for k
    by (auto simp: accepted_def taken_by_def)
  have q: "buffered (view Q (tx c)) = f # buffered (view Q q)" "rx_gone (view Q q) = rx_gone (view Q (tx c))"
    using mpsc_recv [OF Q, of "tx c"] f by (auto simp: chan_recv_def split: list.splits)
  have i: "map snd (accepted i s) = taken_by i s @ f # buffered (view Q q)"
    using ok c open_rx q(1) by (simp add: queues_ok_def)
  have routing: "routing (reg_of ?s) = routing (reg_of s)" by (simp add: routing_on_conn)
  have "map snd (accepted k ?s) = taken_by k ?s @ buffered (view Q (tx c'))"
    if "map_of (connections (reg_of ?s)) k = Some c'" "\<not> rx_gone (view Q (tx c'))" for k c'
    using that ok c i q(2) open_rx by (auto simp: on_conn_map_of acc tak queues_ok_def split: if_splits)
  moreover have "registry_inv (reg_of ?s)"
    using registry_inv_routing [OF routing [symmetric]] ok by (simp add: queues_ok_def)
  moreover have "accepted (ConnectionId n) ?s = [] \<and> taken_by (ConnectionId n) ?s = []" if "next_id (reg_of ?s) \<le> n" for n
    using ok that known_id [OF ok c, of n] by (auto simp: acc tak queues_ok_def)
  moreover have "prefix (taken_by k ?s) (map snd (accepted k ?s))" for k
    using ok i by (auto simp: acc tak queues_ok_def prefix_def)
  ultimately show ?thesis by (simp add: queues_ok_def)
qed

lemma queues_ok_step:
  assumes Q: "mpsc_ok Q" and ok: "queues_ok Q s" and step: "race_exec Q ev s = Some s'"
  shows "queues_ok Q s'"
  using step
proof (cases rule: race_cases)
  case (Write w)
  then show ?thesis using queues_ok_write [OF Q ok] by simp
next
  case (Try j f i ids n c r q)
  show ?thesis by (rule queues_ok_try [OF Q ok Try(3,4)]) (simp_all add: Try(5))
next
  case (Take i c f q)
  then show ?thesis using queues_ok_take [OF Q ok] by simp
next
  case (Close i)
  then show ?thesis
    by (intro queues_ok_same [OF ok]) (auto simp: on_conn_map_of mpsc_drop_rx [OF Q] routing_on_conn split: if_splits)
qed (rule queues_ok_same [OF ok];
    auto simp: step_lock_def step_count_def step_mark_def on_conn_map_of routing_bump routing_on_conn split: if_splits)+

lemma queues_ok_start: "queues_ok Q (race_start n)"
  using registry_inv_new [of Metrics_default]
  by (auto simp: queues_ok_def race_start_def accepted_def taken_by_def Registry_new_def Metrics_default_def)

section \<open>The counters\<close>

definition counters_ok :: "'q race \<Rightarrow> bool" where
  "counters_ok s \<longleftrightarrow>
     frames_sent (metrics (reg_of s)) + of_nat (length (filter (uncounted SendOk) (threads s))) = of_nat (outcomes SendOk s) \<and>
     frames_dropped (metrics (reg_of s)) + of_nat (length (filter (uncounted SendFull) (threads s))) =
       of_nat (outcomes SendFull s)"

lemma count_after_update:
  "j < length xs \<Longrightarrow>
     length (filter P (xs[j := x])) + (if P (xs ! j) then 1 else 0) = length (filter P xs) + (if P x then 1 else 0)"
proof (induction xs arbitrary: j)
  case (Cons a xs)
  show ?case
  proof (cases j)
    case (Suc j')
    with Cons.prems Cons.IH [of j'] show ?thesis by (auto split: if_splits)
  qed simp
qed simp

lemma length_filter_same:
  "j < length xs \<Longrightarrow> P x = P (xs ! j) \<Longrightarrow> length (filter P (xs[j := x])) = length (filter P xs)"
  using count_after_update [of j xs P x] by (simp split: if_splits)

lemma write_metrics:
  "frames_sent (metrics (write_exec Q w reg)) = frames_sent (metrics reg)"
  "frames_dropped (metrics (write_exec Q w reg)) = frames_dropped (metrics reg)"
  by (cases w; auto simp: Registry_add_def Registry_remove_def Registry_subscribe_def Registry_unsubscribe_def Let_def
      split: option.splits prod.splits)+

lemma counters_ok_same:
  assumes "counters_ok s" and "offers s' = offers s"
    and "frames_sent (metrics (reg_of s')) = frames_sent (metrics (reg_of s))"
    and "frames_dropped (metrics (reg_of s')) = frames_dropped (metrics (reg_of s))"
    and "threads s' = threads s \<or>
      (\<exists>j p. j < length (threads s) \<and> threads s' = (threads s)[j := p] \<and> (\<forall>r. uncounted r p = uncounted r (threads s ! j)))"
  shows "counters_ok s'"
proof -
  have "length (filter (uncounted r) (threads s')) = length (filter (uncounted r) (threads s))" for r
    using assms(5) length_filter_same by metis
  with assms(1-4) show ?thesis by (simp add: counters_ok_def outcomes_def)
qed

lemma counters_ok_step:
  assumes ok: "counters_ok s" and step: "race_exec Q ev s = Some s'"
  shows "counters_ok s'"
  using step
proof (cases rule: race_cases)
  case (Try j f i ids n c r q)
  have "length (filter (uncounted r') ((threads s)[j := Tried f i r ids n])) =
      length (filter (uncounted r') (threads s)) + (if r' = r then 1 else 0)" for r'
    using count_after_update [OF Try(1), of "uncounted r'" "Tried f i r ids n"] Try(2) by simp
  moreover have "outcomes r' s' = outcomes r' s + (if r' = r then 1 else 0)" for r'
    by (simp add: outcomes_def Try(5))
  ultimately show ?thesis using ok by (cases r) (simp_all add: counters_ok_def Try(5) algebra_simps)
next
  case (Count j f i r ids n)
  have "length (filter (uncounted r') ((threads s)[j := Tallied f i r ids n])) + (if r = r' then 1 else 0) =
      length (filter (uncounted r') (threads s))" for r'
    using count_after_update [OF Count(1), of "uncounted r'" "Tallied f i r ids n"] Count(2) by simp
  note lens = this [of SendOk, symmetric] this [of SendFull, symmetric]
  show ?thesis
    using ok by (cases r) (simp_all add: counters_ok_def Count(3) step_count_def bump_def outcomes_def lens algebra_simps)
next
  case (Write w)
  then show ?thesis by (intro counters_ok_same [OF ok]) (simp_all add: write_metrics)
next
  case (Mark j f i r ids n m)
  then show ?thesis by (intro counters_ok_same [OF ok]) (force simp: step_mark_def)+
qed (rule counters_ok_same [OF ok]; force simp: step_lock_def)+

lemma counters_ok_start: "counters_ok (race_start n)"
  by (simp add: counters_ok_def race_start_def outcomes_def Registry_new_def Metrics_default_def)

section \<open>The streak\<close>

definition streaks_ok :: "'q race \<Rightarrow> bool" where
  "streaks_ok s \<longleftrightarrow> (\<forall>i. unat (Registry_drops i (reg_of s)) + length (filter (unmarked i) (threads s)) \<le>
     fulls s i + (length (threads s) - 1))"

lemma streaks_ok_same:
  assumes "streaks_ok s" and "fulls s' = fulls s" and "\<And>i. Registry_drops i (reg_of s') \<le> Registry_drops i (reg_of s)"
    and "threads s' = threads s \<or>
      (\<exists>j p. j < length (threads s) \<and> threads s' = (threads s)[j := p] \<and> (\<forall>i. unmarked i p = unmarked i (threads s ! j)))"
  shows "streaks_ok s'"
  unfolding streaks_ok_def
proof
  fix i
  have "length (filter (unmarked i) (threads s')) = length (filter (unmarked i) (threads s))"
    using assms(4) length_filter_same by metis
  moreover have "length (threads s') = length (threads s)" using assms(4) by auto
  moreover have "unat (Registry_drops i (reg_of s')) \<le> unat (Registry_drops i (reg_of s))"
    using assms(3) by (simp add: word_le_nat_alt)
  ultimately show "unat (Registry_drops i (reg_of s')) + length (filter (unmarked i) (threads s')) \<le>
      fulls s' i + (length (threads s') - 1)"
    using assms(1,2) by (metis (no_types, lifting) add_le_mono1 order_trans streaks_ok_def)
qed

lemmas drops_simps = Registry_drops_def on_conn_map_of

lemma drops_write: "Registry_drops i (write_exec Q w reg) \<le> Registry_drops i reg"
  by (cases "map_of (connections (write_exec Q w reg)) i") (auto simp: Registry_drops_def elim!: write_map_of)

lemma length_filter_lt: "j < length xs \<Longrightarrow> \<not> P (xs ! j) \<Longrightarrow> length (filter P xs) \<le> length xs - 1"
  using count_after_update [of j xs P "xs ! j"] length_filter_less [of "xs ! j" xs P] nth_mem [of j xs]
  by fastforce

lemma streaks_ok_mark:
  assumes ok: "streaks_ok s" and j: "j < length (threads s)" "threads s ! j = Tallied f i r ids n"
  shows "streaks_ok (step_mark j (Looping f ids m) i r s)"
  unfolding streaks_ok_def
proof
  fix k
  let ?ts = "(threads s)[j := Looping f ids m]" and ?s = "step_mark j (Looping f ids m) i r s"
  have len: "length (filter (unmarked k) ?ts) + (if i = k \<and> r = SendFull then 1 else 0) = length (filter (unmarked k) (threads s))"
    using count_after_update [OF j(1), of "unmarked k" "Looping f ids m"] j(2) by simp
  have few: "length (filter (unmarked k) ?ts) \<le> length (threads s) - 1"
    using length_filter_lt [of j ?ts "unmarked k"] j(1) by simp
  have "unat (Registry_drops k (reg_of ?s)) \<le> unat (Registry_drops k (reg_of s)) + (if i = k \<and> r = SendFull then 1 else 0)"
    by (cases "map_of (connections (reg_of s)) k"; cases r)
      (auto simp: step_mark_def drops_simps mark_def unat_word_ariths intro: mod_less_eq_dividend)
  moreover have "unat (Registry_drops k (reg_of ?s)) = 0" if "i = k" "r = SendOk"
    using that by (simp add: step_mark_def drops_simps mark_def split: option.splits)
  moreover have "unat (Registry_drops k (reg_of s)) + length (filter (unmarked k) (threads s)) \<le>
      fulls s k + (length (threads s) - 1)"
    using ok by (simp add: streaks_ok_def)
  ultimately show "unat (Registry_drops k (reg_of ?s)) + length (filter (unmarked k) (threads ?s)) \<le>
      fulls ?s k + (length (threads ?s) - 1)"
    using len few by (auto simp: step_mark_def split: if_splits)
qed

lemma streaks_ok_step:
  assumes ok: "streaks_ok s" and step: "race_exec Q ev s = Some s'"
  shows "streaks_ok s'"
  using step
proof (cases rule: race_cases)
  case (Try j f i ids n c r q)
  have "length (filter (unmarked k) ((threads s)[j := Tried f i r ids n])) =
      length (filter (unmarked k) (threads s)) + (if i = k \<and> r = SendFull then 1 else 0)" for k
    using count_after_update [OF Try(1), of "unmarked k" "Tried f i r ids n"] Try(2) by simp
  moreover have "Registry_drops k (reg_of s') = Registry_drops k (reg_of s)" for k
    using Try(3) by (simp add: Try(5) drops_simps)
  ultimately show ?thesis using ok by (auto simp: streaks_ok_def Try(5))
next
  case (Mark j f i r ids n m)
  then show ?thesis using streaks_ok_mark [OF ok] by simp
next
  case (Count j f i r ids n)
  then show ?thesis
    by (intro streaks_ok_same [OF ok]) (force simp: step_count_def Registry_drops_def)+
next
  case (Write w)
  then show ?thesis by (intro streaks_ok_same [OF ok]) (simp_all add: drops_write)
next
  case (Close i)
  then show ?thesis
    by (intro streaks_ok_same [OF ok]) (auto simp: drops_simps split: option.splits)
next
  case (Take i c f q)
  then show ?thesis
    by (intro streaks_ok_same [OF ok]) (auto simp: drops_simps split: option.splits)
qed (rule streaks_ok_same [OF ok]; force simp: step_lock_def)+

lemma streaks_ok_start: "streaks_ok (race_start n)"
  by (simp add: streaks_ok_def race_start_def Registry_drops_def Registry_new_def)

section \<open>A call that nobody interrupts\<close>

text \<open>The steps of a loop over registered ids.\<close>

fun solo :: "nat \<Rightarrow> connection_id list \<Rightarrow> race_event list" where
  "solo j [] = []"
| "solo j (i # ids) = TrySend j # Count j # Mark j # solo j ids"

definition delivered_to :: "('q, 'x) mpsc_scheme \<Rightarrow> frame \<Rightarrow> connection_id \<Rightarrow> 'q registry \<Rightarrow> 'q registry" where
  "delivered_to Q f i reg =
     (case map_of (connections reg) i of
        None \<Rightarrow> reg
      | Some c \<Rightarrow> reg\<lparr>connections := AList.update i (after_deliver Q f c) (connections reg),
          metrics := tally Q f c (metrics reg)\<rparr>)"

lemma three_effects:
  assumes c: "map_of (connections reg) i = Some c" and r: "try_send Q (tx c) f = (r, q)"
  shows "on_conn i (mark r) ((on_conn i (\<lambda>c. c\<lparr>tx := q\<rparr>) reg)\<lparr>metrics := bump r (metrics reg)\<rparr>) = delivered_to Q f i reg"
proof -
  have "tally Q f c (metrics reg) = bump r (metrics reg)" by (simp add: tally_def bump_def r)
  moreover have "mark r (c\<lparr>tx := q\<rparr>) = after_deliver Q f c"
    by (simp add: mark_def after_deliver_def r split: send_result.splits)
  ultimately show ?thesis by (simp add: on_conn_def delivered_to_def c hash_simps)
qed

lemma solo_turn:
  assumes "j < length (threads s)" and "threads s ! j = Looping f (i # ids) n" and "map_of (connections (reg_of s)) i = Some c"
  obtains s' where "race_run Q [TrySend j, Count j, Mark j] s = Some s'" and "reg_of s' = delivered_to Q f i (reg_of s)"
    and "threads s' = (threads s)[j := Looping f ids (if delivered Q f c then n + 1 else n)]"
proof -
  obtain r q where r: "try_send Q (tx c) f = (r, q)" by (metis prod.exhaust)
  then have "delivered Q f c \<longleftrightarrow> r = SendOk" by (simp add: delivered_def)
  moreover define s1 where "s1 = step_try Q j f i ids n s"
  moreover define s2 where "s2 = step_count j (Tallied f i r ids n) r s1"
  moreover define s3 where "s3 = step_mark j (Looping f ids (if r = SendOk then n + 1 else n)) i r s2"
  ultimately have s: "threads s1 = (threads s)[j := Tried f i r ids n]" "threads s2 = (threads s)[j := Tallied f i r ids n]"
    "threads s3 = (threads s)[j := Looping f ids (if delivered Q f c then n + 1 else n)]"
    "reg_of s3 = delivered_to Q f i (reg_of s)"
    using assms r three_effects [OF assms(3) r] by (simp_all add: step_try_def step_count_def step_mark_def)
  moreover have "race_run Q [TrySend j, Count j, Mark j] s = Some s3"
    using assms s(1,2) by (simp add: s1_def [symmetric] s2_def [symmetric] s3_def [symmetric])
  ultimately show thesis using that by blast
qed

lemma race_run_append:
  "race_run Q (evs @ evs') s = (case race_run Q evs s of None \<Rightarrow> None | Some s' \<Rightarrow> race_run Q evs' s')"
  by (induction evs arbitrary: s) (auto split: option.splits)

lemma registered_delivered: "registered (delivered_to Q f i reg) = registered reg"
  by (auto simp: registered_def delivered_to_def hash_simps fun_eq_iff split: option.splits)

lemma solo_loop:
  assumes "j < length (threads s)" and "threads s ! j = Looping f ids n" and "\<forall>i \<in> set ids. registered (reg_of s) i"
  shows "\<exists>s'. race_run Q (solo j ids) s = Some s' \<and> reg_of s' = snd (publish_loop Q f ids n (reg_of s)) \<and>
    threads s' = (threads s)[j := Looping f [] (fst (publish_loop Q f ids n (reg_of s)))]"
  using assms
proof (induction ids arbitrary: s n)
  case Nil
  then show ?case by (auto simp: list_update_same_conv [symmetric] simp flip: Nil.prems(2))
next
  case (Cons i ids)
  obtain c where c: "map_of (connections (reg_of s)) i = Some c" using Cons.prems(3) by (auto simp: registered_def)
  obtain s1 where s1: "race_run Q [TrySend j, Count j, Mark j] s = Some s1" "reg_of s1 = delivered_to Q f i (reg_of s)"
    "threads s1 = (threads s)[j := Looping f ids (if delivered Q f c then n + 1 else n)]"
    using solo_turn [OF Cons.prems(1,2) c] by metis
  have "\<forall>i \<in> set ids. registered (reg_of s1) i" using Cons.prems(3) by (simp add: s1(2) registered_delivered)
  then obtain s' where "race_run Q (solo j ids) s1 = Some s'"
    "reg_of s' = snd (publish_loop Q f ids (if delivered Q f c then n + 1 else n) (reg_of s1))"
    "threads s' = (threads s1)[j := Looping f [] (fst (publish_loop Q f ids (if delivered Q f c then n + 1 else n) (reg_of s1)))]"
    using Cons.IH [of s1] Cons.prems(1) s1(3) by auto
  moreover have "race_run Q (solo j (i # ids)) s = race_run Q (solo j ids) s1"
    using race_run_append [of Q "[TrySend j, Count j, Mark j]" "solo j ids" s] s1(1) by (simp del: race_run.simps add: race_run_append)
  ultimately show ?case by (simp add: c s1(2,3) delivered_to_def deliver_eq)
qed

section \<open>Runs\<close>

definition logs_ok :: "nat \<Rightarrow> 'q race \<Rightarrow> bool" where
  "logs_ok n s \<longleftrightarrow> length (threads s) = n \<and> registry_inv (reg_of s) \<and> (\<forall>x \<in> set (offers s). fst x < n) \<and>
     (\<forall>x \<in> set (called s). distinct (snd (snd x)))"

lemma call_ids_distinct: "registry_inv reg \<Longrightarrow> distinct (call_ids reg c)"
  by (cases c) (auto simp: registry_inv_def index_wf_def connections_wf_def split: option.splits)

lemma logs_ok_step:
  assumes ok: "logs_ok n s" and step: "race_exec Q ev s = Some s'"
  shows "logs_ok n s'"
proof -
  have inv: "registry_inv (reg_of s')" using race_registry_inv [OF step] ok by (simp add: logs_ok_def)
  from step show ?thesis
    by (cases rule: race_cases)
      (use ok inv call_ids_distinct in \<open>auto simp: logs_ok_def step_lock_def step_count_def step_mark_def
        intro!: distinct_filter\<close>)
qed

lemma logs_ok_start: "logs_ok n (race_start n)"
  using registry_inv_new [of Metrics_default] by (simp add: logs_ok_def race_start_def Metrics_default_def)

definition race_ok :: "('q, 'x) mpsc_scheme \<Rightarrow> nat \<Rightarrow> 'q race \<Rightarrow> bool" where
  "race_ok Q n s \<longleftrightarrow> logs_ok n s \<and> calls_ok s \<and> queues_ok Q s \<and> counters_ok s \<and> streaks_ok s"

lemma race_run_ok:
  assumes Q: "mpsc_ok Q" and run: "race_run Q evs (race_start n) = Some s"
  shows "race_ok Q n s"
  using run
proof (induction rule: race_induct)
  case Start
  show ?case
    by (simp add: race_ok_def logs_ok_start calls_ok_start queues_ok_start counters_ok_start streaks_ok_start)
next
  case (Step s ev s')
  then show ?case
    using logs_ok_step calls_ok_step queues_ok_step [OF Q] counters_ok_step streaks_ok_step unfolding race_ok_def by blast
qed

lemma publish_targets:
  assumes inv: "registry_inv reg"
  shows "distinct (filter (registered reg) (call_ids reg (CallPublish ch f)))"
    and "set (filter (registered reg) (call_ids reg (CallPublish ch f))) = {i. ch \<in> subs_of reg i}"
proof -
  show "distinct (filter (registered reg) (call_ids reg (CallPublish ch f)))"
    by (intro distinct_filter call_ids_distinct [OF inv])
  have "set (call_ids reg (CallPublish ch f)) = indexed (by_channel reg) ch"
    by (simp add: indexed_def split: option.splits)
  then show "set (filter (registered reg) (call_ids reg (CallPublish ch f))) = {i. ch \<in> subs_of reg i}"
    using registry_inv_indexed [OF inv] by (auto simp: registered_def subs_of_def split: option.splits)
qed

text \<open>To one connection, a call offers its frame at most once.\<close>

lemma filter_eq_one: "distinct xs \<Longrightarrow> filter (\<lambda>k. k = i) xs = (if i \<in> set xs then [i] else [])"
  by (induction xs) (auto simp: filter_empty_conv)

lemma targets_of:
  assumes "\<forall>c \<in> set cs. distinct (snd c)"
  shows "subseq (map snd (filter (\<lambda>x. fst x = i) (concat (map targets cs)))) (map fst cs)"
  using assms
proof (induction cs)
  case (Cons c cs)
  have "filter (\<lambda>x. fst x = i) (targets c) = (if i \<in> set (snd c) then [(i, fst c)] else [])"
  proof -
    have "filter (\<lambda>x. fst x = i) (targets c) = map (\<lambda>k. (k, fst c)) (filter (\<lambda>k. k = i) (snd c))"
      by (simp add: targets_def filter_map o_def)
    moreover have "filter (\<lambda>k. k = i) (snd c) = (if i \<in> set (snd c) then [i] else [])"
      using Cons.prems by (simp add: filter_eq_one)
    ultimately show ?thesis by simp
  qed
  with Cons show ?case by (auto intro: list_emb_Cons)
qed simp

lemma accepted_are_offers:
  "subseq (map snd (filter (\<lambda>x. fst x = j) (accepted i s))) (map snd (filter (\<lambda>x. fst x = i) (offers_by j s)))"
proof -
  have "subseq (map snd (filter (\<lambda>x. fst x = j) (map (\<lambda>(j, _, f, _). (j, f)) (filter (\<lambda>(_, i', _, r). i' = i \<and> r = SendOk) xs))))
      (map snd (filter (\<lambda>x. fst x = i) (map (\<lambda>(_, i, f, _). (i, f)) (filter (\<lambda>x. fst x = j) xs))))"
    for xs :: "(nat \<times> connection_id \<times> frame \<times> send_result) list"
    by (induction xs) (auto intro: list_emb_Cons)
  then show ?thesis by (simp add: accepted_def offers_by_def)
qed

lemma accepted_order:
  assumes ok: "race_ok Q n s" and j: "j < n"
  shows "subseq (map snd (filter (\<lambda>x. fst x = j) (accepted i s))) (map fst (calls_by j s))"
proof -
  have "subseq (map snd (filter (\<lambda>x. fst x = j) (accepted i s))) (map snd (filter (\<lambda>x. fst x = i) (offers_by j s)))"
    by (rule accepted_are_offers)
  also have "prefix (offers_by j s) (concat (map targets (calls_by j s)))"
    using ok j unfolding race_ok_def logs_ok_def calls_ok_def prefix_def by metis
  then have "subseq (map snd (filter (\<lambda>x. fst x = i) (offers_by j s)))
      (map snd (filter (\<lambda>x. fst x = i) (concat (map targets (calls_by j s)))))"
    by (intro subseq_map subseq_filter prefix_imp_subseq)
  also have "subseq \<dots> (map fst (calls_by j s))"
    using ok by (intro targets_of) (auto simp: race_ok_def logs_ok_def calls_by_def)
  finally show ?thesis .
qed

section \<open>A concrete race\<close>

text \<open>
  Two threads publish to one subscriber with a queue of one frame. The first finds the queue full;
  before it has marked that, the subscriber takes its frame, the second thread delivers one and finds the
  queue full with the next.
\<close>

definition race_setup :: "race_event list" where
  "race_setup = [Write (WAdd ''a'' 1), Write (WSubscribe (ConnectionId 1) [''t''] 10)]"

definition whole_call :: "nat \<Rightarrow> string \<Rightarrow> race_event list" where
  "whole_call j p = [Lock j (CallPublish ''t'' (Frame p)), TrySend j, Count j, Mark j, Unlock j]"

definition racing :: "race_event list" where
  "racing = race_setup @ whole_call 0 ''1'' @ [Lock 0 (CallPublish ''t'' (Frame ''2'')), TrySend 0, Count 0]
     @ [TakeFrom (ConnectionId 1)] @ whole_call 1 ''3'' @ whole_call 1 ''4'' @ [Mark 0, Unlock 0]"

definition race_state :: "race_event list \<Rightarrow> chan race" where
  "race_state evs = (case race_run ref_mpsc evs (race_start 2) of None \<Rightarrow> race_start 2 | Some s \<Rightarrow> s)"

lemma one_place: "Suc 0 \<le> MAX_PERMITS"
  by (simp add: MAX_PERMITS_def)

lemmas race_eval = race_state_def racing_def race_setup_def whole_call_def race_start_def step_lock_def step_try_def
  step_count_def step_mark_def step_take_def on_conn_def bump_def mark_def one_place ref_mpsc_def chan_try_send_def chan_recv_def
  Registry_add_def Registry_subscribe_def Registry_new_def Metrics_default_def index_insert_def List.insert_def Let_def
  registered_def

lemma racing_runs: "\<exists>s. race_run ref_mpsc racing (race_start 2) = Some s"
  by (simp add: race_eval)

lemma race_state_run: "race_run ref_mpsc racing (race_start 2) = Some (race_state racing)"
  using racing_runs by (auto simp: race_state_def)

lemma racing_end:
  "threads (race_state racing) = [Outside, Outside]"
  "taken_by (ConnectionId 1) (race_state racing) = [Frame ''1'']"
  "calls_by 0 (race_state racing) = [(Frame ''1'', [ConnectionId 1]), (Frame ''2'', [ConnectionId 1])]"
  "map (\<lambda>(_, _, _, r). r) (offers (race_state racing)) = [SendOk, SendFull, SendOk, SendFull]"
  "Registry_drops (ConnectionId 1) (reg_of (race_state racing)) = 2"
  "row_of_drops (ConnectionId 1) (race_state racing) = 1"
  "outcomes SendOk (race_state racing) = 2"
  by (simp_all add: race_eval taken_by_def calls_by_def Registry_drops_def row_of_drops_def outcomes_def numeral_2_eq_2)

section \<open>Properties\<close>

text \<open>
  C15: Concurrent publishers do not lose or repeat deliveries. Under every interleaving of threads in
  the middle of \<open>publish\<close>, \<open>broadcast\<close> and \<open>send\<close>, of changes of the registry and of receivers: once a
  thread is out of its calls, it has offered the frame of each call exactly once to each target of
  the call, call after call. And the targets of a publication are exactly the subscribers at the moment the
  lock is taken, each once.
\<close>

theorem racing_calls_reach_their_targets:
  assumes "mpsc_ok Q" and run: "race_run Q evs (race_start n) = Some s" and "j < n" and "threads s ! j = Outside"
  shows "offers_by j s = concat (map targets (calls_by j s)) \<and>
    (\<forall>ch f s1. race_exec Q (Lock j (CallPublish ch f)) s = Some s1 \<longrightarrow>
       (\<exists>ids. calls_by j s1 = calls_by j s @ [(f, ids)] \<and> distinct ids \<and> set ids = {i. ch \<in> subs_of (reg_of s) i}))"
proof (intro conjI allI impI)
  have ok: "race_ok Q n s" by (rule race_run_ok [OF assms(1,2)])
  then show "offers_by j s = concat (map targets (calls_by j s))"
    using assms(3,4) by (auto simp: race_ok_def logs_ok_def calls_ok_def)
  fix ch f s1 assume "race_exec Q (Lock j (CallPublish ch f)) s = Some s1"
  then have "calls_by j s1 = calls_by j s @ [(f, filter (registered (reg_of s)) (call_ids (reg_of s) (CallPublish ch f)))]"
    by (auto simp: step_lock_def calls_by_def simp del: call_ids.simps split: if_splits)
  moreover have "registry_inv (reg_of s)" using ok by (simp add: race_ok_def logs_ok_def)
  ultimately show "\<exists>ids. calls_by j s1 = calls_by j s @ [(f, ids)] \<and> distinct ids \<and> set ids = {i. ch \<in> subs_of (reg_of s) i}"
    using publish_targets by blast
qed

theorem racing_calls_reach_their_targets_witness:
  "offers_by 0 (race_state racing) = [(ConnectionId 1, Frame ''1''), (ConnectionId 1, Frame ''2'')]"
proof -
  have "threads (race_state racing) ! 0 = Outside" by (simp add: racing_end(1))
  from racing_calls_reach_their_targets [OF ref_mpsc_ok race_state_run _ this] racing_end(3) show ?thesis
    by (simp add: targets_def)
qed

text \<open>
  C7: Frames of one publisher stay in order, whoever else publishes. Under every interleaving, what a
  connection has received is an interleaving of frames attributed to the publishing threads, and the frames attributed to
  each thread are a subsequence of the frames of its calls: none made up, repeated or overtaken by a
  later one of the same thread.
\<close>

theorem racing_publishers_keep_their_order:
  assumes "mpsc_ok Q" and run: "race_run Q evs (race_start n) = Some s"
  shows "\<exists>tagged. map snd tagged = taken_by i s \<and> fst ` set tagged \<subseteq> {..<n} \<and>
    (\<forall>j < n. subseq (map snd (filter (\<lambda>x. fst x = j) tagged)) (map fst (calls_by j s)))"
proof (intro exI [of _ "take (length (taken_by i s)) (accepted i s)"] conjI allI impI)
  let ?tagged = "take (length (taken_by i s)) (accepted i s)"
  have ok: "race_ok Q n s" by (rule race_run_ok [OF assms])
  then have "prefix (taken_by i s) (map snd (accepted i s))" by (simp add: race_ok_def queues_ok_def)
  then show "map snd ?tagged = taken_by i s" by (auto simp: prefix_def simp flip: take_map)
  have "fst ` set (accepted i s) \<subseteq> {..<n}" using ok by (auto simp: accepted_def race_ok_def logs_ok_def)
  then show "fst ` set ?tagged \<subseteq> {..<n}" by (meson image_mono set_take_subset subset_trans)
  fix j assume "j < n"
  have "subseq (map snd (filter (\<lambda>x. fst x = j) ?tagged)) (map snd (filter (\<lambda>x. fst x = j) (accepted i s)))"
    by (intro subseq_map subseq_filter prefix_imp_subseq take_is_prefix)
  with accepted_order [OF ok \<open>j < n\<close>] show "subseq (map snd (filter (\<lambda>x. fst x = j) ?tagged)) (map fst (calls_by j s))"
    using subseq_order.trans by blast
qed

theorem racing_publishers_keep_their_order_witness:
  "\<exists>tagged. map snd tagged = [Frame ''1''] \<and> fst ` set tagged \<subseteq> {..<2::nat} \<and>
     subseq (map snd (filter (\<lambda>x. fst x = 0) tagged)) [Frame ''1'', Frame ''2'']"
proof -
  obtain tagged where "map snd tagged = [Frame ''1'']" "fst ` set tagged \<subseteq> {..<2}"
    and all: "\<forall>j < 2. subseq (map snd (filter (\<lambda>x. fst x = j) tagged)) (map fst (calls_by j (race_state racing)))"
    using racing_publishers_keep_their_order [OF ref_mpsc_ok race_state_run, of "ConnectionId 1"]
    unfolding racing_end(2) by (elim exE conjE) (rule that)
  moreover have "subseq (map snd (filter (\<lambda>x. fst x = 0) tagged)) [Frame ''1'', Frame ''2'']"
    using spec [OF all, of 0] unfolding racing_end(3) by simp
  ultimately show ?thesis by (intro exI [of _ tagged] conjI)
qed

text \<open>
  C23: The delivery counters account for every attempt. Under every interleaving, when no call is in
  progress \<open>frames_sent\<close> is the number of attempts the queues accepted and \<open>frames_dropped\<close> the number of
  those that found a queue full (modulo \<open>2 ^ 64\<close>); while calls are in progress each lags behind by at most one per
  thread.
\<close>

theorem racing_counters_account:
  assumes "mpsc_ok Q" and run: "race_run Q evs (race_start n) = Some s"
  shows "((\<forall>p \<in> set (threads s). p = Outside) \<longrightarrow>
      frames_sent (metrics (reg_of s)) = of_nat (outcomes SendOk s) \<and>
      frames_dropped (metrics (reg_of s)) = of_nat (outcomes SendFull s)) \<and>
    (\<exists>a \<le> n. \<exists>b \<le> n. frames_sent (metrics (reg_of s)) + of_nat a = of_nat (outcomes SendOk s) \<and>
      frames_dropped (metrics (reg_of s)) + of_nat b = of_nat (outcomes SendFull s))"
proof (intro conjI impI)
  have ok: "race_ok Q n s" by (rule race_run_ok [OF assms])
  then have len: "length (filter P (threads s)) \<le> n" for P
    using length_filter_le by (auto simp: race_ok_def logs_ok_def)
  show "\<exists>a \<le> n. \<exists>b \<le> n. frames_sent (metrics (reg_of s)) + of_nat a = of_nat (outcomes SendOk s) \<and>
      frames_dropped (metrics (reg_of s)) + of_nat b = of_nat (outcomes SendFull s)"
    using ok len unfolding race_ok_def counters_ok_def by blast
  assume "\<forall>p \<in> set (threads s). p = Outside"
  then have "filter (uncounted r) (threads s) = []" for r by (auto simp: filter_empty_conv)
  with ok show "frames_sent (metrics (reg_of s)) = of_nat (outcomes SendOk s)"
    and "frames_dropped (metrics (reg_of s)) = of_nat (outcomes SendFull s)"
    by (simp_all add: race_ok_def counters_ok_def)
qed

theorem racing_counters_account_witness:
  "frames_sent (metrics (reg_of (race_state racing))) = of_nat (outcomes SendOk (race_state racing)) \<and>
   outcomes SendOk (race_state racing) = 2"
  using racing_counters_account [OF ref_mpsc_ok race_state_run] racing_end(1,7) by simp

text \<open>
  How far the streak of a connection can be off. Under every interleaving of \<open>n\<close> threads, the streak is at
  most the number of its frames that really found the queue full since the last recorded delivery, plus one
  for each other thread. A client is not disconnected as too slow on fewer real drops than that.
\<close>

theorem racing_streak_is_bounded:
  assumes "mpsc_ok Q" and run: "race_run Q evs (race_start n) = Some s"
  shows "unat (Registry_drops i (reg_of s)) \<le> fulls s i + (n - 1)"
proof -
  have "race_ok Q n s" by (rule race_run_ok [OF assms])
  then show ?thesis unfolding race_ok_def streaks_ok_def logs_ok_def by (metis add_leD1)
qed

theorem racing_streak_is_bounded_witness:
  "unat (Registry_drops (ConnectionId 1) (reg_of (race_state racing))) \<le> fulls (race_state racing) (ConnectionId 1) + 1"
  using racing_streak_is_bounded [OF ref_mpsc_ok race_state_run, of "ConnectionId 1"] by simp

text \<open>
  C39: The streak is not always a count of frames dropped in a row. Two threads that publish at the same time can
  leave a streak of two on a connection whose attempts were, in order, accepted, full, accepted, full: the first thread
  marks its drop after the second has delivered and cleared the streak.
\<close>

theorem racing_streak_counts_drops_apart:
  "\<exists>evs s. race_run ref_mpsc evs (race_start 2) = Some s \<and> threads s = [Outside, Outside] \<and>
     map (\<lambda>(_, _, _, r). r) (offers s) = [SendOk, SendFull, SendOk, SendFull] \<and>
     row_of_drops (ConnectionId 1) s = 1 \<and> Registry_drops (ConnectionId 1) (reg_of s) = 2"
  by (intro exI [of _ racing] exI [of _ "race_state racing"] conjI race_state_run racing_end(4-6))
    (simp add: racing_end(1))

text \<open>
  C20: A call that nobody interrupts is the atomic operation of \<open>Registry\<close>: taking the lock, the three effects for
  each subscriber in turn and the end of the loop leave the registry that \<open>Registry_publish\<close> returns, and the
  thread returns its count.
\<close>

theorem uninterrupted_call_is_publish:
  assumes inv: "registry_inv (reg_of s)" and j: "j < length (threads s)" and out: "threads s ! j = Outside"
  shows "\<exists>s'. race_run Q (Lock j (CallPublish ch f) # solo j (call_ids (reg_of s) (CallPublish ch f))) s = Some s' \<and>
    reg_of s' = snd (Registry_publish Q ch f (reg_of s)) \<and>
    threads s' = (threads s)[j := Looping f [] (fst (Registry_publish Q ch f (reg_of s)))]"
proof -
  let ?ids = "call_ids (reg_of s) (CallPublish ch f)" and ?s = "step_lock j (CallPublish ch f) s"
  have "registered (reg_of s) i" if "i \<in> set ?ids" for i
  proof -
    have "i \<in> indexed (by_channel (reg_of s)) ch" using that by (cases "map_of (by_channel (reg_of s)) ch") (simp_all add: indexed_def)
    then have "ch \<in> subs_of (reg_of s) i" using registry_inv_indexed [OF inv] by blast
    then show ?thesis by (auto simp: registered_def subs_of_def split: option.splits)
  qed
  then obtain s' where "race_run Q (solo j ?ids) ?s = Some s'" "reg_of s' = snd (publish_loop Q f ?ids 0 (reg_of s))"
    "threads s' = (threads ?s)[j := Looping f [] (fst (publish_loop Q f ?ids 0 (reg_of s)))]"
    using solo_loop [of j ?s f ?ids 0 Q] j by (auto simp: step_lock_def)
  then show ?thesis
    using j out by (auto simp: step_lock_def Registry_publish_def split: option.splits)
qed

theorem uninterrupted_call_is_publish_witness:
  "\<exists>s'. race_run ref_mpsc (Lock 1 (CallPublish ''t'' (Frame ''5''))
       # solo 1 (call_ids (reg_of (race_state racing)) (CallPublish ''t'' (Frame ''5'')))) (race_state racing) = Some s' \<and>
     reg_of s' = snd (Registry_publish ref_mpsc ''t'' (Frame ''5'') (reg_of (race_state racing)))"
proof -
  have "registry_inv (reg_of (race_state racing))"
    using race_run_ok [OF ref_mpsc_ok race_state_run] by (simp add: race_ok_def logs_ok_def)
  from uninterrupted_call_is_publish [OF this, of 1 ref_mpsc "''t''" "Frame ''5''"] racing_end(1) show ?thesis by auto
qed

end
