(* ===== verification/Outcry.thy ===== *)
theory Outcry
  imports Server_API
begin

text \<open>
  The source thread that feeds the server from a shared-memory queue, \<^verbatim>\<open>src/src/outcry_source.rs\<close>,
  and the counting of \<^verbatim>\<open>Server\<close> clones that is to stop it (\<^verbatim>\<open>src/src/lib.rs\<close>). The queue is a library
  the program only calls: what its \<^verbatim>\<open>try_read\<close> returns at each turn is input, as is the number of
  \<^verbatim>\<open>Server\<close> clones the thread observes. The decoder is the caller's closure, a function on its own state.
\<close>

section \<open>The thread\<close>

record decoded =
  on_channel :: string
  payload :: string

datatype idle = Spin | Sleep nat

datatype read_result =
    ReadSome string
  | ReadNone
  | Overrun nat
  | BufferTooSmall nat
  | ReadFailed string

datatype pause = NoPause | SpinLoop | SleepFor nat

datatype source_ctl = Looping | Stopped | Panicking

record 'd source =
  buf_len :: nat
  idle_polls :: u32
  undecodable :: u64
  decoder :: 'd

definition new_source :: "'d \<Rightarrow> 'd source" where
  "new_source d = \<lparr>buf_len = 64 * 1024, idle_polls = 0, undecodable = 0, decoder = d\<rparr>"

definition saturating_inc :: "u32 \<Rightarrow> u32" where
  "saturating_inc w = (if w = - 1 then - 1 else w + 1)"

definition idle_pause :: "idle \<Rightarrow> u32 \<Rightarrow> pause" where
  "idle_pause how polls =
     (case how of Spin \<Rightarrow> SpinLoop | Sleep d \<Rightarrow> if polls > 1000 then SleepFor d else SpinLoop)"

definition on_read ::
    "serde \<Rightarrow> ('q, 'x) mpsc_scheme \<Rightarrow> ('d \<Rightarrow> string \<Rightarrow> decoded option \<times> 'd) \<Rightarrow> idle \<Rightarrow> read_result \<Rightarrow>
     'd source \<Rightarrow> ('q, 's) shared \<Rightarrow> source_ctl \<times> pause \<times> 'd source \<times> ('q, 's) shared" where
  "on_read S Q dec how res src sh =
     (case res of
        ReadSome bytes \<Rightarrow>
          let src = src\<lparr>idle_polls := 0\<rparr>
          in if buf_len src < length bytes then (Panicking, NoPause, src, sh)
             else (case dec (decoder src) bytes of
                     (Some d, st) \<Rightarrow>
                       (Looping, NoPause, src\<lparr>decoder := st\<rparr>,
                        snd (Server_publish S Q (on_channel d) (payload d) sh))
                   | (None, st) \<Rightarrow>
                       (Looping, NoPause, src\<lparr>decoder := st, undecodable := undecodable src + 1\<rparr>, sh))
      | ReadNone \<Rightarrow>
          let src = src\<lparr>idle_polls := saturating_inc (idle_polls src)\<rparr>
          in (Looping, idle_pause how (idle_polls src), src, sh)
      | Overrun _ \<Rightarrow> (Looping, NoPause, src, snd (Server_resync_all S Q sh))
      | BufferTooSmall needed \<Rightarrow> (Looping, NoPause, src\<lparr>buf_len := needed\<rparr>, sh)
      | ReadFailed _ \<Rightarrow> (Stopped, NoPause, src, sh))"

text \<open>The loop: each turn observes the number of clones and, while it is above one, reads once.\<close>

fun consume_outcry ::
    "serde \<Rightarrow> ('q, 'x) mpsc_scheme \<Rightarrow> ('d \<Rightarrow> string \<Rightarrow> decoded option \<times> 'd) \<Rightarrow> idle \<Rightarrow> (nat \<times> read_result) list \<Rightarrow>
     'd source \<Rightarrow> ('q, 's) shared \<Rightarrow> source_ctl \<times> 'd source \<times> ('q, 's) shared" where
  "consume_outcry S Q dec how [] src sh = (Looping, src, sh)"
| "consume_outcry S Q dec how ((strong_count, res) # turns) src sh =
     (if 1 < strong_count
      then (case on_read S Q dec how res src sh of
              (Looping, _, src', sh') \<Rightarrow> consume_outcry S Q dec how turns src' sh'
            | (c, _, src', sh') \<Rightarrow> (c, src', sh'))
      else (Stopped, src, sh))"

section \<open>Who keeps the server running\<close>

text \<open>
  \<^verbatim>\<open>alive\<close> is shared by the caller's clones of \<^verbatim>\<open>Server\<close> and by the clone each source thread holds;
  when the last one goes, the accept loop is aborted. The loop also ends by itself when the listener
  fails (\<^verbatim>\<open>accept().await?\<close> in \<^verbatim>\<open>serve\<close>), which nobody who holds a clone is told.
\<close>

record life =
  clones :: nat
  sources :: nat
  loop_running :: bool
  listener_failed :: bool

definition strong_count :: "life \<Rightarrow> nat" where
  "strong_count l = clones l + sources l"

definition drop_alive :: "life \<Rightarrow> life" where
  "drop_alive l = (if strong_count l = 0 then l\<lparr>loop_running := False\<rparr> else l)"

definition bound :: life where
  "bound = \<lparr>clones = 1, sources = 0, loop_running = True, listener_failed = False\<rparr>"

definition Server_clone :: "life \<Rightarrow> life" where
  "Server_clone l = l\<lparr>clones := clones l + 1\<rparr>"

definition Server_drop :: "life \<Rightarrow> life" where
  "Server_drop l = drop_alive (l\<lparr>clones := clones l - 1\<rparr>)"

definition source_spawn :: "life \<Rightarrow> life" where
  "source_spawn l = l\<lparr>sources := sources l + 1\<rparr>"

definition source_exit :: "life \<Rightarrow> life" where
  "source_exit l = drop_alive (l\<lparr>sources := sources l - 1\<rparr>)"

definition source_check :: "life \<Rightarrow> life" where
  "source_check l = (if 1 < strong_count l then l else source_exit l)"

definition listener_fail :: "life \<Rightarrow> life" where
  "listener_fail l = l\<lparr>loop_running := False, listener_failed := True\<rparr>"

inductive life_step :: "life \<Rightarrow> life \<Rightarrow> bool" where
  Clone: "0 < clones l \<Longrightarrow> life_step l (Server_clone l)"
| Drop: "0 < clones l \<Longrightarrow> life_step l (Server_drop l)"
| Spawn: "0 < clones l \<Longrightarrow> life_step l (source_spawn l)"
| Check: "0 < sources l \<Longrightarrow> life_step l (source_check l)"
| Fail: "0 < sources l \<Longrightarrow> life_step l (source_exit l)"
| ListenerFail: "loop_running l \<Longrightarrow> life_step l (listener_fail l)"

inductive_cases life_stepE: "life_step l l'"

text \<open>The steps of threads whose queues do not fail, with nobody else holding a clone.\<close>

inductive poll_step :: "life \<Rightarrow> life \<Rightarrow> bool" where
  Poll: "0 < sources l \<Longrightarrow> poll_step l (source_check l)"

section \<open>What the thread forwards\<close>

datatype forwarded = Published string string | ToldResync

definition forward :: "serde \<Rightarrow> ('q, 'x) mpsc_scheme \<Rightarrow> forwarded \<Rightarrow> ('q, 's) shared \<Rightarrow> ('q, 's) shared" where
  "forward S Q a sh =
     (case a of Published ch p \<Rightarrow> snd (Server_publish S Q ch p sh) | ToldResync \<Rightarrow> snd (Server_resync_all S Q sh))"

text \<open>
  The decoder applied to the frames read, in order: what comes out, and how many it rejects.
\<close>

fun relay :: "('d \<Rightarrow> string \<Rightarrow> decoded option \<times> 'd) \<Rightarrow> 'd \<Rightarrow> read_result list \<Rightarrow> forwarded list \<times> nat" where
  "relay dec st [] = ([], 0)"
| "relay dec st (ReadSome bytes # rs) =
     (case dec st bytes of
        (Some d, st') \<Rightarrow> (let (out, n) = relay dec st' rs in (Published (on_channel d) (payload d) # out, n))
      | (None, st') \<Rightarrow> (let (out, n) = relay dec st' rs in (out, Suc n)))"
| "relay dec st (Overrun _ # rs) = (let (out, n) = relay dec st rs in (ToldResync # out, n))"
| "relay dec st (_ # rs) = relay dec st rs"

text \<open>What the thread relies on of the queue: a frame it returns fits the buffer it was given.\<close>

fun reads_fit :: "nat \<Rightarrow> read_result list \<Rightarrow> bool" where
  "reads_fit len [] = True"
| "reads_fit len (ReadSome bytes # rs) = (length bytes \<le> len \<and> reads_fit len rs)"
| "reads_fit len (BufferTooSmall needed # rs) = reads_fit needed rs"
| "reads_fit len (ReadFailed _ # rs) = False"
| "reads_fit len (_ # rs) = reads_fit len rs"

section \<open>The counter of empty polls\<close>

lemma unat_Suc_u32: "Suc (unat (w :: u32)) < 2 ^ 32 \<Longrightarrow> unat (w + 1) = Suc (unat w)"
  by (simp add: unat_word_ariths)

lemma unat_u32_less: "unat (w :: u32) < 2 ^ 32"
  using unsigned_less [of w] by simp

lemma unat_saturating_inc: "unat (saturating_inc w) = min (Suc (unat w)) (2 ^ 32 - 1)"
proof (cases "w = - 1")
  case True
  then show ?thesis by (simp add: saturating_inc_def unsigned_minus_1_eq_mask mask_eq_exp_minus_1)
next
  case False
  have "unat w \<noteq> unat (- 1 :: u32)" using False by (metis unsigned_word_eqI)
  then have "Suc (unat w) < 2 ^ 32"
    using unat_u32_less [of w] by (simp add: unsigned_minus_1_eq_mask mask_eq_exp_minus_1)
  then show ?thesis using False by (simp add: saturating_inc_def unat_Suc_u32)
qed

lemma consume_Cons:
  "1 < k \<Longrightarrow> fst (on_read S Q dec how r src sh) = Looping \<Longrightarrow>
     consume_outcry S Q dec how ((k, r) # turns) src sh =
       consume_outcry S Q dec how turns (fst (snd (snd (on_read S Q dec how r src sh))))
         (snd (snd (snd (on_read S Q dec how r src sh))))"
  by (auto split: prod.splits)

lemma consume_empty:
  assumes "\<forall>t \<in> set turns. 1 < fst t \<and> snd t = ReadNone"
  shows "\<exists>src'. consume_outcry S Q dec how turns src sh = (Looping, src', sh) \<and>
    unat (idle_polls src') = min (unat (idle_polls src) + length turns) (2 ^ 32 - 1) \<and> decoder src' = decoder src"
  using assms
proof (induction turns arbitrary: src)
  case Nil
  then show ?case using unat_u32_less [of "idle_polls src"] by simp
next
  case (Cons t turns)
  obtain k where t: "t = (k, ReadNone)" "1 < k" using Cons.prems by (cases t) auto
  let ?src = "src\<lparr>idle_polls := saturating_inc (idle_polls src)\<rparr>"
  obtain src' where "consume_outcry S Q dec how turns ?src sh = (Looping, src', sh)"
    "unat (idle_polls src') = min (unat (idle_polls ?src) + length turns) (2 ^ 32 - 1)" "decoder src' = decoder ?src"
    using Cons.IH [of ?src] Cons.prems by auto
  then show ?case
    using t by (simp add: on_read_def Let_def unat_saturating_inc min_def)
qed

section \<open>The thread forwards what it decodes\<close>

lemma forward_simps:
  "forward S Q (Published ch p) sh = snd (Server_publish S Q ch p sh)"
  "forward S Q ToldResync sh = snd (Server_resync_all S Q sh)"
  by (simp_all add: forward_def)

lemma consume_relay:
  assumes "\<forall>t \<in> set turns. 1 < fst t" and "reads_fit (buf_len src) (map snd turns)"
  shows "\<exists>src'. consume_outcry S Q dec how turns src sh =
      (Looping, src', fold (forward S Q) (fst (relay dec (decoder src) (map snd turns))) sh) \<and>
    undecodable src' = undecodable src + of_nat (snd (relay dec (decoder src) (map snd turns)))"
  using assms
proof (induction turns arbitrary: src sh)
  case (Cons t turns)
  obtain k r where t: "t = (k, r)" "1 < k" using Cons.prems by (cases t) auto
  let ?r = "on_read S Q dec how r src sh"
  have looping: "fst ?r = Looping" and fit: "reads_fit (buf_len (fst (snd (snd ?r)))) (map snd turns)"
    using Cons.prems(2) by (cases r; auto simp: t on_read_def Let_def split: prod.splits option.splits)+
  from Cons.IH [OF _ fit, of "snd (snd (snd ?r))"] Cons.prems(1) obtain src' where
    IH: "consume_outcry S Q dec how turns (fst (snd (snd ?r))) (snd (snd (snd ?r))) =
      (Looping, src', fold (forward S Q) (fst (relay dec (decoder (fst (snd (snd ?r)))) (map snd turns))) (snd (snd (snd ?r))))"
    "undecodable src' = undecodable (fst (snd (snd ?r))) +
      of_nat (snd (relay dec (decoder (fst (snd (snd ?r)))) (map snd turns)))"
    by auto
  show ?case
  proof (cases r)
    case (ReadSome bytes)
    then show ?thesis
      using IH looping Cons.prems(2)
      by (auto simp: t consume_Cons [OF t(2)] on_read_def Let_def forward_simps split: prod.splits option.splits
          simp del: consume_outcry.simps)
  qed (use IH looping Cons.prems(2) in \<open>auto simp: t consume_Cons [OF t(2)] on_read_def Let_def forward_simps
      split: prod.splits simp del: consume_outcry.simps\<close>)
qed simp

section \<open>Clones and threads\<close>

lemma drop_alive_simps:
  "clones (drop_alive l) = clones l" "sources (drop_alive l) = sources l"
  "listener_failed (drop_alive l) = listener_failed l"
  "loop_running (drop_alive l) \<longleftrightarrow> loop_running l \<and> 0 < strong_count l"
  by (auto simp: drop_alive_def strong_count_def)

lemma source_check_simps:
  "clones (source_check l) = clones l" "listener_failed (source_check l) = listener_failed l"
  "sources (source_check l) = (if 1 < strong_count l then sources l else sources l - 1)"
  "loop_running (source_check l) \<longleftrightarrow> loop_running l \<and> (1 < strong_count l \<or> 0 < clones l + (sources l - 1))"
  by (auto simp: source_check_def source_exit_def drop_alive_simps strong_count_def)

lemmas life_defs = listener_fail_def Server_clone_def Server_drop_def source_spawn_def source_exit_def
  source_check_simps drop_alive_simps

definition loop_matches :: "life \<Rightarrow> bool" where
  "loop_matches l \<longleftrightarrow> (loop_running l \<longleftrightarrow> 0 < clones l + sources l \<and> \<not> listener_failed l)"

interpretation life: step_invariant "\<lambda>l. l = bound" life_step loop_matches
proof
  fix l l' assume "loop_matches l" and "life_step l l'"
  then show "loop_matches l'"
    by (auto elim!: life_stepE simp: loop_matches_def life_defs strong_count_def split: if_splits)
qed (simp add: bound_def loop_matches_def)

interpretation orphans: step_invariant "\<lambda>l. l = l0" poll_step
  "\<lambda>l. clones l0 = 0 \<and> 2 \<le> sources l0 \<longrightarrow> l = l0" for l0
  by unfold_locales (auto elim!: poll_step.cases simp: source_check_def strong_count_def)

section \<open>Properties\<close>

text \<open>
  C34: The source thread forwards exactly what it decodes, in order: over any turns in which the server
  is alive and the reads fit the buffer, it does not stop, publishes one message per decoded frame and one
  resync per overrun, in the order read, and counts every frame the decoder rejects.
\<close>

theorem source_forwards_in_order:
  assumes "\<forall>t \<in> set turns. 1 < fst t" and "reads_fit (64 * 1024) (map snd turns)"
  shows "case consume_outcry S Q dec how turns (new_source d) sh of (c, src, sh') \<Rightarrow>
     c = Looping \<and> sh' = fold (forward S Q) (fst (relay dec d (map snd turns))) sh \<and>
     undecodable src = of_nat (snd (relay dec d (map snd turns)))"
  using consume_relay [of turns "new_source d" S Q dec how sh] assms by (auto simp: new_source_def)

theorem source_forwards_in_order_witness:
  "case consume_outcry demo_serde ref_mpsc (\<lambda>n bs. (if bs = ''x'' then None else Some \<lparr>on_channel = ''t'', payload = bs\<rparr>, Suc n)) Spin
      [(2, ReadSome ''1''), (2, ReadNone), (2, Overrun 5), (3, ReadSome ''x''), (2, ReadSome ''2'')] (new_source 0) demo_shared of
     (c, src, sh') \<Rightarrow> c = Looping \<and> undecodable src = 1 \<and>
       sh' = fold (forward demo_serde ref_mpsc) [Published ''t'' ''1'', ToldResync, Published ''t'' ''2''] demo_shared"
  using source_forwards_in_order
    [where turns = "[(2, ReadSome ''1''), (2, ReadNone), (2, Overrun 5), (3, ReadSome ''x''), (2, ReadSome ''2'')]"
      and S = demo_serde and Q = ref_mpsc and how = Spin and d = 0 and sh = demo_shared
      and dec = "\<lambda>n bs. (if bs = ''x'' then None else Some \<lparr>on_channel = ''t'', payload = bs\<rparr>, Suc n)"]
  by (auto simp del: consume_outcry.simps split: prod.splits)

text \<open>
  Lost input is announced: when the queue reports an overrun the thread goes on, and every
  connection whose queue has room, subscribed or not, finds a \<open>resync\<close> for all channels at the end of its queue.
\<close>

theorem overrun_is_announced_to_everyone:
  assumes Q: "mpsc_ok Q" and c: "map_of (connections (registry sh)) i = Some c" and acc: "accepts Q (tx c)"
  shows "case on_read S Q dec how (Overrun behind) src sh of (ctl, _, src', sh') \<Rightarrow>
     ctl = Looping \<and> src' = src \<and>
     (\<exists>c'. map_of (connections (registry sh')) i = Some c' \<and>
        buffered (view Q (tx c')) = buffered (view Q (tx c)) @ [to_frame S (Resync [])])"
  using c acc
  by (simp add: on_read_def Server_resync_all_def Let_def broadcast_eq map_of_map_snd after_deliver_view [OF Q])

theorem overrun_is_announced_to_everyone_witness:
  "case on_read demo_serde ref_mpsc (\<lambda>d bs. (None, d)) Spin (Overrun 3) (new_source ()) demo_shared of (ctl, _, src', sh') \<Rightarrow>
     ctl = Looping \<and>
     (\<exists>c'. map_of (connections (registry sh')) (ConnectionId 1) = Some c' \<and>
        buffered (view ref_mpsc (tx c')) = [to_frame demo_serde (Resync [])])"
proof -
  have "map_of (connections (registry demo_shared)) (ConnectionId 1) = Some demo_conn" "accepts ref_mpsc (tx demo_conn)"
    "buffered (view ref_mpsc (tx demo_conn)) = []"
    by (simp_all add: demo_shared_def demo_reg_conn accepts_def demo_conn_def ref_mpsc_def)
  with overrun_is_announced_to_everyone [OF ref_mpsc_ok, where sh = demo_shared and i = "ConnectionId 1" and c = demo_conn
      and S = demo_serde and dec = "\<lambda>d bs. (None, d)" and how = Spin and behind = 3 and src = "new_source ()"]
  show ?thesis by (auto split: prod.splits)
qed

text \<open>
  An idle thread backs off only when told to, and its counter never wraps: after any number of
  consecutive empty reads the next one sleeps exactly when \<open>Sleep\<close> was asked for and more than a
  thousand reads in a row, that one included, were empty.
\<close>

theorem idle_thread_backs_off:
  assumes "\<forall>t \<in> set turns. 1 < fst t \<and> snd t = ReadNone"
  shows "case consume_outcry S Q dec how turns (new_source d) sh of (c, src, sh') \<Rightarrow>
     c = Looping \<and> sh' = sh \<and>
     fst (snd (on_read S Q dec how ReadNone src sh')) =
       (case how of Spin \<Rightarrow> SpinLoop | Sleep t \<Rightarrow> if 1000 < Suc (length turns) then SleepFor t else SpinLoop)"
proof -
  obtain src where run: "consume_outcry S Q dec how turns (new_source d) sh = (Looping, src, sh)"
    and n: "unat (idle_polls src) = min (length turns) (2 ^ 32 - 1)"
    using consume_empty [OF assms, of S Q dec how "new_source d" sh] by (auto simp: new_source_def)
  have "1000 < saturating_inc (idle_polls src) \<longleftrightarrow> 1000 < unat (saturating_inc (idle_polls src))"
    by (simp add: word_less_nat_alt)
  also have "\<dots> \<longleftrightarrow> 1000 < Suc (length turns)" by (simp add: unat_saturating_inc n min_def)
  finally show ?thesis by (simp add: run on_read_def Let_def idle_pause_def split: idle.splits)
qed

theorem idle_thread_backs_off_witness:
  "case consume_outcry demo_serde ref_mpsc (\<lambda>d bs. (None, d)) (Sleep 200) (replicate 1000 (2, ReadNone)) (new_source ()) demo_shared of
     (c, src, sh') \<Rightarrow> fst (snd (on_read demo_serde ref_mpsc (\<lambda>d bs. (None, d)) (Sleep 200) ReadNone src sh')) = SleepFor 200"
  using idle_thread_backs_off [where turns = "replicate 1000 (2, ReadNone)" and S = demo_serde and Q = ref_mpsc
      and dec = "\<lambda>d bs. (None, d)" and how = "Sleep 200" and d = "()" and sh = demo_shared]
  by (auto split: prod.splits)

text \<open>
  C35: The accept loop runs exactly as long as somebody holds the server and the listener works: in every
  state reached by cloning and dropping servers, by threads that start, check and fail, and by a failure of the
  listener, the loop is running if and only if a clone or a source thread is left and the listener has not
  failed. A failure ends the loop and takes nobody's clone away. With a single source thread, the thread goes
  on while the caller holds a clone, also after such a failure, and ends at its next check once none is left,
  the accept loop with it.
\<close>

theorem last_holder_stops_the_server:
  assumes "life_step\<^sup>*\<^sup>* bound l"
  shows "(loop_running l \<longleftrightarrow> 0 < clones l + sources l \<and> \<not> listener_failed l) \<and>
    \<not> loop_running (listener_fail l) \<and> strong_count (listener_fail l) = strong_count l \<and>
    (sources l = 1 \<longrightarrow>
       (if 0 < clones l then source_check l = l
        else sources (source_check l) = 0 \<and> \<not> loop_running (source_check l)))"
proof -
  have "loop_matches l" using life.invariant [OF _ assms] by simp
  then show ?thesis by (auto simp: loop_matches_def life_defs strong_count_def)
qed

theorem last_holder_stops_the_server_witness:
  "life_step\<^sup>*\<^sup>* bound (Server_drop (source_spawn bound)) \<and>
   \<not> loop_running (source_check (Server_drop (source_spawn bound))) \<and>
   life_step\<^sup>*\<^sup>* bound (listener_fail bound) \<and> \<not> loop_running (listener_fail bound) \<and> clones (listener_fail bound) = 1"
proof -
  have "life_step bound (source_spawn bound)" "life_step (source_spawn bound) (Server_drop (source_spawn bound))"
    by (rule life_step.intros, simp add: bound_def source_spawn_def)+
  then have steps: "life_step\<^sup>*\<^sup>* bound (Server_drop (source_spawn bound))" by simp
  have fails: "life_step\<^sup>*\<^sup>* bound (listener_fail bound)"
    by (rule r_into_rtranclp, rule life_step.ListenerFail) (simp add: bound_def)
  from last_holder_stops_the_server [OF steps] last_holder_stops_the_server [OF fails] steps fails show ?thesis
    by (simp add: bound_def life_defs strong_count_def)
qed

text \<open>
  C36: Two source threads keep each other running: once the caller has dropped its last clone, no check of
  either thread ever ends it, and the accept loop stays up, although dropping the server is
  documented to end the thread.
\<close>

theorem two_sources_outlive_the_server:
  assumes "clones l = 0" and "2 \<le> sources l" and "poll_step\<^sup>*\<^sup>* l l'"
  shows "l' = l"
  using orphans.invariant [OF refl assms(3)] assms(1,2) by simp

theorem two_sources_outlive_the_server_witness:
  "let l = Server_drop (source_spawn (source_spawn bound)) in poll_step l (source_check l) \<and> source_check l = l \<and> loop_running l"
proof -
  let ?l = "Server_drop (source_spawn (source_spawn bound))"
  have l: "clones ?l = 0" "2 \<le> sources ?l" "loop_running ?l"
    by (simp_all add: bound_def life_defs strong_count_def)
  then have "poll_step ?l (source_check ?l)" by (intro poll_step.Poll) simp
  with two_sources_outlive_the_server [OF l(1,2) r_into_rtranclp [of poll_step, OF this]] l(3) show ?thesis by (simp add: Let_def)
qed

end
