(* ===== verification/Json_Grammar.thy ===== *)
theory Json_Grammar
  imports Protocol
begin

text \<open>
  JSON texts, as a grammar over bytes (RFC 8259), and that the serialiser of \<^verbatim>\<open>src/src/protocol.rs\<close> writes
  them. \<open>json_value\<close> is a value without whitespace around it, \<open>json_text\<close> allows it. What the JSON
  library does with strings and numbers is relied on as \<open>writer_ok\<close>: a string becomes a JSON string, a number a JSON
  number. A \<^verbatim>\<open>RawValue\<close> is made from text by a library function that is a parameter; \<open>raw_value_ok\<close> says
  what it is documented to do: it returns the value, and refuses everything else.
\<close>

section \<open>The grammar\<close>

definition ws_char :: "char \<Rightarrow> bool" where
  "ws_char c \<longleftrightarrow> c = CHR '' '' \<or> c = CHR 0x09 \<or> c = CHR 0x0A \<or> c = CHR 0x0D"

definition blank :: "string \<Rightarrow> bool" where
  "blank s \<longleftrightarrow> list_all ws_char s"

definition digit :: "char \<Rightarrow> bool" where
  "digit c \<longleftrightarrow> 48 \<le> (of_char c :: nat) \<and> (of_char c :: nat) \<le> 57"

definition hex_digit :: "char \<Rightarrow> bool" where
  "hex_digit c \<longleftrightarrow> digit c \<or> (65 \<le> (of_char c :: nat) \<and> (of_char c :: nat) \<le> 70) \<or>
     (97 \<le> (of_char c :: nat) \<and> (of_char c :: nat) \<le> 102)"

text \<open>A byte that stands for itself in a string: no control character, quotation mark or backslash.\<close>

definition plain :: "char \<Rightarrow> bool" where
  "plain c \<longleftrightarrow> 32 \<le> (of_char c :: nat) \<and> c \<noteq> CHR 0x22 \<and> c \<noteq> CHR 0x5C"

inductive string_body :: "string \<Rightarrow> bool" where
  Empty: "string_body []"
| Plain: "plain c \<Longrightarrow> string_body s \<Longrightarrow> string_body (c # s)"
| Escape: "c \<in> set (CHR 0x22 # CHR 0x5C # ''/bfnrt'') \<Longrightarrow> string_body s \<Longrightarrow> string_body (CHR 0x5C # c # s)"
| Unicode: "list_all hex_digit h \<Longrightarrow> length h = 4 \<Longrightarrow> string_body s \<Longrightarrow> string_body (CHR 0x5C # CHR ''u'' # h @ s)"

definition json_string :: "string \<Rightarrow> bool" where
  "json_string s \<longleftrightarrow> (\<exists>b. string_body b \<and> s = CHR 0x22 # b @ [CHR 0x22])"

definition integer_part :: "string \<Rightarrow> bool" where
  "integer_part s \<longleftrightarrow> s \<noteq> [] \<and> list_all digit s \<and> (hd s = CHR ''0'' \<longrightarrow> tl s = [])"

definition fraction :: "string \<Rightarrow> bool" where
  "fraction s \<longleftrightarrow> s = [] \<or> (\<exists>ds. s = CHR ''.'' # ds \<and> ds \<noteq> [] \<and> list_all digit ds)"

definition exponent :: "string \<Rightarrow> bool" where
  "exponent s \<longleftrightarrow> s = [] \<or> (\<exists>e sg ds. s = e # sg @ ds \<and> e \<in> set ''eE'' \<and> sg \<in> {[], ''+'', ''-''} \<and>
     ds \<noteq> [] \<and> list_all digit ds)"

definition json_number :: "string \<Rightarrow> bool" where
  "json_number s \<longleftrightarrow>
     (\<exists>sg i f e. s = sg @ i @ f @ e \<and> sg \<in> {[], ''-''} \<and> integer_part i \<and> fraction f \<and> exponent e)"

inductive json_value :: "string \<Rightarrow> bool" and json_text :: "string \<Rightarrow> bool"
  and json_elements :: "string \<Rightarrow> bool" and json_members :: "string \<Rightarrow> bool" where
  Literal: "s \<in> {''true'', ''false'', ''null''} \<Longrightarrow> json_value s"
| Number: "json_number s \<Longrightarrow> json_value s"
| String: "json_string s \<Longrightarrow> json_value s"
| Array0: "blank w \<Longrightarrow> json_value (CHR ''['' # w @ '']'')"
| Array: "json_elements s \<Longrightarrow> json_value (CHR ''['' # s @ '']'')"
| Object0: "blank w \<Longrightarrow> json_value (CHR ''{'' # w @ ''}'')"
| Object: "json_members s \<Longrightarrow> json_value (CHR ''{'' # s @ ''}'')"
| Padded: "blank a \<Longrightarrow> json_value s \<Longrightarrow> blank b \<Longrightarrow> json_text (a @ s @ b)"
| Element: "json_text s \<Longrightarrow> json_elements s"
| Elements: "json_text s \<Longrightarrow> json_elements t \<Longrightarrow> json_elements (s @ CHR '','' # t)"
| Member: "blank a \<Longrightarrow> json_string k \<Longrightarrow> blank b \<Longrightarrow> json_text s \<Longrightarrow> json_members (a @ k @ b @ CHR '':'' # s)"
| Members: "blank a \<Longrightarrow> json_string k \<Longrightarrow> blank b \<Longrightarrow> json_text s \<Longrightarrow> json_members t \<Longrightarrow>
     json_members ((a @ k @ b @ CHR '':'' # s) @ CHR '','' # t)"

section \<open>What is relied on of the JSON library\<close>

definition writer_ok :: "'x serde_scheme \<Rightarrow> bool" where
  "writer_ok S \<longleftrightarrow> (\<forall>s. json_string (quote S s)) \<and> (\<forall>n. json_number (number S n))"

definition raw_value_ok :: "(string \<Rightarrow> string option) \<Rightarrow> bool" where
  "raw_value_ok raw \<longleftrightarrow>
     (\<forall>s p. raw s = Some p \<longleftrightarrow> json_value p \<and> (\<exists>a b. blank a \<and> blank b \<and> s = a @ p @ b))"

text \<open>The payloads a message carries.\<close>

fun payloads :: "server_message \<Rightarrow> string list" where
  "payloads (Data _ p) = [p]"
| "payloads (Snapshot _ p) = [p]"
| "payloads _ = []"

text \<open>
  A JSON library that meets these contracts, for concrete runs: it escapes the quotation mark and the
  backslash with a backslash and control characters by their number.
\<close>

definition nibble :: "nat \<Rightarrow> char" where
  "nibble n = (if n < 10 then char_of (48 + n) else char_of (87 + n))"

fun json_escape :: "string \<Rightarrow> string" where
  "json_escape [] = []"
| "json_escape (c # cs) =
     (if c = CHR 0x22 \<or> c = CHR 0x5C then CHR 0x5C # c # json_escape cs
      else if (of_char c :: nat) < 32
      then CHR 0x5C # CHR ''u'' # [CHR ''0'', CHR ''0'', nibble (of_char c div 16), nibble (of_char c mod 16)] @ json_escape cs
      else c # json_escape cs)"

definition json_serde :: "(string \<Rightarrow> string + client_message) \<Rightarrow> serde" where
  "json_serde parse = \<lparr>from_str = parse, quote = (\<lambda>s. CHR 0x22 # json_escape s @ [CHR 0x22]),
     number = (\<lambda>n. digits (unat n))\<rparr>"

definition trim :: "string \<Rightarrow> string" where
  "trim s = rev (dropWhile ws_char (rev (dropWhile ws_char s)))"

definition ref_raw_value :: "string \<Rightarrow> string option" where
  "ref_raw_value s = (if json_value (trim s) then Some (trim s) else None)"

section \<open>Values, lists and members\<close>

lemma blank_Nil [simp]: "blank []"
  by (simp add: blank_def)

lemma json_text_value: "json_value s \<Longrightarrow> json_text s"
  using Padded [of "[]" s "[]"] by simp

lemma json_text_pad:
  assumes "blank a" and "json_text s" and "blank b"
  shows "json_text (a @ s @ b)"
  using assms(2)
proof cases
  case (Padded a' s' b')
  then show ?thesis using json_value_json_text_json_elements_json_members.Padded [of "a @ a'" s' "b' @ b"] assms
    by (simp add: blank_def)
qed

lemma json_member: "json_string k \<Longrightarrow> json_text s \<Longrightarrow> json_members (k @ CHR '':'' # s)"
  using Member [of "[]" k "[]" s] by simp

lemma json_members_Cons:
  "json_string k \<Longrightarrow> json_text s \<Longrightarrow> json_members t \<Longrightarrow> json_members ((k @ CHR '':'' # s) @ CHR '','' # t)"
  using Members [of "[]" k "[]" s t] by simp

lemma json_elements_join: "xs \<noteq> [] \<Longrightarrow> \<forall>x \<in> set xs. json_text x \<Longrightarrow> json_elements (join xs)"
  by (induction xs rule: join.induct) (auto intro: Element Elements)

lemma json_members_join:
  assumes "kvs \<noteq> []" and "\<forall>(k, v) \<in> set kvs. json_string k \<and> json_text v"
  shows "json_members (join (map (\<lambda>(k, v). k @ '':'' @ v) kvs))"
  using assms
proof (induction kvs rule: induct_list012)
  case (2 x)
  then show ?case by (auto intro: json_member split: prod.splits)
next
  case (3 x y zs)
  obtain k v where x: "x = (k, v)" by (cases x)
  have "json_members (join (map (\<lambda>(k, v). k @ '':'' @ v) (y # zs)))" using 3 by simp
  from json_members_Cons [OF _ _ this, of k v] 3(4) show ?case by (simp add: x split: prod.splits)
qed simp

lemma json_array: "\<forall>x \<in> set xs. json_text x \<Longrightarrow> json_value (''['' @ join xs @ '']'')"
  using Array0 [of "[]"] by (cases "xs = []") (auto intro: Array json_elements_join)

lemma json_object:
  assumes "\<forall>(k, v) \<in> set kvs. json_string k \<and> json_text v"
  shows "json_value (''{'' @ join (map (\<lambda>(k, v). k @ '':'' @ v) kvs) @ ''}'')"
  using Object0 [of "[]"] Object [OF json_members_join [OF _ assms]] by (cases "kvs = []") auto

section \<open>The serialiser writes JSON\<close>

fun raws_ok :: "json \<Rightarrow> bool" where
  "raws_ok (JRaw p) = json_text p"
| "raws_ok (JArr xs) = list_all raws_ok xs"
| "raws_ok (JObj fs) = list_all (\<lambda>f. raws_ok (snd f)) fs"
| "raws_ok _ = True"

lemma render_json:
  assumes S: "writer_ok S"
  shows "raws_ok v \<Longrightarrow> json_text (render S v)"
proof (induction v rule: raws_ok.induct)
  case (2 xs)
  then have "\<forall>x \<in> set (map (render S) xs). json_text x" by (auto simp: list_all_iff)
  from json_text_value [OF json_array [OF this]] show ?case by simp
next
  case (3 fs)
  have "\<forall>(k, v) \<in> set (map (\<lambda>f. (quote S (fst f), render S (snd f))) fs). json_string k \<and> json_text v"
    using 3 S by (auto simp: list_all_iff writer_ok_def)
  from json_text_value [OF json_object [OF this]] show ?case by (simp add: o_def)
qed (use S in \<open>auto simp: writer_ok_def intro: json_text_value Number String\<close>)

lemma serialize_raws: "\<forall>p \<in> set (payloads m). json_text p \<Longrightarrow> raws_ok (serialize m)"
  by (cases m) (auto simp: list_all_iff serialize_rejected_def)

lemma to_frame_json:
  "writer_ok S \<Longrightarrow> \<forall>p \<in> set (payloads m). json_text p \<Longrightarrow> json_text (as_str (to_frame S m))"
  by (simp add: to_frame_def render_json serialize_raws)

section \<open>Whitespace around a value\<close>

lemma digit_not_ws: "digit c \<Longrightarrow> \<not> ws_char c"
  by (auto simp: digit_def ws_char_def)

lemma json_decimal: "integer_part i \<Longrightarrow> fraction f \<Longrightarrow> json_number (i @ f)"
  unfolding json_number_def exponent_def by (metis append_Nil append_Nil2 insertI1)

lemma number_ends:
  assumes "json_number s"
  shows "s \<noteq> [] \<and> \<not> ws_char (hd s) \<and> \<not> ws_char (last s)"
proof -
  obtain sg i f e where s: "s = sg @ i @ f @ e" "sg \<in> {[], ''-''}" "integer_part i" "fraction f" "exponent e"
    using assms unfolding json_number_def by blast
  have i: "i \<noteq> []" "digit (hd i)" "digit (last i)"
    using s(3) by (auto simp: integer_part_def list_all_iff)
  have f: "f \<noteq> [] \<Longrightarrow> digit (last f)" using s(4) by (auto simp: fraction_def list_all_iff)
  have e: "e \<noteq> [] \<Longrightarrow> digit (last e)" using s(5) by (auto simp: exponent_def list_all_iff)
  have "digit (last s)" using i f e by (cases "e = []"; cases "f = []") (simp_all add: s(1))
  moreover have "digit (hd s) \<or> hd s = CHR ''-''" using s(2) i by (auto simp: s(1))
  ultimately show ?thesis using s(1) i(1) digit_not_ws by (auto simp: ws_char_def)
qed

lemma value_ends: "json_value s \<Longrightarrow> s \<noteq> [] \<and> \<not> ws_char (hd s) \<and> \<not> ws_char (last s)"
  by (erule json_value.cases) (auto simp: json_string_def ws_char_def dest: number_ends [unfolded ws_char_def])

lemma dropWhile_blank: "blank a \<Longrightarrow> s \<noteq> [] \<Longrightarrow> \<not> ws_char (hd s) \<Longrightarrow> dropWhile ws_char (a @ s @ b) = s @ b"
  by (induction a) (auto simp: blank_def neq_Nil_conv)

lemma trim_padded:
  assumes "blank a" "blank b" "s \<noteq> []" "\<not> ws_char (hd s)" "\<not> ws_char (last s)"
  shows "trim (a @ s @ b) = s"
proof -
  have "blank (rev b)" using assms(2) by (simp add: blank_def list_all_iff)
  from dropWhile_blank [OF this, of "rev s" "[]"] assms show ?thesis
    by (simp add: trim_def dropWhile_blank hd_rev)
qed

lemma trim_split: "\<exists>a b. blank a \<and> blank b \<and> s = a @ trim s @ b"
proof -
  let ?r = "dropWhile ws_char s"
  have "blank (takeWhile ws_char s)" "blank (rev (takeWhile ws_char (rev ?r)))"
    by (auto simp: blank_def list_all_iff dest: set_takeWhileD)
  moreover have "?r = trim s @ rev (takeWhile ws_char (rev ?r))"
    unfolding trim_def by (metis rev_append rev_rev_ident takeWhile_dropWhile_id)
  then have "s = takeWhile ws_char s @ trim s @ rev (takeWhile ws_char (rev ?r))"
    by (metis takeWhile_dropWhile_id)
  ultimately show ?thesis by blast
qed

lemma ref_raw_value_ok: "raw_value_ok ref_raw_value"
  unfolding raw_value_ok_def
proof (intro allI iffI)
  fix s p assume "ref_raw_value s = Some p"
  then show "json_value p \<and> (\<exists>a b. blank a \<and> blank b \<and> s = a @ p @ b)"
    using trim_split [of s] by (auto simp: ref_raw_value_def split: if_splits)
next
  fix s p assume "json_value p \<and> (\<exists>a b. blank a \<and> blank b \<and> s = a @ p @ b)"
  then obtain a b where p: "json_value p" "blank a" "blank b" "s = a @ p @ b" by blast
  then have "trim s = p" using value_ends [OF p(1)] trim_padded by simp
  with p(1) show "ref_raw_value s = Some p" by (simp add: ref_raw_value_def)
qed

section \<open>A library that writes JSON\<close>

lemma of_char_nibble: "n < 16 \<Longrightarrow> (of_char (nibble n) :: nat) = (if n < 10 then 48 + n else 87 + n)"
  by (simp add: nibble_def of_char_of)

lemma nibble_hex: "n < 16 \<Longrightarrow> hex_digit (nibble n)"
  by (simp add: hex_digit_def digit_def of_char_nibble)

lemma nibble_inject: "m < 16 \<Longrightarrow> n < 16 \<Longrightarrow> nibble m = nibble n \<Longrightarrow> m = n"
proof -
  assume less: "m < 16" "n < 16" and "nibble m = nibble n"
  then have "(if m < 10 then 48 + m else 87 + m) = (if n < 10 then 48 + n else 87 + n)"
    using of_char_nibble [OF less(1)] of_char_nibble [OF less(2)] by metis
  with less show "m = n" by (simp split: if_splits)
qed

lemma of_char_split: "(of_char c :: nat) div 16 < 16"
  using nat_of_char_less_256 [of c] by linarith

lemma json_escape_body: "string_body (json_escape s)"
proof (induction s)
  case (Cons c s)
  have "string_body (CHR 0x5C # CHR ''u'' # [CHR ''0'', CHR ''0'', nibble (of_char c div 16), nibble (of_char c mod 16)] @ json_escape s)"
    using nibble_hex [OF of_char_split, of c] nibble_hex [of "of_char c mod 16"]
    by (intro Unicode Cons.IH) (simp_all add: hex_digit_def digit_def)
  then show ?case by (auto simp: plain_def intro: Plain Escape Cons.IH)
qed (simp add: string_body.Empty)

lemma json_escape_delimited:
  "json_escape s @ CHR 0x22 # x = json_escape t @ CHR 0x22 # y \<longleftrightarrow> s = t \<and> x = y"
proof (induction s arbitrary: t)
  case Nil
  show ?case by (cases t) auto
next
  case (Cons c s)
  have "c = d" if "nibble (of_char c div 16) = nibble (of_char d div 16)"
    "nibble (of_char c mod 16) = nibble (of_char d mod 16)" for d
  proof -
    have "(of_char c :: nat) = of_char d"
      using nibble_inject [OF of_char_split of_char_split that(1)] nibble_inject [OF _ _ that(2)]
      by (metis div_mod_decomp mod_less_divisor zero_less_numeral)
    then show ?thesis by (simp add: of_char_eq_iff)
  qed
  then show ?case by (cases t) (auto simp: Cons.IH)
qed

lemma digits_integer: "integer_part (digits n)"
proof -
  have digit: "digit (char_of (48 + n))" if "n < 10" for n :: nat
    using that by (simp add: digit_def)
  have "integer_part (digits n) \<and> (n \<noteq> 0 \<longrightarrow> hd (digits n) \<noteq> CHR ''0'')"
  proof (induction n rule: digits.induct)
    case (1 n)
    show ?case
    proof (cases "n < 10")
      case True
      then have "digits n = [char_of (48 + n)]" by (subst digits.simps) (simp del: digits.simps)
      moreover have "char_of (48 + n) \<noteq> CHR ''0''" if "n \<noteq> 0"
      proof
        assume "char_of (48 + n) = CHR ''0''"
        then have "of_char (char_of (48 + n) :: char) = (of_char CHR ''0'' :: nat)" by (rule arg_cong)
        with True that show False by (simp add: of_char_of)
      qed
      ultimately show ?thesis using True by (simp add: integer_part_def digit del: digits.simps)
    next
      case False
      then have "digits n = digits (n div 10) @ [char_of (48 + n mod 10)]"
        by (subst digits.simps) (simp del: digits.simps)
      moreover have "integer_part (digits (n div 10))" "hd (digits (n div 10)) \<noteq> CHR ''0''"
        using 1 False by (auto simp del: digits.simps)
      ultimately show ?thesis
        using digit [of "n mod 10"] by (auto simp: integer_part_def simp del: digits.simps)
    qed
  qed
  then show ?thesis by blast
qed

lemma digits_number: "json_number (digits n)"
  using json_decimal [OF digits_integer, of "[]" n] by (simp add: fraction_def del: digits.simps)

lemma json_serde_ok: "serde_ok (json_serde parse)" "writer_ok (json_serde parse)"
proof -
  have "inj (\<lambda>n :: u64. digits (unat n))"
    by (rule injI) (metis digits_val_digits word_unat_eq_iff)
  then show "serde_ok (json_serde parse)"
    by (simp add: serde_ok_def json_serde_def json_escape_delimited del: digits.simps)
  show "writer_ok (json_serde parse)"
    using json_escape_body by (auto simp: writer_ok_def json_serde_def json_string_def digits_number simp del: digits.simps)
qed

end
