(* ===== verification/Wire_Json.thy ===== *)
theory Wire_Json
  imports Session_Steps Json_Grammar
begin

text \<open>
  What is written to the sockets is JSON. The locale \<open>frame_kind\<close> is the contract of a property of frames
  that every frame has that the server makes of a message with good payloads; inside it, such a property
  is shown to hold of everything queued and everything written, in every state the server reaches while
  publishers and the snapshot source hand it good payloads. It is interpreted on the JSON grammar.
\<close>

section \<open>Good payloads\<close>

fun event_ok :: "(string \<Rightarrow> bool) \<Rightarrow> ('q, 's) sys_event \<Rightarrow> bool" where
  "event_ok V (EvPublish _ p) = V p"
| "event_ok V (EvPublishTo _ _ p) = V p"
| "event_ok V (EvSnapshots snap) = (\<forall>ch p. snap ch = Some p \<longrightarrow> V p)"
| "event_ok V _ = True"

text \<open>The steps of the server in which whatever is handed to it is good.\<close>

inductive fed_step ::
    "(string \<Rightarrow> bool) \<Rightarrow> serde \<Rightarrow> ('q, 'x) mpsc_scheme \<Rightarrow> ('s, 'y) semaphore_scheme \<Rightarrow> ('q, 's) sys \<Rightarrow> ('q, 's) sys \<Rightarrow> bool"
  for V S Q M where
  Fed: "event_ok V ev \<Longrightarrow> sys_exec S Q M ev s = Some s' \<Longrightarrow> fed_step V S Q M s s'"

definition snapshots_hold :: "(string \<Rightarrow> bool) \<Rightarrow> snapshot_source \<Rightarrow> bool" where
  "snapshots_hold V snap \<longleftrightarrow> (\<forall>ch p. snap ch = Some p \<longrightarrow> V p)"

section \<open>Where frames are\<close>

definition queues_hold :: "('q, 'x) mpsc_scheme \<Rightarrow> (frame \<Rightarrow> bool) \<Rightarrow> ('q, 's) shared \<Rightarrow> bool" where
  "queues_hold Q P st \<longleftrightarrow>
     (\<forall>i c f. map_of (connections (registry st)) i = Some c \<longrightarrow> f \<in> set (buffered (view Q (tx c))) \<longrightarrow> P f)"

definition wire_holds :: "(frame \<Rightarrow> bool) \<Rightarrow> message list \<Rightarrow> bool" where
  "wire_holds P ms \<longleftrightarrow> (\<forall>x. Text x \<in> set ms \<longrightarrow> P (Frame x))"

fun phase_holds :: "(frame \<Rightarrow> bool) \<Rightarrow> phase \<Rightarrow> bool" where
  "phase_holds P (Handling _ _ acts) = (\<forall>f. SendFrame f \<in> set acts \<longrightarrow> P f)"
| "phase_holds P _ = True"

definition task_holds :: "(frame \<Rightarrow> bool) \<Rightarrow> task \<Rightarrow> bool" where
  "task_holds P t \<longleftrightarrow> wire_holds P (wire t) \<and> phase_holds P (phase t)"

definition store_holds :: "('q, 'x) mpsc_scheme \<Rightarrow> (string \<Rightarrow> bool) \<Rightarrow> (frame \<Rightarrow> bool) \<Rightarrow> ('q, 's) shared \<Rightarrow> bool" where
  "store_holds Q V P st \<longleftrightarrow> queues_hold Q P st \<and> snapshots_hold V (snapshots st) \<and> 0 < send_queue (config st)"

definition sys_holds :: "('q, 'x) mpsc_scheme \<Rightarrow> (string \<Rightarrow> bool) \<Rightarrow> (frame \<Rightarrow> bool) \<Rightarrow> ('q, 's) sys \<Rightarrow> bool" where
  "sys_holds Q V P s \<longleftrightarrow> store_holds Q V P (srv s) \<and> (\<forall>t \<in> set (tasks s). task_holds P t)"

text \<open>A step keeps what holds of queues, snapshots and its task.\<close>

definition both_hold ::
    "('q, 'x) mpsc_scheme \<Rightarrow> (string \<Rightarrow> bool) \<Rightarrow> (frame \<Rightarrow> bool) \<Rightarrow> task \<times> ('q, 's) shared \<Rightarrow> bool" where
  "both_hold Q V P r \<longleftrightarrow> task_holds P (fst r) \<and> store_holds Q V P (snd r)"

lemma wire_holds_simps [simp]:
  "wire_holds P []"
  "wire_holds P (ms @ ms') \<longleftrightarrow> wire_holds P ms \<and> wire_holds P ms'"
  "wire_holds P (m # m' # ms) \<longleftrightarrow> wire_holds P [m] \<and> wire_holds P (m' # ms)"
  "wire_holds P [to_message f] \<longleftrightarrow> P f"
  "wire_holds P [Close]" "wire_holds P [WsPing p]" "wire_holds P [WsPong p]"
  by (auto simp: wire_holds_def) (cases f; auto)+

lemma queues_hold_from:
  assumes "queues_hold Q P st"
    and "\<And>i c'. map_of (connections (registry st')) i = Some c' \<Longrightarrow>
      \<exists>c. map_of (connections (registry st)) i = Some c \<and>
        (\<forall>f \<in> set (buffered (view Q (tx c'))). f \<in> set (buffered (view Q (tx c))) \<or> P f)"
  shows "queues_hold Q P st'"
  using assms unfolding queues_hold_def by blast

lemma queues_hold_same_tx:
  assumes "queues_hold Q P st"
    and "\<And>i c'. map_of (connections (registry st')) i = Some c' \<Longrightarrow>
      \<exists>c. map_of (connections (registry st)) i = Some c \<and> tx c' = tx c"
  shows "queues_hold Q P st'"
  by (rule queues_hold_from [OF assms(1)]) (use assms(2) in metis)

lemma queues_hold_deliver:
  assumes Q: "mpsc_ok Q" and st: "queues_hold Q P st" and f: "P f"
    and conn: "\<And>i c'. map_of (connections (registry st')) i = Some c' \<Longrightarrow>
      \<exists>c. map_of (connections (registry st)) i = Some c \<and> (c' = c \<or> c' = after_deliver Q f c)"
  shows "queues_hold Q P st'"
proof (rule queues_hold_from [OF st])
  fix i c' assume "map_of (connections (registry st')) i = Some c'"
  from conn [OF this] show "\<exists>c. map_of (connections (registry st)) i = Some c \<and>
      (\<forall>g \<in> set (buffered (view Q (tx c'))). g \<in> set (buffered (view Q (tx c))) \<or> P g)"
    using f by (auto simp: after_deliver_view [OF Q] split: if_splits)
qed

lemma store_holds_registry:
  "store_holds Q V P st \<Longrightarrow> queues_hold Q P (st\<lparr>registry := reg\<rparr>) \<Longrightarrow> store_holds Q V P (st\<lparr>registry := reg\<rparr>)"
  by (simp add: store_holds_def)

lemma store_queues: "store_holds Q V P st \<Longrightarrow> queues_hold Q P st"
  by (simp add: store_holds_def)

lemma store_reply:
  assumes "mpsc_ok Q" and "store_holds Q V P st" and "P f"
  shows "store_holds Q V P (reply Q i f st)"
  unfolding reply_def
  by (rule store_holds_registry [OF assms(2)], rule queues_hold_deliver [OF assms(1) store_queues [OF assms(2)] assms(3)])
    (auto simp: Registry_send_def deliver_eq hash_simps split: option.splits if_splits)

lemma store_publish:
  assumes "mpsc_ok Q" and "store_holds Q V P st" and "P f" and "registry_inv (registry st)"
  shows "store_holds Q V P (st\<lparr>registry := snd (Registry_publish Q ch f (registry st))\<rparr>)"
  by (rule store_holds_registry [OF assms(2)], rule queues_hold_deliver [OF assms(1) store_queues [OF assms(2)] assms(3)])
    (auto simp: publish_map_of [OF assms(4)] split: if_splits)

lemma store_broadcast:
  assumes "mpsc_ok Q" and "store_holds Q V P st" and "P f"
  shows "store_holds Q V P (st\<lparr>registry := snd (Registry_broadcast Q f (registry st))\<rparr>)"
  by (rule store_holds_registry [OF assms(2)], rule queues_hold_deliver [OF assms(1) store_queues [OF assms(2)] assms(3)])
    (auto simp: broadcast_eq map_of_map_snd)

lemma store_subscribe:
  assumes "store_holds Q V P st"
  shows "store_holds Q V P (st\<lparr>registry := snd (Registry_subscribe i chs mx (registry st))\<rparr>)"
  by (rule store_holds_registry [OF assms], rule queues_hold_same_tx [OF store_queues [OF assms]])
    (auto dest: subscribe_map_of)

lemma store_unsubscribe:
  assumes "store_holds Q V P st"
  shows "store_holds Q V P (st\<lparr>registry := snd (Registry_unsubscribe i chs (registry st))\<rparr>)"
  by (rule store_holds_registry [OF assms], rule queues_hold_same_tx [OF store_queues [OF assms]])
    (auto dest: unsubscribe_map_of)

lemma store_set_tx:
  assumes "store_holds Q V P st" and "\<And>q. set (buffered (view Q (g q))) \<subseteq> set (buffered (view Q q))"
  shows "store_holds Q V P (set_tx i g st)"
proof -
  have "queues_hold Q P (set_tx i g st)"
    by (rule queues_hold_from [OF store_queues [OF assms(1)]])
      (auto simp: map_of_set_tx split: if_splits dest!: subsetD [OF assms(2)])
  moreover have "snapshots (set_tx i g st) = snapshots st"
    by (simp add: set_tx_def Let_def split: option.splits)
  ultimately show ?thesis using assms(1) by (simp add: store_holds_def set_tx_frame)
qed

lemma store_metrics:
  "store_holds Q V P st \<Longrightarrow> store_holds Q V P (count_heartbeat_timeout st)"
  "store_holds Q V P st \<Longrightarrow> store_holds Q V P (refuse_full st)"
  by (simp_all add: store_holds_def queues_hold_def count_heartbeat_timeout_def refuse_full_def Let_def)

lemma store_slots: "store_holds Q V P (st\<lparr>slots := n\<rparr>) = store_holds Q V P st"
  by (simp add: store_holds_def queues_hold_def)

section \<open>Properties of frames that the server keeps\<close>

locale frame_kind =
  fixes S :: serde and V :: "string \<Rightarrow> bool" and P :: "frame \<Rightarrow> bool"
  assumes made: "\<forall>p \<in> set (payloads m). V p \<Longrightarrow> P (to_frame S m)"
begin

lemma store_handle_begin:
  assumes st: "store_holds Q V P st" and h: "handle_begin S m i cl st = (acts, st')"
  shows "store_holds Q V P st' \<and> (\<forall>f. SendFrame f \<in> set acts \<longrightarrow> P f)"
proof (cases "from_str S m")
  case (Inl e)
  then show ?thesis using st h by (auto simp: handle_begin_def made)
next
  case (Inr x)
  show ?thesis
  proof (cases x)
    case (Subscribe chs)
    obtain added over reg where sub: "Registry_subscribe i (allowed_of cl st chs) (max_subscriptions (config st)) (registry st) =
        ((added, over), reg)"
      by (metis prod.exhaust)
    have "store_holds Q V P (st\<lparr>registry := reg\<rparr>)"
      using store_subscribe [OF st, of i "allowed_of cl st chs" "max_subscriptions (config st)"] sub by simp
    then show ?thesis using h by (auto simp: handle_begin_def Inr Subscribe subscribe_begin_eq sub made)
  next
    case (Unsubscribe chs)
    then show ?thesis
      using h store_unsubscribe [OF st, of i chs] by (auto simp: handle_begin_def Inr made split: prod.splits)
  qed (use st h in \<open>auto simp: handle_begin_def Inr made\<close>)
qed

lemma store_act_step:
  assumes Q: "mpsc_ok Q" and st: "store_holds Q V P st" and a: "\<And>f. a = SendFrame f \<Longrightarrow> P f"
    and h: "act_step S Q i a st = (pending, st')"
  shows "store_holds Q V P st' \<and> (\<forall>f. SendFrame f \<in> set pending \<longrightarrow> P f)"
proof (cases a)
  case (SendFrame f)
  then show ?thesis using h a store_reply [OF Q st, of f i] by (auto simp: act_step_def)
next
  case (SendSnapshot ch)
  have "V p" if "snapshots st ch = Some p" for p using st that by (simp add: store_holds_def snapshots_hold_def)
  then show ?thesis using h st SendSnapshot by (auto simp: act_step_def made split: option.splits)
qed

lemma store_on_inbound:
  assumes Q: "mpsc_ok Q" and st: "store_holds Q V P st" and w: "wire_holds P (written ss)"
    and m: "\<And>x. m \<noteq> Text x" and h: "on_inbound S Q i cl m e ss st = (c, ss', st')"
  shows "store_holds Q V P st' \<and> wire_holds P (written ss')"
proof (cases m)
  case (WsPing p)
  with h st w show ?thesis
    using write_msg_written [of "WsPong p" e ss c ss'] by (auto simp: on_inbound_def split: prod.splits)
next
  case (Binary d)
  then show ?thesis using h st w by (auto simp: on_inbound_def made intro!: store_reply [OF Q])
qed (use h st w m in \<open>auto simp: on_inbound_def\<close>)

lemma store_select_body:
  assumes Q: "mpsc_ok Q" and st: "store_holds Q V P st" and w: "wire_holds P (written ss)"
    and ev: "\<And>x. ev \<noteq> Inbound (Some (Inr (Text x)))" "\<And>f. ev = Outbound (Some f) \<Longrightarrow> P f"
    and h: "select_body S Q i cl ev e ss st = (c, ss', st')"
  shows "store_holds Q V P st' \<and> wire_holds P (written ss')"
proof (cases ev)
  case (Outbound x)
  with h st w ev(2) show ?thesis
    by (cases x) (auto simp: select_body_def split: prod.splits dest!: write_msg_written)
next
  case (Inbound x)
  show ?thesis
  proof (cases "\<exists>m. x = Some (Inr m)")
    case True
    then obtain m where x: "x = Some (Inr m)" by blast
    then have "\<And>y. m \<noteq> Text y" using ev(1) Inbound by auto
    from store_on_inbound [OF Q st _ this, of "ss\<lparr>last_seen := now e\<rparr>" i cl e c ss' st'] h w
    show ?thesis by (simp add: select_body_def Inbound x)
  next
    case False
    with h st w show ?thesis by (auto simp: select_body_def Inbound Let_def split: option.splits sum.splits)
  qed
next
  case Tick
  with h st w show ?thesis
    using write_msg_written [of "WsPing []" e ss c ss'] close_sink_written [of HeartbeatTimeout e ss c ss']
    by (auto simp: select_body_def store_metrics split: prod.splits if_splits)
qed

lemma both_hold_after_branch:
  assumes "mpsc_ok Q" and "store_holds Q V P st" and "wire_holds P (written ss)"
    and "\<And>n. phase_holds P (nxt i n)"
  shows "both_hold Q V P (after_branch Q i nxt t (c, ss, st))"
  using assms store_set_tx [OF assms(2), of "drop_rx Q" i] mpsc_drop_rx(3) [OF assms(1)]
  by (cases c) (auto simp: after_branch_def leave_session_def Let_def both_hold_def task_holds_def)

lemma wake_event_holds:
  assumes Q: "mpsc_ok Q" and st: "store_holds Q V P st" and w: "wake_event Q i wk st = Some (ev, st')"
  shows "store_holds Q V P st' \<and> (\<forall>f. ev = Outbound (Some f) \<longrightarrow> P f)"
proof (cases wk)
  case WakeOutbound
  show ?thesis
  proof (cases "map_of (connections (registry st)) i")
    case (Some c)
    with w WakeOutbound obtain f where f: "fst (recv Q (tx c)) = Some f" "ev = Outbound (Some f)"
      "st' = set_tx i (\<lambda>q. snd (recv Q q)) st"
      by auto
    then have "f \<in> set (buffered (view Q (tx c)))"
      by (auto simp: mpsc_recv [OF Q] chan_recv_def split: list.splits)
    then have "P f" using st Some by (auto simp: store_holds_def queues_hold_def)
    moreover have "store_holds Q V P st'"
      unfolding f(3) by (rule store_set_tx [OF st]) (auto simp: mpsc_recv [OF Q] chan_recv_def split: list.splits)
    ultimately show ?thesis using f(2) by simp
  qed (use w WakeOutbound st in auto)
qed (use w st in auto)

lemma both_hold_running:
  assumes Q: "mpsc_ok Q" and both: "both_hold Q V P (t, st)" and t: "who t = Some cl" "phase t = Running i ls"
    and h: "connection_step S Q M inp t st = Some r"
  shows "both_hold Q V P r"
proof -
  have st: "store_holds Q V P st" and w: "wire_holds P (wire t)"
    using both by (simp_all add: both_hold_def task_holds_def)
  show ?thesis
  proof (cases inp)
    case (Select wk e)
    show ?thesis
    proof (cases "\<exists>msg. wk = WakeInbound (Some (Inr (Text msg)))")
      case True
      then obtain msg where wk: "wk = WakeInbound (Some (Inr (Text msg)))" ..
      obtain acts st' where hb: "handle_begin S msg i cl st = (acts, st')" by (metis prod.exhaust)
      then have "r = (t\<lparr>phase := Handling i (now e) acts\<rparr>, st')"
        using h t by (simp add: connection_step_def on_running_def Select wk)
      with store_handle_begin [OF st hb] w show ?thesis by (simp add: both_hold_def task_holds_def)
    next
      case False
      obtain ev st' where ev: "wake_event Q i wk st = Some (ev, st')" using select_step_wakes [OF t h [unfolded Select]] by blast
      obtain c ss st'' where b: "select_body S Q i cl ev e \<lparr>last_seen = ls, written = wire t\<rparr> st' = (c, ss, st'')"
        by (metis prod.exhaust)
      have nt: "ev \<noteq> Inbound (Some (Inr (Text x)))" for x using False ev by (cases wk) (auto split: option.splits)
      have "r = after_branch Q i Checking t (c, ss, st'')"
        using select_step [OF t ev, of S M e] False h b by (simp add: Select)
      moreover have "store_holds Q V P st'' \<and> wire_holds P (written ss)"
        using wake_event_holds [OF Q st ev] w by (intro store_select_body [OF Q _ _ nt _ b]) auto
      ultimately show ?thesis by (auto intro!: both_hold_after_branch [OF Q])
    qed
  next
    case Panic
    then have "r = leave_session Q i Panicked t st" using h t by (simp add: connection_step_def on_running_def)
    then show ?thesis
      using w store_set_tx [OF st, of "drop_rx Q" i] mpsc_drop_rx(3) [OF Q]
      by (simp add: both_hold_def task_holds_def leave_session_def)
  qed (use h t in \<open>simp_all add: connection_step_def on_running_def\<close>)
qed

lemma both_hold_handling:
  assumes Q: "mpsc_ok Q" and both: "both_hold Q V P (t, st)" and t: "phase t = Handling i ls acts"
    and h: "on_handling S Q i ls acts inp t st = Some r"
  shows "both_hold Q V P r"
proof -
  have st: "store_holds Q V P st" and w: "wire_holds P (wire t)" and acts: "\<forall>f. SendFrame f \<in> set acts \<longrightarrow> P f"
    using both t by (simp_all add: both_hold_def task_holds_def)
  show ?thesis
  proof (cases inp)
    case Act
    show ?thesis
    proof (cases acts)
      case Nil
      then show ?thesis using h Act st w by (auto simp: on_handling_def both_hold_def task_holds_def)
    next
      case (Cons a rest)
      obtain pending st' where s: "act_step S Q i a st = (pending, st')" by (metis prod.exhaust)
      have "store_holds Q V P st' \<and> (\<forall>f. SendFrame f \<in> set pending \<longrightarrow> P f)"
        by (rule store_act_step [OF Q st _ s]) (use acts Cons in auto)
      then show ?thesis using h Act Cons s w acts by (auto simp: on_handling_def both_hold_def task_holds_def)
    qed
  next
    case Panic
    then show ?thesis
      using h w store_set_tx [OF st, of "drop_rx Q" i] mpsc_drop_rx(3) [OF Q]
      by (auto simp: on_handling_def both_hold_def task_holds_def leave_session_def)
  qed (use h in \<open>simp_all add: on_handling_def\<close>)
qed

lemma both_hold_checking:
  assumes Q: "mpsc_ok Q" and both: "both_hold Q V P (t, st)" and h: "on_checking Q i ls inp t st = Some r"
  shows "both_hold Q V P r"
proof (cases inp)
  case (Check e)
  let ?ss = "\<lparr>last_seen = ls, written = wire t\<rparr>"
  obtain c ss where cs: "close_sink TooSlow e ?ss = (c, ss)" by (metis prod.exhaust)
  have st: "store_holds Q V P st" and w: "wire_holds P (wire t)"
    using both by (simp_all add: both_hold_def task_holds_def)
  have "wire_holds P (written ss)" using close_sink_written [OF cs] w by auto
  then have "both_hold Q V P (after_branch Q i Running t (c, ss, st))"
    by (intro both_hold_after_branch [OF Q st]) simp_all
  moreover have "both_hold Q V P (t\<lparr>phase := Running i ls\<rparr>, st)" using st w by (simp add: both_hold_def task_holds_def)
  ultimately show ?thesis using h Check cs by (auto simp: on_checking_def Let_def split: if_splits)
qed (use h in \<open>simp_all add: on_checking_def\<close>)

lemma both_hold_local:
  assumes "both_hold Q V P (t, st)"
  shows "local_step (on_handshake inp t) st = Some r \<Longrightarrow> both_hold Q V P r"
    and "local_step (on_authenticating S v inp t) st = Some r \<Longrightarrow> both_hold Q V P r"
    and "local_step (on_refusing S e inp t) st = Some r \<Longrightarrow> both_hold Q V P r"
    and "local_step (on_acking S cl inp t) st = Some r \<Longrightarrow> both_hold Q V P r"
  using assms
  by (auto simp: local_step_def on_handshake_def on_authenticating_def on_refusing_def on_acking_def Let_def
      both_hold_def task_holds_def made split: input.splits timed.splits sum.splits)

lemma both_hold_registry:
  assumes Q: "mpsc_ok Q" and both: "both_hold Q V P (t, st)"
  shows "on_acked Q cl inp t st = Some r \<Longrightarrow> both_hold Q V P r"
    and "Registered_drop i oc inp t st = Some r \<Longrightarrow> both_hold Q V P r"
    and "permit_drop M inp t st = Some r \<Longrightarrow> both_hold Q V P r"
proof -
  have st: "store_holds Q V P st" and sq: "0 < send_queue (config st)"
    using both by (simp_all add: both_hold_def store_holds_def)
  have new: "queues_hold Q P (st\<lparr>registry := reg\<rparr>)"
    if "send_queue (config st) \<le> MAX_PERMITS"
      and add: "Registry_add sub (new_channel Q (send_queue (config st))) (registry st) = (i, reg)" for sub i reg
    using store_queues [OF st]
    by (auto simp: queues_hold_def add_fields [OF add] hash_simps mpsc_new [OF Q sq that(1)] split: if_splits)
  show "on_acked Q cl inp t st = Some r \<Longrightarrow> both_hold Q V P r"
    using both new
    by (cases r) (auto simp: both_hold_def task_holds_def store_holds_def elim!: on_acked_cases)
  have "queues_hold Q P (st\<lparr>registry := Registry_remove i (registry st)\<rparr>)"
    by (rule queues_hold_same_tx [OF store_queues [OF st]]) (auto dest: remove_map_of)
  then show "Registered_drop i oc inp t st = Some r \<Longrightarrow> both_hold Q V P r"
    using both by (auto simp: Registered_drop_def both_hold_def task_holds_def store_holds_def split: input.splits)
  show "permit_drop M inp t st = Some r \<Longrightarrow> both_hold Q V P r"
    using both by (auto simp: permit_drop_def both_hold_def task_holds_def store_holds_def queues_hold_def split: input.splits)
qed

lemma both_hold_step:
  assumes Q: "mpsc_ok Q" and both: "both_hold Q V P (t, st)" and h: "connection_step S Q M inp t st = Some r"
  shows "both_hold Q V P r"
proof (cases "who t")
  case None
  with h show ?thesis
    by (cases "phase t")
      (simp_all add: connection_step_def both_hold_local [OF both] both_hold_registry [OF Q both])
next
  case (Some cl)
  with h show ?thesis
    by (cases "phase t")
      (auto simp: connection_step_def dest: both_hold_local [OF both] both_hold_registry [OF Q both]
        both_hold_handling [OF Q both] both_hold_checking [OF Q both]
        intro: both_hold_running [OF Q both _ _ h])
qed

lemma sys_holds_task:
  assumes "mpsc_ok Q" and "sys_holds Q V P s" and "k < length (tasks s)"
    and "connection_step S Q M inp (tasks s ! k) (srv s) = Some (t, st)"
  shows "sys_holds Q V P (s\<lparr>srv := st, tasks := (tasks s)[k := t]\<rparr>)"
proof -
  have "both_hold Q V P (t, st)"
    using assms(2,3) by (intro both_hold_step [OF assms(1) _ assms(4)]) (simp add: both_hold_def sys_holds_def)
  then show ?thesis using assms(2) by (auto simp: both_hold_def sys_holds_def dest: subsetD [OF set_update_subset_insert])
qed

lemma sys_holds_exec:
  assumes Q: "mpsc_ok Q" and inv: "registry_inv (registry (srv s))" and s: "sys_holds Q V P s"
    and ev: "event_ok V ev" and h: "sys_exec S Q M ev s = Some s'"
  shows "sys_holds Q V P s'"
proof -
  have st: "store_holds Q V P (srv s)" using s by (simp add: sys_holds_def)
  have made': "P (to_frame S (Data ch p))" if "V p" for ch p using made [of "Data ch p"] that by simp
  have made'': "P (to_frame S (Resync chs))" for chs using made [of "Resync chs"] by simp
  show ?thesis
  proof (cases ev)
    case (EvAccept stream)
    with h s show ?thesis
      by (auto simp: serve_accept_def sys_holds_def store_metrics store_slots new_task_def task_holds_def
          split: if_splits option.splits)
  next
    case EvAbort
    with h s show ?thesis by (auto simp: Accepting_drop_def sys_holds_def)
  next
    case (EvTask k inp)
    with h show ?thesis by (auto split: if_splits intro: sys_holds_task [OF Q s])
  next
    case (EvPublish ch p)
    with h s ev show ?thesis
      by (auto simp: Server_publish_def split_beta Let_def sys_holds_def made' intro!: store_publish [OF Q _ _ inv])
  next
    case (EvPublishTo i ch p)
    with h s ev show ?thesis by (auto simp: sys_holds_def made' split: if_splits intro!: store_reply [OF Q])
  next
    case (EvResyncTo i chs)
    with h s show ?thesis by (auto simp: sys_holds_def made'' intro!: store_reply [OF Q])
  next
    case EvResyncAll
    with h s show ?thesis
      by (auto simp: Server_resync_all_def split_beta Let_def sys_holds_def made'' intro!: store_broadcast [OF Q])
  next
    case (EvResyncOn chs ch)
    with h s show ?thesis
      by (auto simp: resync_on_def sys_holds_def made'' split: if_splits intro!: store_publish [OF Q _ _ inv])
  next
    case (EvSnapshots snap)
    with h s ev show ?thesis
      by (auto simp: sys_holds_def store_holds_def queues_hold_def snapshots_hold_def)
  qed
qed

lemma sys_holds_fed:
  assumes Q: "mpsc_ok Q" and inv: "registry_inv (registry (srv s))" and s: "sys_holds Q V P s"
    and step: "fed_step V S Q M s s'"
  shows "sys_holds Q V P s'"
  using step by cases (rule sys_holds_exec [OF Q inv s])

end

section \<open>JSON\<close>

definition json_frame :: "serde \<Rightarrow> frame \<Rightarrow> bool" where
  "json_frame S f \<longleftrightarrow> (writer_ok S \<longrightarrow> json_text (as_str f))"

interpretation json: frame_kind S json_text "json_frame S" for S
  by unfold_locales (simp add: json_frame_def to_frame_json)

lemma fed_step_server: "fed_step V S Q M s s' \<Longrightarrow> server_step S Q M s s'"
  by (erule fed_step.cases) (auto dest: sys_exec_step)

lemma started_holds:
  assumes "started M b s" and "snapshots_hold V (b_snapshots b)"
  shows "sys_holds Q V P s"
proof -
  obtain mp listen st addr where bind: "Builder_bind mp M listen b = Inr (st, addr :: string)" and s: "s = serving st"
    using assms(1) unfolding started_def by blast
  have "registry st = Registry_new Metrics_default" "snapshots st = b_snapshots b" "config st = b_config b"
    "Config_validate mp (b_config b) = Inr ()"
    using bind by (auto simp: Builder_bind_def split: sum.splits)
  then show ?thesis
    using assms(2) by (auto simp: s serving_def sys_holds_def store_holds_def queues_hold_def Registry_new_def
        Config_validate_def split: if_splits)
qed

lemma fed_holds:
  assumes "serde_ok S" and "mpsc_ok Q" and "sem_ok M" and "started M b s0" and "snapshots_hold json_text (b_snapshots b)"
    and "(fed_step json_text S Q M)\<^sup>*\<^sup>* s0 s"
  shows "reachable S Q M b s \<and> sys_holds Q json_text (json_frame S) s"
  using assms(6)
proof (induction rule: rtranclp_induct)
  case base
  show ?case using assms(4,5) by (auto intro: reachable.Bound started_holds)
next
  case (step s s')
  have "registry_inv (registry (srv s))"
    using reachable_inv [OF assms(1-3)] step.IH by (auto simp: sys_inv_def)
  with step show ?case
    using json.sys_holds_fed [OF assms(2)] by (blast intro: reachable.Step fed_step_server)
qed

text \<open>The run of \<open>demo_events\<close> with a library that writes JSON.\<close>

definition json_demo_serde :: serde where
  "json_demo_serde = json_serde (from_str demo_serde)"

definition json_demo_wire :: "message list" where
  "json_demo_wire = map (\<lambda>m. to_message (to_frame json_demo_serde m))
     [Authenticated ''alice'', Subscribed [''t'', ''tu''] [\<lparr>channel = ''private'', reason = ''invalid''\<rparr>,
        \<lparr>channel = ''u'', reason = ''unauthorized''\<rparr>, \<lparr>channel = ''tv'', reason = ''limit''\<rparr>],
      Data ''tu'' ''8'', Snapshot ''tu'' ''7'']"

lemma sys_run_fed:
  "list_all (event_ok V) evs \<Longrightarrow> sys_run S Q M evs s = Some s' \<Longrightarrow> (fed_step V S Q M)\<^sup>*\<^sup>* s s'"
  by (induction evs arbitrary: s)
    (auto split: option.splits intro: converse_rtranclp_into_rtranclp fed_step.Fed)

lemma json_demo:
  "list_all (event_ok json_text) demo_events" "snapshots_hold json_text (b_snapshots demo_builder)"
  "map_option (\<lambda>s. map wire (tasks s)) (sys_run json_demo_serde ref_mpsc ref_sem demo_events demo_start) =
     Some [json_demo_wire]"
proof -
  have "json_text [c]" if "digit c" for c
    using json_decimal [of "[c]" "[]"] that
    by (auto simp: integer_part_def fraction_def intro: json_text_value Number)
  then have "json_text ''7''" "json_text ''8''" by (simp_all add: digit_def)
  then show "list_all (event_ok json_text) demo_events" "snapshots_hold json_text (b_snapshots demo_builder)"
    by (simp_all add: demo_events_def demo_builder_def snapshots_hold_def)
  have "from_str json_demo_serde = from_str demo_serde" by (simp add: json_demo_serde_def json_serde_def)
  then show "map_option (\<lambda>s. map wire (tasks s)) (sys_run json_demo_serde ref_mpsc ref_sem demo_events demo_start) =
      Some [json_demo_wire]"
    by (simp add: json_demo_wire_def demo_defs demo_eval)
qed

section \<open>Properties\<close>

text \<open>
  C16: Every text the server writes to any socket is a JSON text, whatever the clients send and however
  the tasks and publishers interleave, provided that the payloads handed to it are JSON, as the type
  \<open>RawValue\<close> promises: no frame is ever cut, joined with another or built around an unescaped string.
\<close>

theorem every_text_written_is_json:
  assumes "serde_ok S" and "writer_ok S" and "mpsc_ok Q" and "sem_ok M" and "started M b s0"
    and "snapshots_hold json_text (b_snapshots b)" and "(fed_step json_text S Q M)\<^sup>*\<^sup>* s0 s"
    and "t \<in> set (tasks s)" and "Text x \<in> set (wire t)"
  shows "json_text x"
proof -
  have "sys_holds Q json_text (json_frame S) s" using fed_holds [OF assms(1,3-7)] by simp
  then have "wire_holds (json_frame S) (wire t)" using assms(8) by (simp add: sys_holds_def task_holds_def)
  with assms(2,9) show ?thesis by (auto simp: wire_holds_def json_frame_def)
qed

theorem every_text_written_is_json_witness:
  "\<exists>s t. sys_run json_demo_serde ref_mpsc ref_sem demo_events demo_start = Some s \<and> t \<in> set (tasks s) \<and>
     to_message (to_frame json_demo_serde (Data ''tu'' ''8'')) \<in> set (wire t) \<and>
     json_text (as_str (to_frame json_demo_serde (Data ''tu'' ''8'')))"
proof -
  from json_demo(3) obtain s where run: "sys_run json_demo_serde ref_mpsc ref_sem demo_events demo_start = Some s"
    and w: "map wire (tasks s) = [json_demo_wire]"
    by (cases "sys_run json_demo_serde ref_mpsc ref_sem demo_events demo_start") simp_all
  let ?f = "to_frame json_demo_serde (Data ''tu'' ''8'')"
  obtain t where t: "t \<in> set (tasks s)" "wire t = json_demo_wire" using w by (cases "tasks s") simp_all
  have m: "to_message ?f \<in> set (wire t)" unfolding t(2) by (simp add: json_demo_wire_def)
  then have x: "Text (as_str ?f) \<in> set (wire t)" by (cases ?f) simp
  have "json_text (as_str ?f)"
    by (rule every_text_written_is_json [OF _ _ ref_mpsc_ok ref_sem_ok demo_started json_demo(2)
      sys_run_fed [OF json_demo(1) run] t(1) x]) (simp_all add: json_demo_serde_def json_serde_ok)
  with run t(1) m show ?thesis by (intro exI conjI)
qed

end
