(* ===== verification/Gateway.thy ===== *)
theory Gateway
  imports Outcry Wire_Json
begin

text \<open>
  The program the crate ships as an example, and the feed it is run with: \<^verbatim>\<open>src/examples/gateway.rs\<close> and
  \<^verbatim>\<open>src/examples/synthetic_feed.rs\<close>. The gateway reads frames \<open>channel\n{json}\<close> from the shared-memory queue,
  remembers the last payload of each channel for new subscribers, and publishes.

  \<^verbatim>\<open>str::from_utf8\<close> and \<^verbatim>\<open>str::split_once\<close> are modelled on bytes; \<^verbatim>\<open>RawValue::from_string\<close> is the
  parameter \<open>raw\<close>, with \<open>raw_value_ok\<close> for what it is documented to do. The feed's clock, the text of its
  price and the outcome of writing to the queue are input. The \<^verbatim>\<open>LastValue\<close> that closure and server share
  is the decoder's state, and the server's snapshot source after every turn of the thread.
\<close>

section \<open>Text\<close>

definition byte_in :: "nat \<Rightarrow> nat \<Rightarrow> char \<Rightarrow> bool" where
  "byte_in lo hi c \<longleftrightarrow> lo \<le> of_char c \<and> of_char c \<le> hi"

text \<open>The well-formed sequences of two, three and four bytes (Unicode, table 3-7).\<close>

definition two_bytes :: "char \<Rightarrow> char \<Rightarrow> bool" where
  "two_bytes a b \<longleftrightarrow> byte_in 0xC2 0xDF a \<and> byte_in 0x80 0xBF b"

definition three_bytes :: "char \<Rightarrow> char \<Rightarrow> char \<Rightarrow> bool" where
  "three_bytes a b c \<longleftrightarrow> byte_in 0x80 0xBF c \<and>
     (byte_in 0xE0 0xE0 a \<and> byte_in 0xA0 0xBF b \<or>
      (byte_in 0xE1 0xEC a \<or> byte_in 0xEE 0xEF a) \<and> byte_in 0x80 0xBF b \<or>
      byte_in 0xED 0xED a \<and> byte_in 0x80 0x9F b)"

definition four_bytes :: "char \<Rightarrow> char \<Rightarrow> char \<Rightarrow> char \<Rightarrow> bool" where
  "four_bytes a b c d \<longleftrightarrow> byte_in 0x80 0xBF c \<and> byte_in 0x80 0xBF d \<and>
     (byte_in 0xF0 0xF0 a \<and> byte_in 0x90 0xBF b \<or>
      byte_in 0xF1 0xF3 a \<and> byte_in 0x80 0xBF b \<or>
      byte_in 0xF4 0xF4 a \<and> byte_in 0x80 0x8F b)"

fun utf8 :: "string \<Rightarrow> bool" where
  "utf8 [] = True"
| "utf8 (a # s) =
     (if byte_in 0 0x7F a then utf8 s
      else case s of
        [] \<Rightarrow> False
      | b # s2 \<Rightarrow>
          if two_bytes a b then utf8 s2
          else (case s2 of
                  [] \<Rightarrow> False
                | c # s3 \<Rightarrow>
                    if three_bytes a b c then utf8 s3
                    else (case s3 of [] \<Rightarrow> False | d # s4 \<Rightarrow> four_bytes a b c d \<and> utf8 s4)))"

definition from_utf8 :: "string \<Rightarrow> string option" where
  "from_utf8 bytes = (if utf8 bytes then Some bytes else None)"

definition split_once :: "char \<Rightarrow> string \<Rightarrow> (string \<times> string) option" where
  "split_once sep s =
     (case dropWhile (\<lambda>c. c \<noteq> sep) s of [] \<Rightarrow> None | _ # rest \<Rightarrow> Some (takeWhile (\<lambda>c. c \<noteq> sep) s, rest))"

section \<open>The gateway\<close>

definition SharedLastValue_snapshot :: "last_value \<Rightarrow> snapshot_source" where
  "SharedLastValue_snapshot lv ch = LastValue_snapshot lv ch"

definition gateway_decode ::
    "(string \<Rightarrow> string option) \<Rightarrow> last_value \<Rightarrow> string \<Rightarrow> decoded option \<times> last_value" where
  "gateway_decode raw lv bytes =
     (case from_utf8 bytes of
        None \<Rightarrow> (None, lv)
      | Some s \<Rightarrow>
          (case split_once (CHR 0x0A) s of
             None \<Rightarrow> (None, lv)
           | Some (ch, js) \<Rightarrow>
               (case raw js of
                  None \<Rightarrow> (None, lv)
                | Some p \<Rightarrow> (Some \<lparr>on_channel = ch, payload = p\<rparr>, LastValue_record ch p lv))))"

definition gateway_idle :: idle where
  "gateway_idle = Sleep 200000"

definition gateway_builder :: builder where
  "gateway_builder =
     Builder_heartbeat (from_secs 15) (from_secs 45)
       (Builder_snapshots (SharedLastValue_snapshot LastValue_new)
         (Builder_validator (StaticToken_validate (StaticToken_new ''demo'' ''demo-user'')) Server_builder))"

record ('q, 's) gateway =
  gw_sys :: "('q, 's) sys"
  gw_source :: "last_value source"
  gw_thread :: source_ctl
  gw_life :: life

text \<open>\<^verbatim>\<open>main\<close> up to the wait for the signal, from the outcomes of opening the queue and of the listener.\<close>

definition gateway_main ::
    "string + unit \<Rightarrow> nat \<Rightarrow> ('s, 'x) semaphore_scheme \<Rightarrow> (unit \<Rightarrow> string + string) \<Rightarrow> string + ('q, 's) gateway" where
  "gateway_main queue max_permits M listen =
     (case queue of
        Inl e \<Rightarrow> Inl (''open /dev/shm/ws-fanout-demo: '' @ e @ '' '' @ [CHR 0xE2, CHR 0x80, CHR 0x94] @
                       '' is synthetic_feed running?'')
      | Inr _ \<Rightarrow>
          (case Builder_bind max_permits M listen gateway_builder of
             Inl e \<Rightarrow> Inl (to_string e)
           | Inr (st, addr) \<Rightarrow>
               Inr \<lparr>gw_sys = serving st, gw_source = new_source LastValue_new, gw_thread = Looping,
                    gw_life = source_spawn bound\<rparr>))"

text \<open>A turn of the source thread, or an event of the network: nobody else publishes.\<close>

datatype ('q, 's) gateway_event = SourceTurn nat read_result | Network "('q, 's) sys_event"

fun of_network :: "('q, 's) sys_event \<Rightarrow> bool" where
  "of_network (EvAccept _) = True"
| "of_network (EvTask _ _) = True"
| "of_network _ = False"

fun gateway_exec ::
    "serde \<Rightarrow> ('q, 'x) mpsc_scheme \<Rightarrow> ('s, 'y) semaphore_scheme \<Rightarrow> (string \<Rightarrow> string option) \<Rightarrow>
     ('q, 's) gateway_event \<Rightarrow> ('q, 's) gateway \<Rightarrow> ('q, 's) gateway option" where
  "gateway_exec S Q M raw (SourceTurn count res) g =
     (if gw_thread g \<noteq> Looping then None
      else if 1 < count
      then (case on_read S Q (gateway_decode raw) gateway_idle res (gw_source g) (srv (gw_sys g)) of
              (ctl, _, src, sh) \<Rightarrow>
                Some (g\<lparr>gw_sys := (gw_sys g)\<lparr>srv := sh\<lparr>snapshots := SharedLastValue_snapshot (decoder src)\<rparr>\<rparr>,
                        gw_source := src, gw_thread := ctl\<rparr>))
      else Some (g\<lparr>gw_thread := Stopped\<rparr>))"
| "gateway_exec S Q M raw (Network ev) g =
     (if of_network ev then map_option (\<lambda>s. g\<lparr>gw_sys := s\<rparr>) (sys_exec S Q M ev (gw_sys g)) else None)"

fun gateway_run ::
    "serde \<Rightarrow> ('q, 'x) mpsc_scheme \<Rightarrow> ('s, 'y) semaphore_scheme \<Rightarrow> (string \<Rightarrow> string option) \<Rightarrow>
     ('q, 's) gateway_event list \<Rightarrow> ('q, 's) gateway \<Rightarrow> ('q, 's) gateway option" where
  "gateway_run S Q M raw [] g = Some g"
| "gateway_run S Q M raw (ev # evs) g =
     (case gateway_exec S Q M raw ev g of None \<Rightarrow> None | Some g' \<Rightarrow> gateway_run S Q M raw evs g')"

text \<open>
  The signal: the numbers that are printed (connections, frames sent, frames dropped); the server is
  dropped, the source thread makes its next check and is joined.
\<close>

definition gateway_stop :: "('q, 's) gateway \<Rightarrow> (nat \<times> u64 \<times> u64) \<times> ('q, 's) gateway" where
  "gateway_stop g =
     (let sh = srv (gw_sys g); report =
        (Server_connections sh, frames_sent (Server_metrics sh), frames_dropped (Server_metrics sh))
      in (report, g\<lparr>gw_life := source_check (Server_drop (gw_life g))\<rparr>))"

section \<open>The feed\<close>

record feed_tick =
  price :: string
  clock :: "string + nat"
  wrote :: "string + unit"

definition quoted :: "string \<Rightarrow> string" where
  "quoted s = CHR 0x22 # s @ [CHR 0x22]"

definition feed_payload :: "u64 \<Rightarrow> string \<Rightarrow> nat \<Rightarrow> string" where
  "feed_payload seq px ts =
     ''{'' @ quoted ''seq'' @ '':'' @ digits (unat seq) @ '','' @ quoted ''last'' @ '':'' @ px @ '','' @
     quoted ''ts_ms'' @ '':'' @ digits ts @ ''}''"

definition feed_frame :: "u64 \<Rightarrow> string \<Rightarrow> nat \<Rightarrow> string" where
  "feed_frame seq px ts = ''ticker:BTC-USD'' @ CHR 0x0A # feed_payload seq px ts"

text \<open>What the feed has written, and the error that ended it, if one did.\<close>

fun feed_loop :: "u64 \<Rightarrow> feed_tick list \<Rightarrow> string list \<times> string option" where
  "feed_loop seq [] = ([], None)"
| "feed_loop seq (i # is) =
     (case clock i of
        Inl e \<Rightarrow> ([], Some e)
      | Inr ts \<Rightarrow>
          (case wrote i of
             Inl e \<Rightarrow> ([], Some e)
           | Inr _ \<Rightarrow> (case feed_loop (seq + 1) is of (fs, e) \<Rightarrow> (feed_frame seq (price i) ts # fs, e))))"

text \<open>A run with two channels, an empty read and bytes that are no frame.\<close>

definition demo_turns :: "('q, 's) gateway_event list" where
  "demo_turns = [SourceTurn 2 (ReadSome [CHR ''t'', CHR 0x0A, CHR ''1'']), SourceTurn 2 ReadNone,
     SourceTurn 2 (ReadSome [CHR ''u'', CHR 0x0A, CHR ''x'']), SourceTurn 2 (ReadSome [CHR 0xFF]),
     Network (EvAccept (Some ())), SourceTurn 3 (ReadSome [CHR ''t'', CHR 0x0A, CHR ''2''])]"

definition synthetic_feed :: "string + unit \<Rightarrow> string + unit \<Rightarrow> feed_tick list \<Rightarrow> string list \<times> string option" where
  "synthetic_feed queue producer ins =
     (case queue of
        Inl e \<Rightarrow> ([], Some e)
      | Inr _ \<Rightarrow> (case producer of Inl e \<Rightarrow> ([], Some e) | Inr _ \<Rightarrow> feed_loop 0 ins))"

section \<open>What is expected\<close>

text \<open>The text of a price written with two decimals.\<close>

definition two_decimals :: "string \<Rightarrow> bool" where
  "two_decimals s \<longleftrightarrow> (\<exists>i f. s = i @ CHR ''.'' # f \<and> integer_part i \<and> length f = 2 \<and> list_all digit f)"

text \<open>The ticks before the first failure, and the payloads they are to produce.\<close>

definition good_tick :: "feed_tick \<Rightarrow> bool" where
  "good_tick i \<longleftrightarrow> (\<exists>ts. clock i = Inr ts) \<and> wrote i = Inr ()"

definition feed_payloads :: "u64 \<Rightarrow> feed_tick list \<Rightarrow> string list" where
  "feed_payloads seq ins =
     map (\<lambda>(k, i). feed_payload (seq + of_nat k) (price i) (projr (clock i))) (enumerate 0 (takeWhile good_tick ins))"

text \<open>
  What a reader gets of a sequence \<open>xs\<close> when some of it may be overwritten before it is read: elements in
  order, and \<open>None\<close> where it is told that it has lost some.
\<close>

fun with_gaps :: "'a list \<Rightarrow> 'a option list \<Rightarrow> bool" where
  "with_gaps xs [] = True"
| "with_gaps xs (None # ys) = list_ex (\<lambda>k. with_gaps (drop k xs) ys) [0..<Suc (length xs)]"
| "with_gaps [] (Some y # ys) = False"
| "with_gaps (x # xs) (Some y # ys) = (x = y \<and> with_gaps xs ys)"

definition frames_and_gaps :: "read_result list \<Rightarrow> string option list" where
  "frames_and_gaps rs =
     List.map_filter (\<lambda>r. case r of ReadSome bytes \<Rightarrow> Some (Some bytes) | Overrun _ \<Rightarrow> Some None | _ \<Rightarrow> None) rs"

text \<open>The channel and payload of a frame, if it is one; the frames a run has read.\<close>

definition frame_of :: "(string \<Rightarrow> string option) \<Rightarrow> string \<Rightarrow> (string \<times> string) option" where
  "frame_of raw bytes =
     (if utf8 bytes then Option.bind (split_once (CHR 0x0A) bytes) (\<lambda>(ch, js). map_option (Pair ch) (raw js)) else None)"

definition frames_read :: "(string \<Rightarrow> string option) \<Rightarrow> ('q, 's) gateway_event list \<Rightarrow> (string \<times> string) list" where
  "frames_read raw evs =
     List.map_filter (\<lambda>ev. case ev of SourceTurn _ (ReadSome bytes) \<Rightarrow> frame_of raw bytes | _ \<Rightarrow> None) evs"

section \<open>Text\<close>

lemma utf8_ascii: "list_all (byte_in 0 0x7F) s \<Longrightarrow> utf8 s"
  by (induction s) simp_all

lemma split_once_eq:
  "sep \<notin> set a \<Longrightarrow> split_once sep (a @ sep # b) = Some (a, b)"
proof -
  assume "sep \<notin> set a"
  then have "dropWhile (\<lambda>c. c \<noteq> sep) (a @ sep # b) = sep # b" "takeWhile (\<lambda>c. c \<noteq> sep) (a @ sep # b) = a"
    by (induction a) auto
  then show ?thesis by (simp add: split_once_def)
qed

lemma split_once_Some_iff: "split_once sep s = Some (a, b) \<longleftrightarrow> s = a @ sep # b \<and> sep \<notin> set a"
proof
  assume h: "split_once sep s = Some (a, b)"
  then obtain x where d: "dropWhile (\<lambda>c. c \<noteq> sep) s = x # b" and a: "a = takeWhile (\<lambda>c. c \<noteq> sep) s"
    by (auto simp: split_once_def split: list.splits)
  have "x = sep" using hd_dropWhile [of "\<lambda>c. c \<noteq> sep" s] d by simp
  moreover have "s = a @ x # b" using takeWhile_dropWhile_id [of "\<lambda>c. c \<noteq> sep" s] d a by simp
  moreover have "sep \<notin> set a" unfolding a by (auto dest: set_takeWhileD)
  ultimately show "s = a @ sep # b \<and> sep \<notin> set a" by simp
next
  assume "s = a @ sep # b \<and> sep \<notin> set a"
  then show "split_once sep s = Some (a, b)" by (auto simp: split_once_eq)
qed

section \<open>The decoder\<close>

lemma gateway_decode_eq:
  "gateway_decode raw lv bytes =
     (case frame_of raw bytes of
        None \<Rightarrow> (None, lv)
      | Some (ch, p) \<Rightarrow> (Some \<lparr>on_channel = ch, payload = p\<rparr>, LastValue_record ch p lv))"
  by (auto simp: gateway_decode_def frame_of_def from_utf8_def split: option.splits prod.splits)

lemma frame_of_Some_iff:
  "frame_of raw bytes = Some (ch, p) \<longleftrightarrow>
     utf8 bytes \<and> (\<exists>js. bytes = ch @ CHR 0x0A # js \<and> CHR 0x0A \<notin> set ch \<and> raw js = Some p)"
  by (auto simp: frame_of_def split_once_Some_iff bind_eq_Some_conv split_once_eq)

lemma frames_read_simps:
  "frames_read raw [] = []"
  "frames_read raw (SourceTurn k (ReadSome bytes) # evs) =
     (case frame_of raw bytes of None \<Rightarrow> frames_read raw evs | Some f \<Rightarrow> f # frames_read raw evs)"
  "(\<And>bytes. r \<noteq> ReadSome bytes) \<Longrightarrow> frames_read raw (SourceTurn k r # evs) = frames_read raw evs"
  "frames_read raw (Network ev # evs) = frames_read raw evs"
  by (auto simp: frames_read_def List.map_filter_simps split: read_result.splits option.splits)

section \<open>Tasks leave the snapshot source alone\<close>

lemma snapshots_set_tx: "snapshots (set_tx i g st) = snapshots st"
  by (simp add: set_tx_def Let_def split: option.splits)

lemma snapshots_after_branch: "after_branch Q i nxt t (c, ss, st) = (t', st') \<Longrightarrow> snapshots st' = snapshots st"
  by (cases c) (auto simp: after_branch_def leave_session_def Let_def snapshots_set_tx)

lemma snapshots_handle_begin: "snapshots (snd (handle_begin S m i cl st)) = snapshots st"
  by (simp add: handle_begin_def subscribe_begin_def Let_def split: sum.splits client_message.splits prod.splits)

lemma snapshots_act_step: "snapshots (snd (act_step S Q i a st)) = snapshots st"
  by (simp add: act_step_def reply_def split: act.splits option.splits)

lemma snapshots_select_body:
  "select_body S Q i cl ev e ss st = (c, ss', st') \<Longrightarrow> snapshots st' = snapshots st"
  using select_body_same_setup [of st S Q i cl ev e ss] by (simp add: same_setup_def)

lemma snapshots_running:
  assumes t: "who t = Some cl" "phase t = Running i ls" and h: "connection_step S Q M inp t st = Some (t', st')"
  shows "snapshots st' = snapshots st"
proof (cases inp)
  case (Select wk e)
  show ?thesis
  proof (cases "\<exists>msg. wk = WakeInbound (Some (Inr (Text msg)))")
    case True
    then obtain msg where "wk = WakeInbound (Some (Inr (Text msg)))" ..
    then show ?thesis
      using h t snapshots_handle_begin [of S msg i cl st]
      by (auto simp: connection_step_def on_running_def Select split: prod.splits)
  next
    case False
    obtain ev sh where ev: "wake_event Q i wk st = Some (ev, sh)" using select_step_wakes [OF t h [unfolded Select]] by blast
    obtain c ss sh' where b: "select_body S Q i cl ev e \<lparr>last_seen = ls, written = wire t\<rparr> sh = (c, ss, sh')"
      by (metis prod.exhaust)
    have "snapshots sh = snapshots st"
      using ev by (cases wk) (auto simp: snapshots_set_tx split: option.splits)
    moreover have "after_branch Q i Checking t (c, ss, sh') = (t', st')"
      using select_step [OF t ev, of S M e] False h b by (simp add: Select)
    ultimately show ?thesis using snapshots_select_body [OF b] snapshots_after_branch by metis
  qed
qed (use h t in \<open>auto simp: connection_step_def on_running_def leave_session_def snapshots_set_tx\<close>)

lemma snapshots_connection_step:
  assumes h: "connection_step S Q M inp t st = Some (t', st')"
  shows "snapshots st' = snapshots st"
proof (cases "who t")
  case None
  with h show ?thesis
    by (auto simp: connection_step_def local_step_def permit_drop_def split: phase.splits input.splits)
next
  case (Some cl)
  have check: "snapshots sh = snapshots st" if "on_checking Q i ls inp t st = Some (t', sh)" for i ls sh
    using that
    by (auto simp: on_checking_def Let_def split: input.splits if_splits prod.splits dest: snapshots_after_branch)
  have handling: "snapshots sh = snapshots st" if "on_handling S Q i ls acts inp t st = Some (t', sh)" for i ls acts sh
    using that snapshots_act_step [of S Q i _ st]
    by (auto simp: on_handling_def leave_session_def snapshots_set_tx split: input.splits list.splits prod.splits)
      (metis snd_conv)
  show ?thesis
    using h Some check handling snapshots_running [OF Some _ h]
    by (cases "phase t")
      (auto simp: connection_step_def local_step_def Registered_drop_def permit_drop_def elim!: on_acked_cases
        split: input.splits prod.splits)
qed

lemma snapshots_network:
  "of_network ev \<Longrightarrow> sys_exec S Q M ev s = Some s' \<Longrightarrow> snapshots (srv s') = snapshots (srv s)"
  by (cases ev)
    (auto simp: serve_accept_def refuse_full_def Let_def split: if_splits option.splits dest: snapshots_connection_step)

section \<open>Turns of the thread are steps of the server\<close>

text \<open>The snapshot source of the server is the map the decoder keeps, and its payloads are good.\<close>

definition gateway_ok :: "(string \<Rightarrow> bool) \<Rightarrow> ('q, 's) gateway \<Rightarrow> bool" where
  "gateway_ok V g \<longleftrightarrow>
     snapshots (srv (gw_sys g)) = SharedLastValue_snapshot (decoder (gw_source g)) \<and>
     snapshots_hold V (SharedLastValue_snapshot (decoder (gw_source g)))"

lemma SharedLastValue_record:
  "SharedLastValue_snapshot (LastValue_record ch p lv) ch' = (if ch' = ch then Some p else SharedLastValue_snapshot lv ch')"
  by (simp add: SharedLastValue_snapshot_def lv.snap_rec)

lemma publish_with_snapshots:
  "(snd (Server_publish S Q ch p sh))\<lparr>snapshots := snap\<rparr> = snd (Server_publish S Q ch p (sh\<lparr>snapshots := snap\<rparr>))"
  "snapshots (snd (Server_publish S Q ch p sh)) = snapshots sh"
  "snapshots (snd (Server_resync_all S Q sh)) = snapshots sh"
  by (simp_all add: Server_publish_def Server_resync_all_def Let_def split_beta)

lemma same_snapshots: "snapshots sh = snap \<Longrightarrow> sh\<lparr>snapshots := snap\<rparr> = sh"
  by auto

definition frames_hold :: "(string \<Rightarrow> bool) \<Rightarrow> (string \<Rightarrow> string option) \<Rightarrow> bool" where
  "frames_hold V raw \<longleftrightarrow> (\<forall>bytes ch p. frame_of raw bytes = Some (ch, p) \<longrightarrow> V p)"

text \<open>A frame that is decoded: the snapshot is recorded, then the payload is published.\<close>

lemma decoded_turn:
  assumes "V p" and "snapshots_hold V snap"
  shows "(fed_step V S Q M)\<^sup>*\<^sup>* s (s\<lparr>srv := (snd (Server_publish S Q ch p (srv s)))\<lparr>snapshots := snap\<rparr>\<rparr>)"
proof -
  let ?s = "s\<lparr>srv := (srv s)\<lparr>snapshots := snap\<rparr>\<rparr>"
  have "fed_step V S Q M s ?s"
    by (rule fed_step.Fed [where ev = "EvSnapshots snap"]) (use assms(2) in \<open>simp_all add: snapshots_hold_def\<close>)
  moreover have "fed_step V S Q M ?s (?s\<lparr>srv := snd (Server_publish S Q ch p (srv ?s))\<rparr>)"
    by (rule fed_step.Fed [where ev = "EvPublish ch p"]) (use assms(1) in simp_all)
  ultimately show ?thesis by (simp add: publish_with_snapshots(1))
qed

lemma decoded_turn_steps:
  assumes V: "frames_hold V raw" and ok: "gateway_ok V g" and "gw_thread g = Looping" "1 < k"
    and f: "length bytes \<le> buf_len (gw_source g)" "frame_of raw bytes = Some (ch, p)"
    and h: "gateway_exec S Q M raw (SourceTurn k (ReadSome bytes)) g = Some g'"
  shows "(fed_step V S Q M)\<^sup>*\<^sup>* (gw_sys g) (gw_sys g') \<and> gateway_ok V g'"
proof -
  let ?lv = "LastValue_record ch p (decoder (gw_source g))"
  have g': "gw_sys g' = (gw_sys g)\<lparr>srv := (snd (Server_publish S Q ch p (srv (gw_sys g))))
      \<lparr>snapshots := SharedLastValue_snapshot ?lv\<rparr>\<rparr>"
    "decoder (gw_source g') = ?lv"
    using h assms(3,4) f by (auto simp: on_read_def gateway_decode_eq Let_def)
  have p: "V p" using V f(2) unfolding frames_hold_def by blast
  then have "snapshots_hold V (SharedLastValue_snapshot ?lv)"
    using ok by (auto simp: gateway_ok_def snapshots_hold_def SharedLastValue_record split: if_splits)
  then show ?thesis using decoded_turn [where V = V and p = p] p by (simp add: g' gateway_ok_def)
qed

lemma overrun_turn_steps:
  assumes ok: "gateway_ok V g" and "gw_thread g = Looping" "1 < k"
    and h: "gateway_exec S Q M raw (SourceTurn k (Overrun n)) g = Some g'"
  shows "(fed_step V S Q M)\<^sup>*\<^sup>* (gw_sys g) (gw_sys g') \<and> gateway_ok V g'"
proof -
  have "fed_step V S Q M (gw_sys g) ((gw_sys g)\<lparr>srv := snd (Server_resync_all S Q (srv (gw_sys g)))\<rparr>)"
    by (rule fed_step.Fed [where ev = EvResyncAll]) simp_all
  moreover have "gw_sys g' = (gw_sys g)\<lparr>srv := snd (Server_resync_all S Q (srv (gw_sys g)))\<rparr>"
    "decoder (gw_source g') = decoder (gw_source g)"
    using h assms(2,3) ok by (auto simp: on_read_def same_snapshots publish_with_snapshots gateway_ok_def)
  ultimately show ?thesis using ok by (simp add: gateway_ok_def publish_with_snapshots)
qed

lemma source_turn_steps:
  assumes V: "frames_hold V raw" and ok: "gateway_ok V g"
    and h: "gateway_exec S Q M raw (SourceTurn k res) g = Some g'"
  shows "(fed_step V S Q M)\<^sup>*\<^sup>* (gw_sys g) (gw_sys g') \<and> gateway_ok V g'"
proof -
  note snap = ok [unfolded gateway_ok_def, THEN conjunct1]
  have quiet: "?thesis" if "gw_sys g' = gw_sys g" "decoder (gw_source g') = decoder (gw_source g)"
    using that ok by (simp add: gateway_ok_def)
  consider (idle) "\<not> (gw_thread g = Looping \<and> 1 < k)" | (over) n where "gw_thread g = Looping" "1 < k" "res = Overrun n"
    | (frame) bytes ch p where "gw_thread g = Looping" "1 < k" "res = ReadSome bytes"
        "length bytes \<le> buf_len (gw_source g)" "frame_of raw bytes = Some (ch, p)"
    | (other) "gw_thread g = Looping" "1 < k" "\<And>n. res \<noteq> Overrun n"
        "\<And>bytes ch p. res = ReadSome bytes \<Longrightarrow> length bytes \<le> buf_len (gw_source g) \<Longrightarrow> frame_of raw bytes \<noteq> Some (ch, p)"
    by blast
  then show ?thesis
  proof cases
    case idle
    with h show ?thesis by (intro quiet) (auto split: if_splits)
  next
    case (over n)
    show ?thesis by (rule overrun_turn_steps [OF ok over(1,2) h [unfolded over(3)]])
  next
    case (frame bytes ch p)
    show ?thesis by (rule decoded_turn_steps [OF V ok frame(1,2,4,5) h [unfolded frame(3)]])
  next
    case other
    with h show ?thesis
      by (intro quiet; cases res)
        (auto simp: on_read_def gateway_decode_eq Let_def same_snapshots snap split: if_splits option.splits)
  qed
qed

lemma gateway_exec_steps:
  assumes "frames_hold V raw" and "gateway_ok V g"
    and h: "gateway_exec S Q M raw ev g = Some g'"
  shows "(fed_step V S Q M)\<^sup>*\<^sup>* (gw_sys g) (gw_sys g') \<and> gateway_ok V g'"
proof (cases ev)
  case (SourceTurn k res)
  show ?thesis by (rule source_turn_steps [OF assms(1,2) h [unfolded SourceTurn]])
next
  case (Network e)
  then obtain s where net: "of_network e" and s: "sys_exec S Q M e (gw_sys g) = Some s" and g': "g' = g\<lparr>gw_sys := s\<rparr>"
    using h by (auto split: if_splits)
  have "event_ok V e" using net by (cases e) simp_all
  then have "fed_step V S Q M (gw_sys g) (gw_sys g')" using s g' by (auto intro: fed_step.Fed)
  moreover have "gateway_ok V g'" using assms(2) snapshots_network [OF net s] by (simp add: gateway_ok_def g')
  ultimately show ?thesis by blast
qed

lemma gateway_run_steps:
  assumes "frames_hold V raw" and "gateway_ok V g"
    and "gateway_run S Q M raw evs g = Some g'"
  shows "(fed_step V S Q M)\<^sup>*\<^sup>* (gw_sys g) (gw_sys g') \<and> gateway_ok V g'"
  using assms(2,3)
proof (induction evs arbitrary: g)
  case (Cons ev evs)
  then obtain g1 where g1: "gateway_exec S Q M raw ev g = Some g1" "gateway_run S Q M raw evs g1 = Some g'"
    by (auto split: option.splits)
  from gateway_exec_steps [OF assms(1) Cons.prems(1) g1(1)] Cons.IH [OF _ g1(2)] show ?case
    by (auto intro: rtranclp_trans)
qed simp

section \<open>What the thread has recorded\<close>

abbreviation record_frames :: "(string \<times> string) list \<Rightarrow> last_value \<Rightarrow> last_value" where
  "record_frames \<equiv> record_all (\<lambda>s ch p. LastValue_record ch p s)"

lemma record_frames_simps:
  "record_frames [] lv = lv" "record_frames ((ch, p) # fs) lv = record_frames fs (LastValue_record ch p lv)"
  by (simp_all add: record_all_def)

lemma gateway_exec_records:
  assumes "gateway_exec S Q M raw ev g = Some g'" and "gw_thread g' = Looping"
  shows "gw_thread g = Looping \<and>
    record_frames (frames_read raw (ev # evs)) (decoder (gw_source g)) =
      record_frames (frames_read raw evs) (decoder (gw_source g'))"
proof (cases ev)
  case (SourceTurn k res)
  with assms show ?thesis
    by (cases res)
      (auto simp: on_read_def gateway_decode_eq Let_def frames_read_simps record_frames_simps
        split: if_splits option.splits)
next
  case (Network e)
  with assms show ?thesis by (auto simp: frames_read_simps split: if_splits)
qed

lemma gateway_run_records:
  assumes "gateway_run S Q M raw evs g = Some g'" and "gw_thread g' = Looping"
  shows "gw_thread g = Looping \<and> decoder (gw_source g') = record_frames (frames_read raw evs) (decoder (gw_source g))"
  using assms(1)
proof (induction evs arbitrary: g)
  case Nil
  then show ?case using assms(2) by (simp add: frames_read_simps record_frames_simps)
next
  case (Cons ev evs)
  then obtain g1 where g1: "gateway_exec S Q M raw ev g = Some g1" "gateway_run S Q M raw evs g1 = Some g'"
    by (auto split: option.splits)
  from gateway_exec_records [OF g1(1)] Cons.IH [OF g1(2)] show ?case by simp
qed

section \<open>The feed speaks the gateway's language\<close>

lemma digit_ascii: "digit c \<Longrightarrow> byte_in 0 0x7F c"
  by (simp add: digit_def byte_in_def)

lemma integer_ascii: "integer_part s \<Longrightarrow> list_all (byte_in 0 0x7F) s"
  by (auto simp: integer_part_def list_all_iff digit_ascii)

lemma two_decimals_ascii: "two_decimals s \<Longrightarrow> list_all (byte_in 0 0x7F) s"
proof -
  assume "two_decimals s"
  then obtain i f where "s = i @ CHR ''.'' # f" "integer_part i" "list_all digit f" unfolding two_decimals_def by blast
  moreover have "byte_in 0 0x7F CHR ''.''" by (simp add: byte_in_def)
  ultimately show ?thesis using integer_ascii [of i] by (auto simp: list_all_iff digit_ascii)
qed

lemma two_decimals_number: "two_decimals s \<Longrightarrow> json_number s"
proof -
  assume "two_decimals s"
  then obtain i f where s: "s = i @ CHR ''.'' # f" "integer_part i" "length f = 2" "list_all digit f"
    unfolding two_decimals_def by blast
  then have "fraction (CHR ''.'' # f)" unfolding fraction_def by (cases f) auto
  with s show ?thesis by (simp add: json_decimal)
qed

lemma json_string_quoted: "list_all plain s \<Longrightarrow> json_string (quoted s)"
proof -
  assume "list_all plain s"
  then have "string_body s" by (induction s) (auto intro: string_body.intros)
  then show ?thesis by (auto simp: json_string_def quoted_def)
qed

lemma feed_payload_json: "two_decimals px \<Longrightarrow> json_value (feed_payload seq px ts)"
proof -
  assume px: "two_decimals px"
  let ?kvs = "[(quoted ''seq'', digits (unat seq)), (quoted ''last'', px), (quoted ''ts_ms'', digits ts)]"
  have "json_string (quoted ''seq'')" "json_string (quoted ''last'')" "json_string (quoted ''ts_ms'')"
    by (rule json_string_quoted, simp add: plain_def)+
  moreover have "json_text (digits n)" for n by (intro json_text_value Number digits_number)
  moreover have "json_text px" using px by (intro json_text_value Number two_decimals_number)
  ultimately have "\<forall>(k, v) \<in> set ?kvs. json_string k \<and> json_text v" by (simp del: digits.simps)
  from json_object [OF this] show ?thesis by (simp add: feed_payload_def del: digits.simps)
qed

lemma feed_frame_of:
  assumes raw: "raw_value_ok raw" and px: "two_decimals px"
  shows "frame_of raw (feed_frame seq px ts) = Some (''ticker:BTC-USD'', feed_payload seq px ts)"
  unfolding frame_of_Some_iff
proof (intro conjI exI)
  show "feed_frame seq px ts = ''ticker:BTC-USD'' @ CHR 0x0A # feed_payload seq px ts" by (simp add: feed_frame_def)
  show "utf8 (feed_frame seq px ts)"
    using two_decimals_ascii [OF px] integer_ascii [OF digits_integer]
    by (intro utf8_ascii) (simp add: feed_frame_def feed_payload_def quoted_def byte_in_def del: digits.simps)
  have "feed_payload seq px ts = [] @ feed_payload seq px ts @ []" by simp
  then show "raw (feed_payload seq px ts) = Some (feed_payload seq px ts)"
    using raw feed_payload_json [OF px] blank_Nil unfolding raw_value_ok_def by blast
qed (simp)

lemma feed_loop_frames:
  "fst (feed_loop seq ins) =
     map (\<lambda>(k, i). feed_frame (seq + of_nat k) (price i) (projr (clock i))) (enumerate 0 (takeWhile good_tick ins))"
proof (induction ins arbitrary: seq)
  case (Cons i ins)
  show ?case
  proof (cases "good_tick i")
    case True
    then obtain ts where "clock i = Inr ts" "wrote i = Inr ()" by (auto simp: good_tick_def)
    then show ?thesis
      using Cons.IH [of "seq + 1"] True
      by (simp add: enumerate_Suc_eq split_beta o_def add.assoc split: prod.splits)
  next
    case False
    then show ?thesis by (auto simp: good_tick_def split: sum.splits)
  qed
qed simp

lemma with_gaps_None: "with_gaps xs (None # ys) \<longleftrightarrow> (\<exists>k \<le> length xs. with_gaps (drop k xs) ys)"
  by (auto simp: list_ex_iff less_Suc_eq_le simp del: upt_Suc)

lemma with_gaps_map: "with_gaps (map f xs) ys \<Longrightarrow> \<exists>zs. with_gaps xs zs \<and> ys = map (map_option f) zs"
proof (induction ys arbitrary: xs)
  case (Cons y ys)
  show ?case
  proof (cases y)
    case None
    then obtain k where k: "k \<le> length xs" "with_gaps (map f (drop k xs)) ys"
      using Cons.prems by (auto simp: with_gaps_None drop_map simp del: with_gaps.simps)
    from Cons.IH [OF k(2)] obtain zs where "with_gaps (drop k xs) zs" "ys = map (map_option f) zs" by blast
    with k(1) None show ?thesis
      by (intro exI [of _ "None # zs"]) (auto simp: with_gaps_None simp del: with_gaps.simps)
  next
    case (Some b)
    then obtain x xs' where xs: "xs = x # xs'" "b = f x" "with_gaps (map f xs') ys"
      using Cons.prems by (cases xs) auto
    from Cons.IH [OF xs(3)] obtain zs where "with_gaps xs' zs" "ys = map (map_option f) zs" by blast
    with xs Some show ?thesis by (intro exI [of _ "Some x # zs"]) simp
  qed
qed (auto intro: exI [of _ "[]"])

lemma with_gaps_mono: "with_gaps xs zs \<Longrightarrow> with_gaps (map f xs) (map (map_option f) zs)"
proof (induction zs arbitrary: xs)
  case (Cons z zs)
  show ?case
  proof (cases z)
    case None
    then obtain k where "k \<le> length xs" "with_gaps (drop k xs) zs"
      using Cons.prems by (auto simp: with_gaps_None simp del: with_gaps.simps)
    with Cons.IH [of "drop k xs"] None show ?thesis
      by (auto simp: with_gaps_None drop_map simp del: with_gaps.simps)
  next
    case (Some x)
    with Cons show ?thesis by (cases xs) auto
  qed
qed simp

lemma with_gaps_set: "with_gaps xs zs \<Longrightarrow> Some x \<in> set zs \<Longrightarrow> x \<in> set xs"
proof (induction zs arbitrary: xs)
  case (Cons z zs)
  show ?case
  proof (cases z)
    case None
    then obtain k where "with_gaps (drop k xs) zs"
      using Cons.prems(1) by (auto simp: with_gaps_None simp del: with_gaps.simps)
    with Cons.IH [of "drop k xs"] Cons.prems(2) None show ?thesis by (auto dest: in_set_dropD)
  next
    case (Some y)
    with Cons show ?thesis by (cases xs) auto
  qed
qed simp

lemma with_gaps_whole: "with_gaps xs zs \<Longrightarrow> None \<notin> set zs \<Longrightarrow> zs = map Some (take (length zs) xs)"
proof (induction zs arbitrary: xs)
  case (Cons z zs)
  then show ?case by (cases z; cases xs) auto
qed simp

lemma fold_forwarded:
  "fold (forward S Q) (map (\<lambda>z. case z of None \<Rightarrow> ToldResync | Some x \<Rightarrow> Published ch (pl x)) zs) sh =
     fold (\<lambda>x st. case x of None \<Rightarrow> snd (Server_resync_all S Q st) | Some p \<Rightarrow> snd (Server_publish S Q ch p st))
       (map (map_option pl) zs) sh"
  by (induction zs arbitrary: sh) (simp_all add: forward_simps split: option.splits)

lemma relay_frames:
  assumes "frames_and_gaps rs = map (map_option g) zs"
    and "\<And>x. Some x \<in> set zs \<Longrightarrow> frame_of raw (g x) = Some (ch, pl x)"
  shows "relay (gateway_decode raw) lv rs = (map (\<lambda>z. case z of None \<Rightarrow> ToldResync | Some x \<Rightarrow> Published ch (pl x)) zs, 0)"
  using assms
proof (induction rs arbitrary: lv zs)
  case (Cons r rs)
  show ?case
  proof (cases r)
    case (ReadSome bytes)
    then obtain x zs' where "zs = Some x # zs'" "bytes = g x" "frames_and_gaps rs = map (map_option g) zs'"
      using Cons.prems(1)
      by (cases zs; cases "hd zs") (auto simp: frames_and_gaps_def List.map_filter_simps)
    with ReadSome Cons.IH Cons.prems(2) show ?thesis by (simp add: gateway_decode_eq)
  next
    case (Overrun n)
    then obtain zs' where "zs = None # zs'" "frames_and_gaps rs = map (map_option g) zs'"
      using Cons.prems(1) by (cases zs) (auto simp: frames_and_gaps_def List.map_filter_simps)
    with Overrun Cons.IH Cons.prems(2) show ?thesis by simp
  qed (use Cons in \<open>simp_all add: frames_and_gaps_def List.map_filter_simps\<close>)
qed (simp add: frames_and_gaps_def List.map_filter_simps)

section \<open>The gateway's start\<close>

lemma gateway_main_fields:
  assumes "gateway_main queue mp M listen = Inr g"
  shows "started M gateway_builder (gw_sys g)" and "decoder (gw_source g) = LastValue_new"
    and "gateway_ok V g" and "gw_life g = source_spawn bound" and "gw_source g = new_source LastValue_new"
proof -
  obtain st addr where bind: "Builder_bind mp M listen gateway_builder = Inr (st, addr)"
    and g: "g = \<lparr>gw_sys = serving st, gw_source = new_source LastValue_new, gw_thread = Looping,
                gw_life = source_spawn bound\<rparr>"
    using assms by (auto simp: gateway_main_def split: sum.splits)
  show "started M gateway_builder (gw_sys g)" using bind by (auto simp: started_def g)
  show "decoder (gw_source g) = LastValue_new" by (simp add: g new_source_def)
  show "gw_life g = source_spawn bound" "gw_source g = new_source LastValue_new" by (simp_all add: g)
  have "snapshots st = SharedLastValue_snapshot LastValue_new"
    using bind by (auto simp: Builder_bind_def gateway_builder_def Builder_heartbeat_def Builder_snapshots_def
        Builder_validator_def split: sum.splits)
  then show "gateway_ok V g"
    by (simp add: g gateway_ok_def serving_def new_source_def snapshots_hold_def SharedLastValue_snapshot_def lv.snap_new)
qed

lemma gateway_run_life: "gateway_run S Q M raw evs g = Some g' \<Longrightarrow> gw_life g' = gw_life g"
proof (induction evs arbitrary: g)
  case (Cons ev evs)
  then obtain g1 where g1: "gateway_exec S Q M raw ev g = Some g1" "gateway_run S Q M raw evs g1 = Some g'"
    by (auto split: option.splits)
  have "gw_life g1 = gw_life g" using g1(1) by (cases ev) (auto split: if_splits prod.splits)
  with Cons.IH [OF g1(2)] show ?case by simp
qed simp

lemma demo_gateway:
  "\<exists>g0 g. gateway_main (Inr ()) 100000 ref_sem (\<lambda>_. Inr ''a'') = Inr (g0 :: (chan, nat) gateway) \<and>
     gateway_run demo_serde ref_mpsc ref_sem Some demo_turns g0 = Some g \<and> gw_thread g = Looping"
  by (simp add: gateway_main_def Builder_bind_def Config_validate_def gateway_builder_def Builder_heartbeat_def
      Builder_snapshots_def Builder_validator_def Server_builder_def Builder_default_def Config_default_def from_secs_def Let_def
      demo_turns_def on_read_def new_source_def gateway_decode_eq frame_of_def split_once_def byte_in_def serving_def
      serve_accept_def ref_sem_def)

lemma fed_reachable:
  "(fed_step V S Q M)\<^sup>*\<^sup>* s s' \<Longrightarrow> reachable S Q M b s \<Longrightarrow> reachable S Q M b s'"
  by (induction rule: rtranclp_induct) (auto intro: reachable.Step fed_step_server)

section \<open>Properties\<close>

text \<open>
  C32: A new subscriber of the gateway is served the newest state. After any run of the gateway, in which the
  source thread's turns interleave with connections and clients in any way, as long as the thread is running: the
  snapshot the server gives out for a channel is the payload of the last well-formed frame read for
  it, and none if there was none; and the state is one the server of the library reaches, so
  everything that is shown of those states holds of the gateway.
\<close>

theorem gateway_serves_last_published:
  assumes "gateway_main queue mp M listen = Inr g0" and "gateway_run S Q M raw evs g0 = Some g"
    and "gw_thread g = Looping"
  shows "snapshots (srv (gw_sys g)) ch =
      (case filter (\<lambda>f. fst f = ch) (frames_read raw evs) of [] \<Rightarrow> None | f # fs \<Rightarrow> Some (snd (last (f # fs)))) \<and>
    reachable S Q M gateway_builder (gw_sys g)"
proof -
  note start = gateway_main_fields [OF assms(1)]
  have "frames_hold (\<lambda>_. True) raw" by (simp add: frames_hold_def)
  note run = gateway_run_steps [OF this start(3) assms(2)]
  have "decoder (gw_source g) = record_frames (frames_read raw evs) LastValue_new"
    using gateway_run_records [OF assms(2,3)] start(2) by simp
  then have "snapshots (srv (gw_sys g)) ch = LastValue_snapshot (record_frames (frames_read raw evs) LastValue_new) ch"
    using run by (simp add: gateway_ok_def SharedLastValue_snapshot_def)
  moreover have "reachable S Q M gateway_builder (gw_sys g)"
    using fed_reachable [OF conjunct1 [OF run]] start(1) by (blast intro: reachable.Bound)
  ultimately show ?thesis by (simp only: lv.snap_record_all lv.snap_new)
qed

theorem gateway_serves_last_published_witness:
  "\<exists>g0 g. gateway_main (Inr ()) 100000 ref_sem (\<lambda>_. Inr ''a'') = Inr g0 \<and>
     gateway_run demo_serde ref_mpsc ref_sem Some demo_turns g0 = Some g \<and>
     snapshots (srv (gw_sys g)) ''t'' = Some ''2'' \<and> reachable demo_serde ref_mpsc ref_sem gateway_builder (gw_sys g)"
proof -
  obtain g0 g where g: "gateway_main (Inr ()) 100000 ref_sem (\<lambda>_. Inr ''a'') = Inr (g0 :: (chan, nat) gateway)"
    "gateway_run demo_serde ref_mpsc ref_sem Some demo_turns g0 = Some g" "gw_thread g = Looping"
    using demo_gateway by blast
  have "frames_read Some (demo_turns :: (chan, nat) gateway_event list) = [(''t'', ''1''), (''u'', ''x''), (''t'', ''2'')]"
    by (simp add: demo_turns_def frames_read_simps frame_of_def split_once_def byte_in_def)
  with gateway_serves_last_published [OF g, where ch = "''t''"] g(1,2) show ?thesis by auto
qed

text \<open>
  C33: What the gateway reads of the feed, it serves, and what it misses, it announces. The queue may lose
  frames: a reader that joins after \<open>k\<close> frames gets the rest of what the feed wrote before its first failure,
  in order, with an overrun wherever some were lost, and empty reads in between. Then the thread goes on and
  counts no undecodable frame; it publishes on \<open>ticker:BTC-USD\<close>, in the order read and once each, the JSON objects
  of the frames it read, and a resync of all channels for every overrun; so sequence numbers are consecutive except
  across a resync. Without overruns it publishes the next objects the feed wrote, as many as it read, none missing.
\<close>

theorem feed_is_served:
  assumes raw: "raw_value_ok raw" and px: "\<forall>i \<in> set ins. two_decimals (price i)" and alive: "\<forall>t \<in> set turns. 1 < fst t"
    and fit: "reads_fit (64 * 1024) (map snd turns)"
    and reads: "with_gaps (drop k (fst (synthetic_feed (Inr ()) (Inr ()) ins))) (frames_and_gaps (map snd turns))"
  shows "case consume_outcry S Q (gateway_decode raw) gateway_idle turns (new_source LastValue_new) sh of (ctl, src, sh') \<Rightarrow>
    ctl = Looping \<and> undecodable src = 0 \<and>
    (\<exists>got. with_gaps (drop k (feed_payloads 0 ins)) got \<and>
       map (\<lambda>x. x = None) got = map (\<lambda>x. x = None) (frames_and_gaps (map snd turns)) \<and>
       sh' = fold (\<lambda>x st. case x of None \<Rightarrow> snd (Server_resync_all S Q st)
                               | Some p \<Rightarrow> snd (Server_publish S Q ''ticker:BTC-USD'' p st)) got sh \<and>
       ((\<forall>n. Overrun n \<notin> snd ` set turns) \<longrightarrow> got = map Some (take (length got) (drop k (feed_payloads 0 ins)))))"
proof -
  let ?xs = "enumerate 0 (takeWhile good_tick ins)"
  let ?g = "\<lambda>x. feed_frame (of_nat (fst x)) (price (snd x)) (projr (clock (snd x)))"
  let ?pl = "\<lambda>x. feed_payload (of_nat (fst x)) (price (snd x)) (projr (clock (snd x)))"
  have "with_gaps (map ?g (drop k ?xs)) (frames_and_gaps (map snd turns))"
    using reads by (simp add: synthetic_feed_def feed_loop_frames case_prod_unfold drop_map)
  then obtain zs where zs: "with_gaps (drop k ?xs) zs" "frames_and_gaps (map snd turns) = map (map_option ?g) zs"
    using with_gaps_map by blast
  have frames: "frame_of raw (?g x) = Some (''ticker:BTC-USD'', ?pl x)" if "Some x \<in> set zs" for x
  proof -
    have "x \<in> set ?xs" using with_gaps_set [OF zs(1) that] by (rule in_set_dropD)
    then have "snd x \<in> set ins" by (auto simp: in_set_enumerate_eq dest!: nth_mem dest: set_takeWhileD)
    then show ?thesis using raw px by (blast intro: feed_frame_of)
  qed
  let ?got = "map (map_option ?pl) zs"
  have payloads: "with_gaps (drop k (feed_payloads 0 ins)) ?got"
    using with_gaps_mono [OF zs(1), of ?pl] by (simp add: feed_payloads_def case_prod_unfold drop_map)
  have gaps: "map (\<lambda>x. x = None) ?got = map (\<lambda>x. x = None) (frames_and_gaps (map snd turns))"
    by (simp add: zs(2))
  have "None \<notin> set ?got" if "\<forall>n. Overrun n \<notin> snd ` set turns"
  proof -
    have "None \<notin> set (frames_and_gaps (map snd turns))"
      using that by (auto simp: frames_and_gaps_def List.map_filter_def split: read_result.splits)
    then show ?thesis by (auto simp: zs(2))
  qed
  note whole = with_gaps_whole [OF payloads this]
  obtain src where run: "consume_outcry S Q (gateway_decode raw) gateway_idle turns (new_source LastValue_new) sh =
      (Looping, src, fold (forward S Q)
        (map (\<lambda>z. case z of None \<Rightarrow> ToldResync | Some x \<Rightarrow> Published ''ticker:BTC-USD'' (?pl x)) zs) sh)" and und: "undecodable src = 0"
    using consume_relay [OF alive, of "new_source LastValue_new" S Q "gateway_decode raw" gateway_idle sh] fit
      relay_frames [OF zs(2) frames] by (auto simp: new_source_def)
  show ?thesis
    unfolding run fold_forwarded prod.case
    by (intro conjI exI [of _ ?got] refl und payloads gaps impI) (rule whole)
qed

theorem feed_is_served_witness:
  "let ins = [\<lparr>price = ''79000.12'', clock = Inr 5, wrote = Inr ()\<rparr>, \<lparr>price = ''79001.00'', clock = Inr 6, wrote = Inr ()\<rparr>,
      \<lparr>price = ''79001.50'', clock = Inr 7, wrote = Inr ()\<rparr>, \<lparr>price = ''79002.00'', clock = Inr 8, wrote = Inl ''full''\<rparr>];
     turns = [(2, ReadSome (feed_frame 0 ''79000.12'' 5)), (2, ReadNone), (2, Overrun 9), (2, ReadSome (feed_frame 2 ''79001.50'' 7))]
   in case consume_outcry demo_serde ref_mpsc (gateway_decode ref_raw_value) gateway_idle turns (new_source LastValue_new) demo_shared of
     (ctl, src, sh') \<Rightarrow> ctl = Looping \<and> undecodable src = 0 \<and>
       (\<exists>got. with_gaps (feed_payloads 0 ins) got \<and> map (\<lambda>x. x = None) got = [False, True, False] \<and>
          sh' = fold (\<lambda>x st. case x of None \<Rightarrow> snd (Server_resync_all demo_serde ref_mpsc st)
                 | Some p \<Rightarrow> snd (Server_publish demo_serde ref_mpsc ''ticker:BTC-USD'' p st)) got demo_shared)"
proof -
  let ?ins = "[\<lparr>price = ''79000.12'', clock = Inr 5, wrote = Inr ()\<rparr>, \<lparr>price = ''79001.00'', clock = Inr 6, wrote = Inr ()\<rparr>,
      \<lparr>price = ''79001.50'', clock = Inr 7, wrote = Inr ()\<rparr>, \<lparr>price = ''79002.00'', clock = Inr 8, wrote = Inl ''full''\<rparr>]"
  let ?turns = "[(2 :: nat, ReadSome (feed_frame 0 ''79000.12'' 5)), (2, ReadNone), (2, Overrun 9),
    (2, ReadSome (feed_frame 2 ''79001.50'' 7))]"
  have price: "two_decimals (i @ CHR ''.'' # f)" if "integer_part i" "length f = 2" "list_all digit f" for i f
    using that by (auto simp: two_decimals_def)
  have "\<forall>i \<in> set ?ins. two_decimals (price i)"
    using price [of "''79000''" "''12''"] price [of "''79001''" "''00''"] price [of "''79001''" "''50''"] price [of "''79002''" "''00''"]
    by (simp add: integer_part_def digit_def)
  moreover have "\<forall>t \<in> set ?turns. 1 < fst t" by simp
  moreover have "reads_fit (64 * 1024) (map snd ?turns)" by (simp add: feed_frame_def feed_payload_def quoted_def)
  moreover have fg: "frames_and_gaps (map snd ?turns) =
      [Some (feed_frame 0 ''79000.12'' 5), None, Some (feed_frame 2 ''79001.50'' 7)]"
    by (simp add: frames_and_gaps_def List.map_filter_simps)
  have "with_gaps (drop 0 (fst (synthetic_feed (Inr ()) (Inr ()) ?ins))) (frames_and_gaps (map snd ?turns))"
    unfolding fg by (simp add: synthetic_feed_def upt_rec)
  ultimately show ?thesis
    using feed_is_served [OF ref_raw_value_ok, of ?ins ?turns 0 demo_serde ref_mpsc demo_shared] unfolding Let_def fg
    by (auto simp del: consume_outcry.simps)
qed

text \<open>
  Every text a client of the gateway receives is JSON, whatever bytes the queue holds: what is not a channel, a newline and
  a JSON value is not forwarded.
\<close>

theorem gateway_writes_json:
  assumes "serde_ok S" and "writer_ok S" and "mpsc_ok Q" and "sem_ok M" and "raw_value_ok raw"
    and "gateway_main queue mp M listen = Inr g0" and "gateway_run S Q M raw evs g0 = Some g"
    and "t \<in> set (tasks (gw_sys g))" and "Text x \<in> set (wire t)"
  shows "json_text x"
proof -
  note start = gateway_main_fields [OF assms(6)]
  have "frames_hold json_text raw"
    using assms(5) unfolding frames_hold_def frame_of_Some_iff raw_value_ok_def by (metis json_text_value)
  note run = gateway_run_steps [OF this start(3) assms(7)]
  have "snapshots_hold json_text (b_snapshots gateway_builder)"
    by (simp add: gateway_builder_def Builder_heartbeat_def Builder_snapshots_def Builder_validator_def
        snapshots_hold_def SharedLastValue_snapshot_def lv.snap_new)
  from fed_holds [OF assms(1,3,4) start(1) this conjunct1 [OF run]]
  have "wire_holds (json_frame S) (wire t)" using assms(8) by (simp add: sys_holds_def task_holds_def)
  with assms(2,9) show ?thesis by (auto simp: wire_holds_def json_frame_def)
qed

text \<open>
  The gateway stops when it is told to: after the signal the server is dropped, and the next check of the source
  thread ends the thread, which \<^verbatim>\<open>main\<close> joins, and with it the accept loop.
\<close>

theorem gateway_stops:
  assumes "gateway_main queue mp M listen = Inr g0" and "gateway_run S Q M raw evs g0 = Some g"
  shows "sources (gw_life (snd (gateway_stop g))) = 0 \<and> \<not> loop_running (gw_life (snd (gateway_stop g)))"
  using gateway_main_fields(4) [OF assms(1)] gateway_run_life [OF assms(2)]
  by (simp add: gateway_stop_def Let_def bound_def life_defs strong_count_def)

end
