(* ===== verification/Conformance.thy ===== *)
theory Conformance
  imports Gateway "HOL-Library.Sublist"
begin

text \<open>
  The crate's own unit tests (the \<^verbatim>\<open>tests\<close> modules of \<^verbatim>\<open>src/src\<close>), transcribed statement by statement as
  executable checks of the model, and that the model passes them: not for one channel but for every
  bounded channel that meets its contract. A frame is taken from a connection's queue by \<open>try_recv\<close>.

  The test of the derived parser is in \<open>Behaviour\<close>; the one that compares addresses of buffers is left out.
\<close>

section \<open>The registry's tests\<close>

definition fresh_registry :: "'q registry" where
  "fresh_registry = Registry_new Metrics_default"

text \<open>The test holds the receiving end; the model keeps it with the connection.\<close>

definition try_recv :: "('q, 'x) mpsc_scheme \<Rightarrow> connection_id \<Rightarrow> 'q registry \<Rightarrow> frame option \<times> 'q registry" where
  "try_recv Q i reg =
     (case map_of (connections reg) i of
        None \<Rightarrow> (None, reg)
      | Some c \<Rightarrow>
          (case recv Q (tx c) of
             (f, q) \<Rightarrow> (f, reg\<lparr>connections := AList.update i (c\<lparr>tx := q\<rparr>) (connections reg)\<rparr>)))"

definition test_publish_reaches_subscribers_only :: "('q, 'x) mpsc_scheme \<Rightarrow> bool" where
  "test_publish_reaches_subscribers_only Q =
     (let (a, reg) = Registry_add ''a'' (new_channel Q 8) fresh_registry;
          (b, reg) = Registry_add ''b'' (new_channel Q 8) reg;
          (_, reg) = Registry_subscribe a [''ch''] 10 reg;
          subscribers = Registry_subscribers ''ch'' reg;
          (n, reg) = Registry_publish Q ''ch'' (Frame ''x'') reg;
          (first, reg) = try_recv Q a reg;
          (second, reg) = try_recv Q b reg;
          (m, reg) = Registry_publish Q ''other'' (Frame ''y'') reg
      in subscribers = 1 \<and> n = 1 \<and> map_option as_str first = Some ''x'' \<and> second = None \<and> m = 0)"

definition test_subscription_limit_and_idempotence :: "('q, 'x) mpsc_scheme \<Rightarrow> bool" where
  "test_subscription_limit_and_idempotence Q =
     (let (i, reg) = Registry_add ''a'' (new_channel Q 8) fresh_registry;
          ((added, over), reg) = Registry_subscribe i [''a'', ''b'', ''c''] 2 reg;
          ((added', over'), reg) = Registry_subscribe i [''a''] 2 reg;
          (removed, reg) = Registry_unsubscribe i [''a'', ''zzz''] reg
      in added = [''a'', ''b''] \<and> over = [''c''] \<and> added' = [] \<and> over' = [] \<and> removed = [''a''] \<and>
         Registry_subscribers ''a'' reg = 0)"

definition test_remove_cleans_channel_index :: "('q, 'x) mpsc_scheme \<Rightarrow> bool" where
  "test_remove_cleans_channel_index Q =
     (let (i, reg) = Registry_add ''a'' (new_channel Q 8) fresh_registry;
          (_, reg) = Registry_subscribe i [''ch''] 10 reg;
          reg = Registry_remove i reg
      in Registry_subscribers ''ch'' reg = 0 \<and> Registry_len reg = 0 \<and> connections_active (metrics reg) = 0)"

definition test_full_queue_drops_and_counts :: "('q, 'x) mpsc_scheme \<Rightarrow> bool" where
  "test_full_queue_drops_and_counts Q =
     (let (i, reg) = Registry_add ''slow'' (new_channel Q 1) fresh_registry;
          (_, reg) = Registry_subscribe i [''ch''] 10 reg;
          (n, reg) = Registry_publish Q ''ch'' (Frame ''1'') reg;
          (m, reg) = Registry_publish Q ''ch'' (Frame ''2'') reg
      in n = 1 \<and> m = 0 \<and> frames_dropped (metrics reg) = 1)"

definition test_publish_drops_build_a_streak_that_a_delivery_clears :: "('q, 'x) mpsc_scheme \<Rightarrow> bool" where
  "test_publish_drops_build_a_streak_that_a_delivery_clears Q =
     (let (i, reg) = Registry_add ''slow'' (new_channel Q 1) fresh_registry;
          (_, reg) = Registry_subscribe i [''ch''] 10 reg;
          (_, reg) = Registry_publish Q ''ch'' (Frame ''1'') reg;
          drops = Registry_drops i reg;
          (_, reg) = Registry_publish Q ''ch'' (Frame ''2'') reg;
          (_, reg) = Registry_publish Q ''ch'' (Frame ''3'') reg;
          drops' = Registry_drops i reg;
          (taken, reg) = try_recv Q i reg;
          (_, reg) = Registry_publish Q ''ch'' (Frame ''4'') reg
      in drops = 0 \<and> drops' = 2 \<and> taken \<noteq> None \<and> Registry_drops i reg = 0)"

section \<open>The tests of the other modules\<close>

definition test_static_token_accepts_only_its_token :: bool where
  "test_static_token_accepts_only_its_token =
     (let v = StaticToken_new ''secret'' ''alice''
      in (case StaticToken_validate v ''secret'' of Inl _ \<Rightarrow> False | Inr c \<Rightarrow> subject c = ''alice'') \<and>
         (case StaticToken_validate v ''other'' of Inl _ \<Rightarrow> True | Inr _ \<Rightarrow> False))"

text \<open>A closure is an authorizer: the trait is implemented by calling it.\<close>

definition closure_may_subscribe :: "(claims \<Rightarrow> string \<Rightarrow> bool) \<Rightarrow> authorizer" where
  "closure_may_subscribe f cl ch = f cl ch"

definition test_closures_are_authorizers :: bool where
  "test_closures_are_authorizers =
     (let only_public = closure_may_subscribe (\<lambda>c ch. prefix ''public:'' ch \<or> subject c = ''admin'')
      in only_public (Claims_new ''bob'') ''public:x'' \<and> \<not> only_public (Claims_new ''bob'') ''private:x'' \<and>
         only_public (Claims_new ''admin'') ''private:x'')"

text \<open>\<open>encode\<close> is the JWT library's; a token is made with a secret for given claims.\<close>

definition test_hmac_jwt_round_trip ::
    "('k, 'x) jwt_scheme \<Rightarrow> ((string \<rightharpoonup> json_value) \<Rightarrow> string \<Rightarrow> string) \<Rightarrow> string \<Rightarrow> bool" where
  "test_hmac_jwt_round_trip J encode expiry =
     (let tok = encode [''sub'' \<mapsto> String ''alice'', ''tier'' \<mapsto> String ''pro'', ''exp'' \<mapsto> Number expiry] ''test-secret'';
          v = HmacJwt_new J ''test-secret''
      in (case HmacJwt_validate J v tok of
            Inl _ \<Rightarrow> False
          | Inr c \<Rightarrow> subject c = ''alice'' \<and> get_str c ''tier'' = Some ''pro'') \<and>
         (case HmacJwt_validate J v ''garbage'' of Inl _ \<Rightarrow> True | Inr _ \<Rightarrow> False) \<and>
         (case HmacJwt_validate J (HmacJwt_new J ''wrong'') tok of Inl _ \<Rightarrow> True | Inr _ \<Rightarrow> False))"

definition test_data_frame_embeds_payload_verbatim :: "serde \<Rightarrow> bool" where
  "test_data_frame_embeds_payload_verbatim S =
     (let bids = ''{'' @ quoted ''bid'' @ '':1,'' @ quoted ''ask'' @ '':2}''
      in as_str (to_frame S (Data ''ticker:x'' bids)) =
         ''{'' @ quoted ''type'' @ '':'' @ quoted ''data'' @ '','' @ quoted ''channel'' @ '':'' @ quoted ''ticker:x'' @
         '','' @ quoted ''payload'' @ '':'' @ bids @ ''}'')"

definition test_subscribed_omits_empty_rejections :: "serde \<Rightarrow> bool" where
  "test_subscribed_omits_empty_rejections S \<longleftrightarrow>
     as_str (to_frame S (Subscribed [''a''] [])) =
       ''{'' @ quoted ''type'' @ '':'' @ quoted ''subscribed'' @ '','' @ quoted ''channels'' @ '':['' @ quoted ''a'' @ '']}'' \<and>
     sublist (quoted ''rejected'' @ '':[{'' @ quoted ''channel'' @ '':'' @ quoted ''b'' @ '','' @ quoted ''reason'' @ '':'' @
         quoted ''unauthorized'' @ ''}]'')
       (as_str (to_frame S (Subscribed [] [\<lparr>channel = ''b'', reason = ''unauthorized''\<rparr>])))"

definition test_resync_omits_empty_channel_list :: "serde \<Rightarrow> bool" where
  "test_resync_omits_empty_channel_list S \<longleftrightarrow>
     as_str (to_frame S (Resync [])) = ''{'' @ quoted ''type'' @ '':'' @ quoted ''resync'' @ ''}''"

definition test_the_default_config_is_valid :: "nat \<Rightarrow> bool" where
  "test_the_default_config_is_valid max_permits \<longleftrightarrow> Config_validate max_permits Config_default = Inr ()"

definition test_zero_valued_config_is_refused :: "nat \<Rightarrow> bool" where
  "test_zero_valued_config_is_refused max_permits \<longleftrightarrow>
     (\<forall>spoil \<in> set [\<lambda>c. c\<lparr>send_queue := 0\<rparr>, \<lambda>c. c\<lparr>heartbeat_interval := 0\<rparr>, \<lambda>c. c\<lparr>max_connections := 0\<rparr>,
         \<lambda>c. c\<lparr>max_message_size := 0\<rparr>, \<lambda>c. c\<lparr>max_subscriptions := 0\<rparr>, \<lambda>c. c\<lparr>max_channel_len := 0\<rparr>].
        case Config_validate max_permits (spoil Config_default) of Inl (Config _) \<Rightarrow> True | _ \<Rightarrow> False)"

definition test_last_value_serves_the_latest :: "(string \<Rightarrow> string option) \<Rightarrow> bool" where
  "test_last_value_serves_the_latest raw =
     (case (raw ''1'', raw ''2'') of
        (Some one, Some two) \<Rightarrow>
          let s = LastValue_new; before = LastValue_snapshot s ''t'';
              s = LastValue_record ''t'' one s; s = LastValue_record ''t'' two s
          in before = None \<and> LastValue_snapshot s ''t'' = Some ''2''
      | _ \<Rightarrow> False)"

section \<open>Channels by their view\<close>

lemma deliver_by_view:
  assumes "mpsc_ok Q"
  shows "deliver Q c f m =
    (let q = snd (try_send Q (tx c) f)
     in if rx_gone (view Q (tx c)) then (False, c\<lparr>tx := q\<rparr>, m)
        else if length (buffered (view Q (tx c))) < capacity (view Q (tx c))
        then (True, c\<lparr>tx := q, dropped := 0\<rparr>, m\<lparr>frames_sent := frames_sent m + 1\<rparr>)
        else (False, c\<lparr>tx := q, dropped := dropped c + 1\<rparr>, m\<lparr>frames_dropped := frames_dropped m + 1\<rparr>))"
  using mpsc_try_send_result [OF assms, of "tx c" f]
  by (cases "try_send Q (tx c) f") (simp add: deliver_def Let_def)

lemmas registry_defs = Let_def fresh_registry_def Registry_new_def Metrics_default_def Registry_add_def
  Registry_subscribe_def index_insert_def Registry_subscribers_def Registry_publish_def Registry_unsubscribe_def
  index_remove_def Registry_remove_def Registry_len_def Registry_drops_def try_recv_def case_prod_beta

section \<open>The tests pass\<close>

text \<open>The facts that decide what a channel does when its contract is all that is known.\<close>

lemma registry_tests:
  assumes Q: "mpsc_ok Q"
  shows "test_publish_reaches_subscribers_only Q" and "test_subscription_limit_and_idempotence Q"
    and "test_remove_cleans_channel_index Q" and "test_full_queue_drops_and_counts Q"
    and "test_publish_drops_build_a_streak_that_a_delivery_clears Q"
proof -
  have new: "view Q (new_channel Q 8) = \<lparr>capacity = 8, buffered = [], rx_gone = False\<rparr>"
    "view Q (new_channel Q 1) = \<lparr>capacity = 1, buffered = [], rx_gone = False\<rparr>"
    "view Q (new_channel Q (Suc 0)) = \<lparr>capacity = 1, buffered = [], rx_gone = False\<rparr>"
    using mpsc_new [OF Q, of 8] mpsc_new [OF Q, of 1] by (simp_all add: MAX_PERMITS_def)
  note chan = new deliver_by_view [OF Q] mpsc_try_send_view [OF Q] mpsc_try_send_result [OF Q] mpsc_recv [OF Q] chan_recv_def
  show "test_publish_reaches_subscribers_only Q"
    by (simp add: test_publish_reaches_subscribers_only_def registry_defs chan)
  show "test_subscription_limit_and_idempotence Q"
    by (simp add: test_subscription_limit_and_idempotence_def registry_defs)
  show "test_remove_cleans_channel_index Q"
    by (simp add: test_remove_cleans_channel_index_def registry_defs)
  show "test_full_queue_drops_and_counts Q"
    by (simp add: test_full_queue_drops_and_counts_def registry_defs chan)
  show "test_publish_drops_build_a_streak_that_a_delivery_clears Q"
    by (simp add: test_publish_drops_build_a_streak_that_a_delivery_clears_def registry_defs chan)
qed

lemma protocol_tests:
  "test_data_frame_embeds_payload_verbatim (json_serde parse)" "test_subscribed_omits_empty_rejections (json_serde parse)"
  "test_resync_omits_empty_channel_list (json_serde parse)"
  by (simp_all add: test_data_frame_embeds_payload_verbatim_def test_subscribed_omits_empty_rejections_def
      test_resync_omits_empty_channel_list_def to_frame_def json_serde_def quoted_def serialize_rejected_def sublist_Cons_right)

lemma config_tests:
  assumes "10000 \<le> max_permits"
  shows "test_the_default_config_is_valid max_permits" and "test_zero_valued_config_is_refused max_permits"
  using assms
  by (simp_all add: test_the_default_config_is_valid_def test_zero_valued_config_is_refused_def Config_validate_def
      Config_default_def from_secs_def Let_def)

lemma auth_tests: "test_static_token_accepts_only_its_token" "test_closures_are_authorizers"
  by (simp_all add: test_static_token_accepts_only_its_token_def test_closures_are_authorizers_def StaticToken_new_def
      StaticToken_validate_def Claims_new_def closure_may_subscribe_def)

lemma jwt_test:
  assumes signed: "\<And>v. decode J (encode [''sub'' \<mapsto> String ''alice'', ''tier'' \<mapsto> String ''pro'', ''exp'' \<mapsto> Number n] ''test-secret'')
      (from_secret J ''test-secret'') v =
      Some [''sub'' \<mapsto> String ''alice'', ''tier'' \<mapsto> String ''pro'', ''exp'' \<mapsto> Number n]"
    and other_key: "\<And>m v. decode J (encode m ''test-secret'') (from_secret J ''wrong'') v = None"
    and no_token: "\<And>k v. decode J ''garbage'' k v = None"
  shows "test_hmac_jwt_round_trip J encode n"
  by (simp add: test_hmac_jwt_round_trip_def HmacJwt_new_def HmacJwt_validate_def get_str_def as_string_def Let_def
      signed other_key no_token)

lemma snapshot_test:
  assumes "raw_value_ok raw"
  shows "test_last_value_serves_the_latest raw"
proof -
  have "json_value [c]" if "digit c" for c
    using json_decimal [of "[c]" "[]"] that by (auto simp: integer_part_def fraction_def intro: Json_Grammar.Number)
  then have v: "json_value ''1''" "json_value ''2''" by (simp_all add: digit_def)
  have "raw s = Some s" if "json_value s" for s
    using assms that blank_Nil unfolding raw_value_ok_def by (metis append_Nil append_Nil2)
  with v show ?thesis
    by (simp add: test_last_value_serves_the_latest_def LastValue_new_def LastValue_record_def LastValue_snapshot_def Let_def)
qed

section \<open>Properties\<close>

text \<open>
  The model passes the crate's unit tests, for every bounded channel and every JSON value parser that
  meets its contract and on every platform whose semaphore has ten thousand permits: the registry's on
  fan-out, limits, removal and drop streaks, those of the token and the closure authorizer, of the wire
  format, of the configuration and of the snapshots.
\<close>

theorem unit_tests_pass:
  assumes "mpsc_ok Q" and "raw_value_ok raw" and "10000 \<le> max_permits"
  shows "test_publish_reaches_subscribers_only Q \<and> test_subscription_limit_and_idempotence Q \<and>
    test_remove_cleans_channel_index Q \<and> test_full_queue_drops_and_counts Q \<and>
    test_publish_drops_build_a_streak_that_a_delivery_clears Q \<and>
    test_static_token_accepts_only_its_token \<and> test_closures_are_authorizers \<and>
    test_data_frame_embeds_payload_verbatim (json_serde parse) \<and> test_subscribed_omits_empty_rejections (json_serde parse) \<and>
    test_resync_omits_empty_channel_list (json_serde parse) \<and>
    test_the_default_config_is_valid max_permits \<and> test_zero_valued_config_is_refused max_permits \<and>
    test_last_value_serves_the_latest raw"
  by (intro conjI registry_tests [OF assms(1)] auth_tests protocol_tests config_tests [OF assms(3)] snapshot_test [OF assms(2)])

theorem unit_tests_pass_witness:
  "test_publish_drops_build_a_streak_that_a_delivery_clears ref_mpsc \<and> test_last_value_serves_the_latest ref_raw_value \<and>
   test_the_default_config_is_valid (2 ^ 61 - 1)"
  using unit_tests_pass [OF ref_mpsc_ok ref_raw_value_ok, of "2 ^ 61 - 1" "\<lambda>_. Inl ''''"] by simp

end
