(* ===== verification/Client_Json.thy ===== *)
theory Client_Json
  imports Json_Grammar
begin

text \<open>
  How a client's text becomes a \<open>client_message\<close>: what the \<^verbatim>\<open>Deserialize\<close> derive makes of the enum and
  the attributes written in \<^verbatim>\<open>src/src/protocol.rs\<close> (the tag \<^verbatim>\<open>type\<close>, variant names in snake case, the
  default of \<^verbatim>\<open>timestamp\<close>). Fields are matched by name in any order, fields without a meaning are ignored, a
  repeated tag or field is an error.

  The JSON library is the parameter \<open>reader\<close>: \<open>parse_json\<close> turns a text into a value or refuses it, \<open>de_text\<close> is
  the text of an error (with its position in the text read), \<open>positional\<close> is what the library does with an array in place of an object.
  Literals and numbers that are not unsigned 64-bit integers are \<open>JRaw\<close> values. \<open>reader_ok\<close> says what is relied
  on: a value without such parts that is not nested deeper than the library's limit of 127 levels, written by the library, is
  read back.
\<close>

section \<open>Deserialisation\<close>

datatype de_error =
    NotAnObject
  | MissingField string
  | DuplicateField string
  | UnknownVariant string
  | InvalidType string

record reader =
  parse_json :: "string \<Rightarrow> string + json"
  de_text :: "string \<Rightarrow> de_error \<Rightarrow> string"
  positional :: "json list \<Rightarrow> de_error + client_message"

definition bind_sum :: "'e + 'a \<Rightarrow> ('a \<Rightarrow> 'e + 'b) \<Rightarrow> 'e + 'b" where
  "bind_sum r f = (case r of Inl e \<Rightarrow> Inl e | Inr x \<Rightarrow> f x)"

fun de_string :: "string \<Rightarrow> json \<Rightarrow> de_error + string" where
  "de_string k (JStr s) = Inr s"
| "de_string k _ = Inl (InvalidType k)"

fun de_strings :: "string \<Rightarrow> json list \<Rightarrow> de_error + string list" where
  "de_strings k [] = Inr []"
| "de_strings k (x # xs) = bind_sum (de_string k x) (\<lambda>s. bind_sum (de_strings k xs) (\<lambda>ss. Inr (s # ss)))"

fun de_vec :: "string \<Rightarrow> json \<Rightarrow> de_error + string list" where
  "de_vec k (JArr xs) = de_strings k xs"
| "de_vec k _ = Inl (InvalidType k)"

fun de_u64 :: "string \<Rightarrow> json \<Rightarrow> de_error + u64" where
  "de_u64 k (JNum n) = Inr n"
| "de_u64 k _ = Inl (InvalidType k)"

text \<open>The loop over the entries of the object: the field's value so far, or nothing.\<close>

fun field_loop ::
    "(string \<Rightarrow> json \<Rightarrow> de_error + 'a) \<Rightarrow> string \<Rightarrow> 'a option \<Rightarrow> (string \<times> json) list \<Rightarrow> de_error + 'a option" where
  "field_loop de k v [] = Inr v"
| "field_loop de k v ((k', x) # fs) =
     (if k' = k
      then case v of Some _ \<Rightarrow> Inl (DuplicateField k) | None \<Rightarrow> bind_sum (de k x) (\<lambda>y. field_loop de k (Some y) fs)
      else field_loop de k v fs)"

definition de_field :: "(string \<Rightarrow> json \<Rightarrow> de_error + 'a) \<Rightarrow> string \<Rightarrow> (string \<times> json) list \<Rightarrow> de_error + 'a" where
  "de_field de k fs =
     bind_sum (field_loop de k None fs) (\<lambda>v. case v of None \<Rightarrow> Inl (MissingField k) | Some y \<Rightarrow> Inr y)"

text \<open>\<^verbatim>\<open>#[serde(default)]\<close>.\<close>

definition field_default :: "'a \<Rightarrow> (string \<Rightarrow> json \<Rightarrow> de_error + 'a) \<Rightarrow> string \<Rightarrow> (string \<times> json) list \<Rightarrow> de_error + 'a" where
  "field_default d de k fs =
     bind_sum (field_loop de k None fs) (\<lambda>v. case v of None \<Rightarrow> Inr d | Some y \<Rightarrow> Inr y)"

definition de_variant :: "string \<Rightarrow> (string \<times> json) list \<Rightarrow> de_error + client_message" where
  "de_variant t fs =
     (if t = ''auth'' then bind_sum (de_field de_string ''token'' fs) (\<lambda>s. Inr (Auth s))
      else if t = ''subscribe'' then bind_sum (de_field de_vec ''channels'' fs) (\<lambda>cs. Inr (Subscribe cs))
      else if t = ''unsubscribe'' then bind_sum (de_field de_vec ''channels'' fs) (\<lambda>cs. Inr (Unsubscribe cs))
      else if t = ''ping'' then bind_sum (field_default 0 de_u64 ''timestamp'' fs) (\<lambda>n. Inr (Ping n))
      else Inl (UnknownVariant t))"

fun deserialize :: "reader \<Rightarrow> json \<Rightarrow> de_error + client_message" where
  "deserialize R (JObj fs) = bind_sum (de_field de_string ''type'' fs) (\<lambda>t. de_variant t fs)"
| "deserialize R (JArr xs) = positional R xs"
| "deserialize R _ = Inl NotAnObject"

text \<open>\<^verbatim>\<open>serde_json::from_str::<ClientMessage>\<close>.\<close>

definition client_from_str :: "reader \<Rightarrow> string \<Rightarrow> string + client_message" where
  "client_from_str R t =
     bind_sum (parse_json R t) (\<lambda>v. case deserialize R v of Inl e \<Rightarrow> Inl (de_text R t e) | Inr m \<Rightarrow> Inr m)"

section \<open>The documented requests\<close>

fun client_json :: "client_message \<Rightarrow> json" where
  "client_json (Auth token) = JObj [(''type'', JStr ''auth''), (''token'', JStr token)]"
| "client_json (Subscribe channels) = JObj [(''type'', JStr ''subscribe''), (''channels'', JArr (map JStr channels))]"
| "client_json (Unsubscribe channels) = JObj [(''type'', JStr ''unsubscribe''), (''channels'', JArr (map JStr channels))]"
| "client_json (Ping timestamp) = JObj [(''type'', JStr ''ping''), (''timestamp'', JNum timestamp)]"

definition client_text :: "'x serde_scheme \<Rightarrow> client_message \<Rightarrow> string" where
  "client_text S m = render S (client_json m)"

text \<open>The values of the entries with a name, and which objects are a request.\<close>

definition field_values :: "string \<Rightarrow> (string \<times> json) list \<Rightarrow> json list" where
  "field_values k fs = map snd (filter (\<lambda>f. fst f = k) fs)"

fun asks :: "(string \<Rightarrow> json list) \<Rightarrow> client_message \<Rightarrow> bool" where
  "asks f (Auth token) \<longleftrightarrow> f ''type'' = [JStr ''auth''] \<and> f ''token'' = [JStr token]"
| "asks f (Subscribe chs) \<longleftrightarrow> f ''type'' = [JStr ''subscribe''] \<and> f ''channels'' = [JArr (map JStr chs)]"
| "asks f (Unsubscribe chs) \<longleftrightarrow> f ''type'' = [JStr ''unsubscribe''] \<and> f ''channels'' = [JArr (map JStr chs)]"
| "asks f (Ping n) \<longleftrightarrow> f ''type'' = [JStr ''ping''] \<and> (f ''timestamp'' = [JNum n] \<or> f ''timestamp'' = [] \<and> n = 0)"

section \<open>What is relied on of the reader\<close>

fun readable :: "json \<Rightarrow> bool" where
  "readable (JRaw _) = False"
| "readable (JArr xs) = list_all readable xs"
| "readable (JObj fs) = list_all (\<lambda>f. readable (snd f)) fs"
| "readable (JStr _) = True"
| "readable (JNum _) = True"

fun nested_within :: "nat \<Rightarrow> json \<Rightarrow> bool" where
  "nested_within d (JArr xs) \<longleftrightarrow> 0 < d \<and> list_all (nested_within (d - 1)) xs"
| "nested_within d (JObj fs) \<longleftrightarrow> 0 < d \<and> list_all (\<lambda>f. nested_within (d - 1) (snd f)) fs"
| "nested_within d _ \<longleftrightarrow> True"

text \<open>The entries an object may have besides those with a meaning.\<close>

definition readable_entry :: "string \<times> json \<Rightarrow> bool" where
  "readable_entry f \<longleftrightarrow> readable (snd f) \<and> nested_within 126 (snd f)"

definition reader_ok :: "'x serde_scheme \<Rightarrow> reader \<Rightarrow> bool" where
  "reader_ok S R \<longleftrightarrow> (\<forall>v. readable v \<longrightarrow> nested_within 127 v \<longrightarrow> parse_json R (render S v) = Inr v)"

section \<open>Fields by name\<close>

lemma field_values_simps [simp]:
  "field_values k [] = []"
  "field_values k ((k', x) # fs) = (if k' = k then x # field_values k fs else field_values k fs)"
  by (simp_all add: field_values_def)

lemma field_loop_seen:
  "field_loop de k (Some y) fs = (if field_values k fs = [] then Inr (Some y) else Inl (DuplicateField k))"
  by (induction de k "Some y" fs rule: field_loop.induct) auto

lemma field_loop_by_name:
  "field_loop de k None fs =
     (case field_values k fs of
        [] \<Rightarrow> Inr None
      | x # xs \<Rightarrow> bind_sum (de k x) (\<lambda>y. if xs = [] then Inr (Some y) else Inl (DuplicateField k)))"
proof (induction fs)
  case (Cons f fs)
  then show ?case by (cases f) (simp add: field_loop_seen)
qed simp

lemma field_ok: "de_field de k fs = Inr y \<longleftrightarrow> (\<exists>x. field_values k fs = [x] \<and> de k x = Inr y)"
  by (auto simp: de_field_def field_loop_by_name bind_sum_def split: list.splits sum.splits)

lemma field_default_ok:
  "field_default d de k fs = Inr y \<longleftrightarrow>
     (field_values k fs = [] \<and> y = d \<or> (\<exists>x. field_values k fs = [x] \<and> de k x = Inr y))"
  by (auto simp: field_default_def field_loop_by_name bind_sum_def split: list.splits sum.splits)

lemma bind_sum_ok: "bind_sum r f = Inr y \<longleftrightarrow> (\<exists>x. r = Inr x \<and> f x = Inr y)"
  by (auto simp: bind_sum_def split: sum.splits)

lemma de_string_ok: "de_string k x = Inr s \<longleftrightarrow> x = JStr s"
  by (cases x) auto

lemma de_strings_ok: "de_strings k xs = Inr ss \<longleftrightarrow> xs = map JStr ss"
proof (induction xs arbitrary: ss)
  case (Cons x xs)
  then show ?case by (cases ss) (auto simp: bind_sum_ok de_string_ok)
qed auto

lemma de_vec_ok: "de_vec k x = Inr ss \<longleftrightarrow> x = JArr (map JStr ss)"
  by (cases x) (auto simp: de_strings_ok)

lemma de_u64_ok: "de_u64 k x = Inr n \<longleftrightarrow> x = JNum n"
  by (cases x) auto

lemmas de_ok = field_ok field_default_ok de_string_ok de_vec_ok de_u64_ok

lemma de_variant_ok:
  "field_values ''type'' fs = [JStr t] \<and> de_variant t fs = Inr m \<longleftrightarrow>
     field_values ''type'' fs = [JStr t] \<and> asks (\<lambda>k. field_values k fs) m"
  by (cases m) (auto simp: de_variant_def bind_sum_ok de_ok)

lemma deserialize_ok: "deserialize R (JObj fs) = Inr m \<longleftrightarrow> asks (\<lambda>k. field_values k fs) m"
proof -
  have "deserialize R (JObj fs) = Inr m \<longleftrightarrow> (\<exists>t. field_values ''type'' fs = [JStr t] \<and> de_variant t fs = Inr m)"
    by (auto simp: bind_sum_ok de_ok)
  also have "\<dots> \<longleftrightarrow> (\<exists>t. field_values ''type'' fs = [JStr t] \<and> asks (\<lambda>k. field_values k fs) m)"
    using de_variant_ok by blast
  also have "\<dots> \<longleftrightarrow> asks (\<lambda>k. field_values k fs) m" by (cases m) auto
  finally show ?thesis .
qed

lemma deserialize_client_json: "deserialize R (client_json m) = Inr m"
  by (cases m) (simp_all add: deserialize_ok del: deserialize.simps)

lemma readable_client_json: "readable (client_json m) \<and> nested_within 127 (client_json m)"
  by (cases m) (simp_all add: list_all_iff)

section \<open>A reader, for concrete runs\<close>

text \<open>
  A parser for texts without whitespace, strings with the escapes of quotation mark, backslash and slash and of code points
  below 128, and unsigned 64-bit numbers. \<open>fuel\<close> bounds the depth of the recursion; the length of the text is enough.
\<close>

definition hex_val :: "char \<Rightarrow> nat" where
  "hex_val c = (if (of_char c :: nat) < 58 then of_char c - 48 else if (of_char c :: nat) < 71 then of_char c - 55 else of_char c - 87)"

fun read_string :: "string \<Rightarrow> (string \<times> string) option" where
  "read_string [] = None"
| "read_string (c # cs) =
     (if c = CHR 0x22 then Some ([], cs)
      else if c = CHR 0x5C
      then (case cs of
              [] \<Rightarrow> None
            | d # ds \<Rightarrow>
                (if d = CHR 0x22 \<or> d = CHR 0x5C \<or> d = CHR ''/'' then map_option (apfst (Cons d)) (read_string ds)
                 else if d = CHR ''u''
                 then (case ds of
                         h1 # h2 # h3 # h4 # rest \<Rightarrow>
                           (if h1 = CHR ''0'' \<and> h2 = CHR ''0'' \<and> hex_digit h3 \<and> hex_digit h4 \<and> 16 * hex_val h3 + hex_val h4 < 128
                            then map_option (apfst (Cons (char_of (16 * hex_val h3 + hex_val h4)))) (read_string rest)
                            else None)
                       | _ \<Rightarrow> None)
                 else None))
      else if (of_char c :: nat) < 32 then None
      else map_option (apfst (Cons c)) (read_string cs))"

definition read_number :: "string \<Rightarrow> (json \<times> string) option" where
  "read_number s =
     (let ds = takeWhile digit s; n = digits_val ds
      in if integer_part ds \<and> n < 2 ^ 64 then Some (JNum (of_nat n), dropWhile digit s) else None)"

fun read_value :: "nat \<Rightarrow> string \<Rightarrow> (json \<times> string) option"
  and read_elements :: "nat \<Rightarrow> string \<Rightarrow> (json list \<times> string) option"
  and read_members :: "nat \<Rightarrow> string \<Rightarrow> ((string \<times> json) list \<times> string) option" where
  "read_value 0 s = None"
| "read_value (Suc fuel) [] = None"
| "read_value (Suc fuel) (c # cs) =
     (if c = CHR 0x22 then map_option (apfst JStr) (read_string cs)
      else if c = CHR ''['' then
        (case cs of
           [] \<Rightarrow> None
         | d # ds \<Rightarrow> if d = CHR '']'' then Some (JArr [], ds) else map_option (apfst JArr) (read_elements fuel cs))
      else if c = CHR ''{'' then
        (case cs of
           [] \<Rightarrow> None
         | d # ds \<Rightarrow> if d = CHR ''}'' then Some (JObj [], ds) else map_option (apfst JObj) (read_members fuel cs))
      else read_number (c # cs))"
| "read_elements 0 s = None"
| "read_elements (Suc fuel) s =
     (case read_value fuel s of
        Some (v, c # rest) \<Rightarrow>
          (if c = CHR '']'' then Some ([v], rest)
           else if c = CHR '','' then map_option (apfst (Cons v)) (read_elements fuel rest) else None)
      | _ \<Rightarrow> None)"
| "read_members 0 s = None"
| "read_members (Suc fuel) s =
     (case s of
        [] \<Rightarrow> None
      | q # cs \<Rightarrow>
          (case (q = CHR 0x22, read_string cs) of
             (True, Some (k, col # body)) \<Rightarrow>
               (case (col = CHR '':'', read_value fuel body) of
                  (True, Some (v, c # rest)) \<Rightarrow>
                    (if c = CHR ''}'' then Some ([(k, v)], rest)
                     else if c = CHR '','' then map_option (apfst (Cons (k, v))) (read_members fuel rest) else None)
                | _ \<Rightarrow> None)
           | _ \<Rightarrow> None))"

definition ref_parse :: "string \<Rightarrow> string + json" where
  "ref_parse s =
     (case read_value (length s + 1) s of Some (v, []) \<Rightarrow> Inr v | _ \<Rightarrow> Inl ''expected value'')"

fun ref_de_text :: "de_error \<Rightarrow> string" where
  "ref_de_text NotAnObject = ''expected an object''"
| "ref_de_text (MissingField k) = ''missing field '' @ k"
| "ref_de_text (DuplicateField k) = ''duplicate field '' @ k"
| "ref_de_text (UnknownVariant t) = ''unknown variant '' @ t"
| "ref_de_text (InvalidType k) = ''invalid type for '' @ k"

definition ref_reader :: reader where
  "ref_reader = \<lparr>parse_json = ref_parse, de_text = (\<lambda>_. ref_de_text), positional = (\<lambda>_. Inl NotAnObject)\<rparr>"

definition full_serde :: serde where
  "full_serde = json_serde (client_from_str ref_reader)"

section \<open>It reads back what is written\<close>

lemma hex_val_nibble: "n < 16 \<Longrightarrow> hex_val (nibble n) = n"
  by (auto simp: hex_val_def of_char_nibble)

lemma read_escaped: "read_string (json_escape s @ CHR 0x22 # rest) = Some (s, rest)"
proof (induction s)
  case (Cons c s)
  let ?n = "of_char c :: nat"
  have "16 * hex_val (nibble (?n div 16)) + hex_val (nibble (?n mod 16)) = ?n"
    using hex_val_nibble [OF of_char_split, of c] hex_val_nibble [of "?n mod 16"] by simp
  moreover have "hex_digit (nibble (?n div 16))" "hex_digit (nibble (?n mod 16))"
    using nibble_hex [OF of_char_split, of c] nibble_hex [of "?n mod 16"] by simp_all
  moreover have "CHR 0x5C \<noteq> CHR 0x22" by simp
  ultimately show ?case using Cons.IH by auto
qed simp

definition ends_value :: "string \<Rightarrow> bool" where
  "ends_value r \<longleftrightarrow> r = [] \<or> \<not> digit (hd r)"

lemma digits_all: "list_all digit (digits n)"
  using digits_integer [of n] by (simp add: integer_part_def del: digits.simps)

lemma digits_start:
  obtains c cs where "digits n = c # cs" and "digit c"
  using digits_integer [of n] that by (cases "digits n") (auto simp: integer_part_def simp del: digits.simps)

lemma digit_is_no_mark: "digit c \<Longrightarrow> c \<noteq> CHR 0x22 \<and> c \<noteq> CHR ''['' \<and> c \<noteq> CHR '']'' \<and> c \<noteq> CHR ''{''"
  by (auto simp: digit_def)

lemma read_digits:
  assumes "ends_value rest"
  shows "read_number (digits (unat n) @ rest) = Some (JNum n, rest)"
proof -
  have "takeWhile digit (digits (unat n) @ rest) = digits (unat n)" "dropWhile digit (digits (unat n) @ rest) = rest"
    using digits_all [of "unat n"] assms
    by (cases rest; auto simp: ends_value_def list_all_iff takeWhile_append dropWhile_append simp del: digits.simps)+
  moreover have "unat n < 2 ^ 64" using unsigned_less [of n] by simp
  ultimately show ?thesis by (simp add: read_number_def digits_integer digits_val_digits del: digits.simps)
qed

abbreviation written_by :: "(string \<Rightarrow> string + client_message) \<Rightarrow> json \<Rightarrow> string" where
  "written_by p v \<equiv> render (json_serde p) v"

lemma quote_json: "quote (json_serde p) s = CHR 0x22 # json_escape s @ [CHR 0x22]" "number (json_serde p) n = digits (unat n)"
  by (simp_all add: json_serde_def)

lemma written_start:
  assumes "readable v"
  obtains c cs where "written_by p v = c # cs" and "c \<noteq> CHR '']''"
proof (cases v)
  case (JNum n)
  obtain c cs where "digits (unat n) = c # cs" "digit c" by (rule digits_start)
  then show thesis using that JNum digit_is_no_mark by (simp add: quote_json del: digits.simps)
qed (use assms that in \<open>simp_all add: quote_json\<close>)

definition reads_back :: "(string \<Rightarrow> string + client_message) \<Rightarrow> json \<Rightarrow> bool" where
  "reads_back p v \<longleftrightarrow> (\<forall>fuel rest. length (written_by p v) < fuel \<longrightarrow> ends_value rest \<longrightarrow>
     read_value fuel (written_by p v @ rest) = Some (v, rest))"

lemma ends_value_simps [simp]: "ends_value (CHR '','' # r)" "ends_value (CHR '']'' # r)" "ends_value (CHR ''}'' # r)" "ends_value []"
  by (simp_all add: ends_value_def digit_def)

lemma read_elements_written:
  assumes "xs \<noteq> []" and "\<forall>x \<in> set xs. readable x \<and> reads_back p x" and "length (join (map (written_by p) xs)) + 1 < fuel"
  shows "read_elements fuel (join (map (written_by p) xs) @ CHR '']'' # rest) = Some (xs, rest)"
  using assms
proof (induction xs arbitrary: fuel rule: induct_list012)
  case (2 x)
  then obtain f where f: "fuel = Suc f" by (cases fuel) auto
  have "read_value f (written_by p x @ CHR '']'' # rest) = Some (x, CHR '']'' # rest)"
    using 2(2,3) f by (simp add: reads_back_def)
  then show ?case by (simp add: f)
next
  case (3 x y zs)
  then obtain f where f: "fuel = Suc f" by (cases fuel) auto
  let ?rest = "join (map (written_by p) (y # zs))"
  have "read_value f (written_by p x @ CHR '','' # ?rest @ CHR '']'' # rest) = Some (x, CHR '','' # ?rest @ CHR '']'' # rest)"
    using 3(4,5) f by (simp add: reads_back_def)
  moreover have "read_elements f (?rest @ CHR '']'' # rest) = Some (y # zs, rest)"
    using 3(4,5) f by (intro 3(2)) simp_all
  ultimately show ?case by (simp add: f)
qed simp

abbreviation member :: "(string \<Rightarrow> string + client_message) \<Rightarrow> string \<times> json \<Rightarrow> string" where
  "member p f \<equiv> quote (json_serde p) (fst f) @ '':'' @ written_by p (snd f)"

lemma read_members_written:
  assumes "fs \<noteq> []" and "\<forall>f \<in> set fs. reads_back p (snd f)" and "length (join (map (member p) fs)) + 1 < fuel"
  shows "read_members fuel (join (map (member p) fs) @ CHR ''}'' # rest) = Some (fs, rest)"
  using assms
proof (induction fs arbitrary: fuel rule: induct_list012)
  case (2 x)
  then obtain f where f: "fuel = Suc f" by (cases fuel) auto
  have "read_value f (written_by p (snd x) @ CHR ''}'' # rest) = Some (snd x, CHR ''}'' # rest)"
    using 2(2,3) f by (simp add: reads_back_def)
  then show ?case using read_escaped [of "fst x"] by (simp add: f quote_json)
next
  case (3 x y zs)
  then obtain f where f: "fuel = Suc f" by (cases fuel) auto
  let ?rest = "join (map (member p) (y # zs))"
  have "read_value f (written_by p (snd x) @ CHR '','' # ?rest @ CHR ''}'' # rest) = Some (snd x, CHR '','' # ?rest @ CHR ''}'' # rest)"
    using 3(4,5) f by (simp add: reads_back_def)
  moreover have "read_members f (?rest @ CHR ''}'' # rest) = Some (y # zs, rest)"
    using 3(4,5) f by (intro 3(2)) simp_all
  ultimately show ?case using read_escaped [of "fst x"] by (simp add: f quote_json)
qed simp

lemma written_reads_back: "readable v \<Longrightarrow> reads_back p v"
proof (induction v rule: readable.induct)
  case (2 xs)
  then have all: "\<forall>x \<in> set xs. readable x \<and> reads_back p x" by (auto simp: list_all_iff)
  show ?case
    unfolding reads_back_def
  proof (intro allI impI)
    fix fuel rest assume len: "length (written_by p (JArr xs)) < fuel"
    then obtain f where f: "fuel = Suc f" by (cases fuel) auto
    show "read_value fuel (written_by p (JArr xs) @ rest) = Some (JArr xs, rest)"
    proof (cases "xs = []")
      case False
      then obtain x ys where xs: "xs = x # ys" by (cases xs) auto
      obtain c cs where c: "written_by p x = c # cs" "c \<noteq> CHR '']''" using all written_start [of x p] by (auto simp: xs)
      have "read_elements f (join (map (written_by p) xs) @ CHR '']'' # rest) = Some (xs, rest)"
        using len f by (intro read_elements_written [OF False all]) simp
      then show ?thesis using c by (simp add: f xs join_Cons)
    qed (simp add: f)
  qed
next
  case (3 fs)
  then have all: "\<forall>f \<in> set fs. reads_back p (snd f)" by (auto simp: list_all_iff)
  show ?case
    unfolding reads_back_def
  proof (intro allI impI)
    fix fuel rest assume len: "length (written_by p (JObj fs)) < fuel"
    then obtain f where f: "fuel = Suc f" by (cases fuel) auto
    show "read_value fuel (written_by p (JObj fs) @ rest) = Some (JObj fs, rest)"
    proof (cases "fs = []")
      case False
      have "read_members f (join (map (member p) fs) @ CHR ''}'' # rest) = Some (fs, rest)"
        using len f by (intro read_members_written [OF False all]) simp
      moreover obtain cs where "join (map (member p) fs) = CHR 0x22 # cs" using False by (cases fs) (simp_all add: join_Cons quote_json)
      ultimately show ?thesis by (simp add: f)
    qed (simp add: f)
  qed
next
  case (4 s)
  show ?case
    unfolding reads_back_def
  proof (intro allI impI)
    fix fuel rest assume "length (written_by p (JStr s)) < fuel"
    then show "read_value fuel (written_by p (JStr s) @ rest) = Some (JStr s, rest)"
      by (cases fuel) (simp_all add: quote_json read_escaped)
  qed
next
  case (5 n)
  obtain c cs where c: "digits (unat n) = c # cs" "digit c" by (rule digits_start)
  show ?case
    unfolding reads_back_def
  proof (intro allI impI)
    fix fuel rest assume "length (written_by p (JNum n)) < fuel" and after: "ends_value rest"
    then obtain f where f: "fuel = Suc f" by (cases fuel) auto
    from read_digits [OF after, of n] c digit_is_no_mark [OF c(2)]
    show "read_value fuel (written_by p (JNum n) @ rest) = Some (JNum n, rest)"
      by (simp add: f quote_json del: digits.simps)
  qed
qed simp

lemma ref_reader_ok: "reader_ok (json_serde p) ref_reader"
proof -
  have "read_value (length (written_by p v) + 1) (written_by p v) = Some (v, [])" if "readable v" for v
    using written_reads_back [OF that, of p] by (auto simp: reads_back_def dest!: spec [of _ "[]"])
  then show ?thesis by (simp add: reader_ok_def ref_reader_def ref_parse_def)
qed

lemma full_serde_reads: "from_str full_serde = client_from_str ref_reader" "reader_ok full_serde ref_reader"
  using ref_reader_ok by (simp_all add: full_serde_def json_serde_def)

lemma object_understood:
  "parse_json R t = Inr (JObj fs) \<Longrightarrow> client_from_str R t = Inr m \<longleftrightarrow> asks (\<lambda>k. field_values k fs) m"
  unfolding deserialize_ok [of R, symmetric]
  by (simp add: client_from_str_def bind_sum_def del: deserialize.simps split: sum.splits)

lemma object_read:
  "reader_ok S R \<Longrightarrow> list_all readable_entry fs \<Longrightarrow> parse_json R (render S (JObj fs)) = Inr (JObj fs)"
  by (simp add: reader_ok_def readable_entry_def list_all_iff del: render.simps)

section \<open>Properties\<close>

text \<open>
  C14: What is understood as a request. Each of the four requests of the code, written by a client's JSON library as the
  object with the variant's name under \<open>type\<close> and its fields, is parsed to exactly that request. And of every text that is a
  JSON object, however it came about: it is accepted as a request if and only if it has exactly one entry \<open>type\<close> with that name
  and exactly one entry of the right kind for each field, whatever the order and whatever else is in it; only the timestamp of a
  ping may be left out, and is zero then. A timestamp that is not an unsigned 64-bit integer, such as a fraction or a negative
  number, is refused, although \<^verbatim>\<open>docs/protocol.md\<close> documents it as a number.
\<close>

theorem requests_are_understood:
  assumes R: "reader_ok S R"
  shows "client_from_str R (client_text S m) = Inr m \<and>
    (\<forall>t fs. parse_json R t = Inr (JObj fs) \<longrightarrow>
       (client_from_str R t = Inr m \<longleftrightarrow> asks (\<lambda>k. field_values k fs) m)) \<and>
    (\<forall>t fs v. parse_json R t = Inr (JObj fs) \<longrightarrow> field_values ''type'' fs = [JStr ''ping''] \<longrightarrow>
       v \<in> set (field_values ''timestamp'' fs) \<longrightarrow> (\<forall>n. v \<noteq> JNum n) \<longrightarrow> (\<exists>e. client_from_str R t = Inl e))"
proof (intro conjI allI impI)
  show "client_from_str R (client_text S m) = Inr m"
    using R readable_client_json [of m]
    by (simp add: client_from_str_def client_text_def reader_ok_def bind_sum_def deserialize_client_json)
  fix t and fs :: "(string \<times> json) list" assume t: "parse_json R t = Inr (JObj fs)"
  show "client_from_str R t = Inr m \<longleftrightarrow> asks (\<lambda>k. field_values k fs) m" by (rule object_understood [OF t])
  fix v assume ping: "field_values ''type'' fs = [JStr ''ping'']" and v: "v \<in> set (field_values ''timestamp'' fs)" "\<forall>n. v \<noteq> JNum n"
  have "\<not> asks (\<lambda>k. field_values k fs) m'" for m'
    using ping v by (cases m') auto
  then show "\<exists>e. client_from_str R t = Inl e"
    using object_understood [OF t] by (cases "client_from_str R t") auto
qed

theorem requests_are_understood_witness:
  "from_str full_serde (client_text full_serde (Subscribe [''a'', ''b''])) = Inr (Subscribe [''a'', ''b'']) \<and>
   from_str full_serde (render full_serde (JObj [(''extra'', JNum 1), (''type'', JStr ''ping'')])) = Inr (Ping 0) \<and>
   (\<exists>e. from_str full_serde (render full_serde (JObj [(''type'', JStr ''ping''), (''timestamp'', JStr ''1.5'')])) = Inl e)"
proof -
  let ?f = "[(''extra'', JNum 1), (''type'', JStr ''ping'')]" and ?g = "[(''type'', JStr ''ping''), (''timestamp'', JStr ''1.5'')]"
  have f: "asks (\<lambda>k. field_values k ?f) (Ping 0)" by simp
  have read: "parse_json ref_reader (render full_serde (JObj ?f)) = Inr (JObj ?f)"
    "parse_json ref_reader (render full_serde (JObj ?g)) = Inr (JObj ?g)"
    by (rule object_read [OF full_serde_reads(2)], simp add: readable_entry_def)+
  note law = requests_are_understood [OF full_serde_reads(2)]
  show ?thesis
    unfolding full_serde_reads(1)
  proof (intro conjI)
    show "client_from_str ref_reader (client_text full_serde (Subscribe [''a'', ''b''])) = Inr (Subscribe [''a'', ''b''])"
      by (rule conjunct1 [OF law])
    show "client_from_str ref_reader (render full_serde (JObj ?f)) = Inr (Ping 0)"
      using law [of "Ping 0", THEN conjunct2, THEN conjunct1, rule_format, OF read(1)] f by blast
    show "\<exists>e. client_from_str ref_reader (render full_serde (JObj ?g)) = Inl e"
      by (rule law [of "Ping 0", THEN conjunct2, THEN conjunct2, rule_format, OF read(2), of "JStr ''1.5''"]) simp_all
  qed
qed

end
