(* ===== verification/Behaviour.thy ===== *)
theory Behaviour
  imports Conformance Client_Json
begin

text \<open>
  The crate's end-to-end tests (\<^verbatim>\<open>src/tests/behaviour.rs\<close> and \<^verbatim>\<open>src/tests/outcry_source.rs\<close>) as runs of
  the whole model: a builder is bound, clients connect, send JSON texts and receive, in the order in which the test
  does these things. The runs interleave what a test does with the steps of the server that its waiting allows, such as the
  write of the next queued frame before the client reads it. A test is an executable check; each is shown to succeed
  with the writer \<open>json_serde\<close> and the derived parser over every reader that meets \<open>reader_ok\<close>. Where a test compares
  a field of a received message, the check here compares the whole text that was written.

  Left out is the assertion of \<^verbatim>\<open>slow_client_drops_frames_and_publisher_never_blocks\<close> on elapsed time; here every
  publication is one step, which waits for nobody.
\<close>

section \<open>The helpers of the tests\<close>

definition TOKEN :: string where
  "TOKEN = ''test-token''"

definition from_millis :: "nat \<Rightarrow> nat" where
  "from_millis n = n * 1000000"

definition tester :: builder where
  "tester = Builder_validator (StaticToken_validate (StaticToken_new TOKEN ''tester'')) Server_builder"

text \<open>\<^verbatim>\<open>json!(..).to_string()\<close>: the entries of an object come sorted by name.\<close>

fun test_json :: "client_message \<Rightarrow> json" where
  "test_json (Auth tok) = JObj [(''token'', JStr tok), (''type'', JStr ''auth'')]"
| "test_json (Subscribe chs) = JObj [(''channels'', JArr (map JStr chs)), (''type'', JStr ''subscribe'')]"
| "test_json (Unsubscribe chs) = JObj [(''channels'', JArr (map JStr chs)), (''type'', JStr ''unsubscribe'')]"
| "test_json (Ping n) = JObj [(''timestamp'', JNum n), (''type'', JStr ''ping'')]"

definition test_text :: "serde \<Rightarrow> client_message \<Rightarrow> string" where
  "test_text S m = render S (test_json m)"

type_synonym test_event = "(chan, nat) sys_event"
type_synonym test_sys = "(chan, nat) sys"

definition start :: "builder \<Rightarrow> test_sys option" where
  "start b =
     (case Builder_bind 2305843009213693951 ref_sem (\<lambda>_. Inr ''127.0.0.1:0'') b of
        Inl _ \<Rightarrow> None
      | Inr (st, _) \<Rightarrow> Some (serving st))"

definition play :: "serde \<Rightarrow> test_event list \<Rightarrow> builder \<Rightarrow> test_sys option" where
  "play S evs b = (case start b of None \<Rightarrow> None | Some s \<Rightarrow> sys_run S ref_mpsc ref_sem evs s)"

definition connect :: "nat \<Rightarrow> test_event list" where
  "connect k = [EvAccept (Some ()), EvTask k (HandshakeDone (Completed (Inr ())))]"

definition first_send :: "serde \<Rightarrow> nat \<Rightarrow> client_message \<Rightarrow> test_event list" where
  "first_send S k m = [EvTask k (FirstMessage (Completed (Some (Inr (Text (test_text S m))))))]"

definition authed :: "serde \<Rightarrow> nat \<Rightarrow> test_event list" where
  "authed S k = connect k @ first_send S k (Auth TOKEN) @ [EvTask k (AckSent (Inr ())), EvTask k (Register 0)]"

text \<open>A text from the client at an instant, its handler in \<open>n\<close> steps, and the check at the end of the iteration.\<close>

definition send_raw :: "nat \<Rightarrow> nat \<Rightarrow> string \<Rightarrow> nat \<Rightarrow> test_event list" where
  "send_raw k t txt n = EvTask k (Select (WakeInbound (Some (Inr (Text txt)))) (quiet t)) #
     replicate n (EvTask k Act) @ [EvTask k (Check (quiet t))]"

definition send_text :: "serde \<Rightarrow> nat \<Rightarrow> nat \<Rightarrow> client_message \<Rightarrow> nat \<Rightarrow> test_event list" where
  "send_text S k t m n = send_raw k t (test_text S m) n"

text \<open>The server writes the next queued frame; the client can receive it.\<close>

definition deliver_next :: "nat \<Rightarrow> nat \<Rightarrow> test_event list" where
  "deliver_next k t = [EvTask k (Select WakeOutbound (quiet t)), EvTask k (Check (quiet t))]"

definition request :: "serde \<Rightarrow> nat \<Rightarrow> nat \<Rightarrow> client_message \<Rightarrow> nat \<Rightarrow> test_event list" where
  "request S k t m n = send_text S k t m n @ deliver_next k t"

definition tick_at :: "nat \<Rightarrow> nat \<Rightarrow> test_event list" where
  "tick_at k t = [EvTask k (Select WakeTick (quiet t)), EvTask k (Check (quiet t))]"

definition pong_at :: "nat \<Rightarrow> nat \<Rightarrow> test_event list" where
  "pong_at k t = [EvTask k (Select (WakeInbound (Some (Inr (WsPong [])))) (quiet t)), EvTask k (Check (quiet t))]"

definition after_end :: "nat \<Rightarrow> test_event list" where
  "after_end k = [EvTask k GuardDrop, EvTask k PermitDrop]"

definition got :: "serde \<Rightarrow> nat \<Rightarrow> server_message list \<Rightarrow> test_sys \<Rightarrow> bool" where
  "got S k ms s \<longleftrightarrow> wire (tasks s ! k) = map (\<lambda>m. to_message (to_frame S m)) ms"

definition holds_after :: "test_sys option \<Rightarrow> (test_sys \<Rightarrow> bool) \<Rightarrow> bool" where
  "holds_after r P = (case r of None \<Rightarrow> False | Some s \<Rightarrow> P s)"

section \<open>The tests\<close>

definition test_auth_is_acknowledged_before_anything_else :: "serde \<Rightarrow> bool" where
  "test_auth_is_acknowledged_before_anything_else S =
     holds_after (play S (authed S 0) tester)
       (\<lambda>s. got S 0 [Authenticated ''tester''] s \<and> Server_connections (srv s) = 1)"

definition test_bad_token_is_refused_with_an_error :: "serde \<Rightarrow> bool" where
  "test_bad_token_is_refused_with_an_error S =
     holds_after (play S (connect 0 @ first_send S 0 (Auth ''wrong'') @
         [EvTask 0 (RefusalSent (Inr ()) (Inr ())), EvTask 0 PermitDrop]) tester)
       (\<lambda>s. wire (tasks s ! 0) =
           [to_message (to_frame S (Error ''unauthenticated'' (to_string (Unauthenticated ''invalid token'')))), Close] \<and>
          Server_connections (srv s) = 0)"

definition test_first_message_must_be_auth :: "serde \<Rightarrow> bool" where
  "test_first_message_must_be_auth S =
     holds_after (play S (connect 0 @ first_send S 0 (Subscribe [''x'']) @ [EvTask 0 (RefusalSent (Inr ()) (Inr ()))]) tester)
       (\<lambda>s. hd (wire (tasks s ! 0)) =
          to_message (to_frame S (Error ''unauthenticated'' (to_string (Unauthenticated ''expected an auth message'')))))"

definition test_subscribe_then_publish_fans_out_to_every_subscriber_once :: "serde \<Rightarrow> bool" where
  "test_subscribe_then_publish_fans_out_to_every_subscriber_once S =
     (let btc = ''ticker:BTC''; eth = ''ticker:ETH''; val = ''{'' @ quoted ''last'' @ '':1.5}''
      in holds_after (play S (authed S 0 @ authed S 1 @ authed S 2 @ request S 0 1 (Subscribe [btc]) 3 @
             request S 1 1 (Subscribe [btc, eth]) 4 @ request S 2 1 (Subscribe [eth]) 3) tester)
           (\<lambda>s. Server_subscribers btc (srv s) = 2 \<and> fst (Server_publish S ref_mpsc btc val (srv s)) = 2 \<and>
              holds_after (sys_run S ref_mpsc ref_sem
                  (EvPublish btc val # deliver_next 0 2 @ deliver_next 1 2 @ request S 2 2 (Ping 7) 2) s)
                (\<lambda>s. got S 0 [Authenticated ''tester'', Subscribed [btc] [], Data btc val] s \<and>
                   got S 1 [Authenticated ''tester'', Subscribed [btc, eth] [], Data btc val] s \<and>
                   got S 2 [Authenticated ''tester'', Subscribed [eth] [], Pong 7] s)))"

definition test_unsubscribe_stops_delivery :: "serde \<Rightarrow> bool" where
  "test_unsubscribe_stops_delivery S =
     holds_after (play S (authed S 0 @ request S 0 1 (Subscribe [''ch'']) 3 @ request S 0 2 (Unsubscribe [''ch'']) 2) tester)
       (\<lambda>s. got S 0 [Authenticated ''tester'', Subscribed [''ch''] [], Unsubscribed [''ch'']] s \<and>
          Server_subscribers ''ch'' (srv s) = 0 \<and> fst (Server_publish S ref_mpsc ''ch'' ''1'' (srv s)) = 0)"

definition test_payload_is_embedded_verbatim :: "serde \<Rightarrow> bool" where
  "test_payload_is_embedded_verbatim S =
     (let raw = ''{'' @ quoted ''a'' @ '':[1,2,{'' @ quoted ''b'' @ '':null}]}''
      in holds_after (play S (authed S 0 @ request S 0 1 (Subscribe [''raw'']) 3 @ [EvPublish ''raw'' raw] @ deliver_next 0 2) tester)
           (\<lambda>s. got S 0 [Authenticated ''tester'', Subscribed [''raw''] [], Data ''raw'' raw] s))"

definition test_snapshot_follows_the_subscribe_ack :: "serde \<Rightarrow> bool" where
  "test_snapshot_follows_the_subscribe_ack S =
     (let bids = ''{'' @ quoted ''bids'' @ '':[[1,2]]}''; snaps = LastValue_record ''book'' bids LastValue_new
      in holds_after (play S (authed S 0 @ request S 0 1 (Subscribe [''book'', ''nothing'']) 5 @ deliver_next 0 1)
             (Builder_snapshots (LastValue_snapshot snaps) tester))
           (\<lambda>s. got S 0 [Authenticated ''tester'', Subscribed [''book'', ''nothing''] [], Snapshot ''book'' bids] s))"

definition test_authorizer_rejects_per_channel :: "serde \<Rightarrow> bool" where
  "test_authorizer_rejects_per_channel S =
     holds_after (play S (authed S 0 @ request S 0 1 (Subscribe [''public:a'', ''private:b'']) 3)
         (Builder_authorizer (closure_may_subscribe (\<lambda>_ ch. prefix ''public:'' ch)) tester))
       (\<lambda>s. got S 0 [Authenticated ''tester'',
          Subscribed [''public:a''] [\<lparr>channel = ''private:b'', reason = ''unauthorized''\<rparr>]] s)"

definition test_subscription_limit_is_reported :: "serde \<Rightarrow> bool" where
  "test_subscription_limit_is_reported S =
     holds_after (play S (authed S 0 @ request S 0 1 (Subscribe [''a'', ''b'']) 3)
         (Builder_config (Config_default\<lparr>max_subscriptions := 1\<rparr>) tester))
       (\<lambda>s. got S 0 [Authenticated ''tester'', Subscribed [''a''] [\<lparr>channel = ''b'', reason = ''limit''\<rparr>]] s)"

definition test_max_connections_refuses_the_extra_one :: "serde \<Rightarrow> bool" where
  "test_max_connections_refuses_the_extra_one S =
     holds_after (play S (authed S 0 @ [EvAccept (Some ())]) (Builder_max_connections 1 tester))
       (\<lambda>s. length (tasks s) = 1 \<and> Server_connections (srv s) = 1 \<and> refused_full (Server_metrics (srv s)) = 1)"

definition test_resync_all_reaches_every_connection :: "serde \<Rightarrow> bool" where
  "test_resync_all_reaches_every_connection S =
     holds_after (play S (authed S 0 @ authed S 1) tester)
       (\<lambda>s. Server_connections (srv s) = 2 \<and> fst (Server_resync_all S ref_mpsc (srv s)) = 2 \<and>
          holds_after (sys_run S ref_mpsc ref_sem (EvResyncAll # deliver_next 0 1 @ deliver_next 1 1) s)
            (\<lambda>s. got S 0 [Authenticated ''tester'', Resync []] s \<and> got S 1 [Authenticated ''tester'', Resync []] s))"

definition test_invalid_json_gets_an_error_not_a_disconnect :: "serde \<Rightarrow> bool" where
  "test_invalid_json_gets_an_error_not_a_disconnect S =
     holds_after (play S (authed S 0 @ send_raw 0 1 ''{not json'' 2 @ deliver_next 0 1 @ request S 0 2 (Ping 1) 2) tester)
       (\<lambda>s. case from_str S ''{not json'' of
          Inl e \<Rightarrow> got S 0 [Authenticated ''tester'', Error ''invalid_message'' e, Pong 1] s
        | Inr _ \<Rightarrow> False)"

text \<open>
  What the WebSocket library hands to the server of a text a client sent, \<open>received\<close>, depends on the maximum size of a message that
  the server configured it with: a text that is longer is an error.
\<close>

definition bounds_messages :: "(nat \<Rightarrow> string \<Rightarrow> string + message) \<Rightarrow> bool" where
  "bounds_messages received \<longleftrightarrow>
     (\<forall>n s. if length s \<le> n then received n s = Inr (Text s) else (\<exists>e. received n s = Inl e))"

definition test_oversized_message_closes_the_connection :: "(nat \<Rightarrow> string \<Rightarrow> string + message) \<Rightarrow> serde \<Rightarrow> bool" where
  "test_oversized_message_closes_the_connection received S =
     (let cfg = Config_default\<lparr>max_message_size := 256\<rparr>;
          big = test_text S (Subscribe [replicate 1000 (CHR ''x'')])
      in holds_after (play S (authed S 0 @ [EvTask 0 (Select (WakeInbound (Some (received (max_message_size cfg) big))) (quiet 1))] @ after_end 0)
             (Builder_config cfg tester))
           (\<lambda>s. Server_connections (srv s) = 0))"

definition fast_heartbeat :: builder where
  "fast_heartbeat = Builder_heartbeat (from_millis 50) (from_millis 120) tester"

definition test_browser_like_client_answering_ping_frames_survives :: "serde \<Rightarrow> bool" where
  "test_browser_like_client_answering_ping_frames_survives S =
     holds_after (play S (authed S 0 @ concat (map (\<lambda>i. tick_at 0 (from_millis (50 * i)) @ pong_at 0 (from_millis (50 * i + 1)))
         [1, 2, 3, 4, 5, 6, 7, 8])) fast_heartbeat)
       (\<lambda>s. Server_connections (srv s) = 1 \<and> heartbeat_timeouts (Server_metrics (srv s)) = 0 \<and>
          set (tl (wire (tasks s ! 0))) = {WsPing []})"

definition test_silent_client_is_dropped_after_the_timeout :: "serde \<Rightarrow> bool" where
  "test_silent_client_is_dropped_after_the_timeout S =
     holds_after (play S (authed S 0 @ tick_at 0 (from_millis 50) @ tick_at 0 (from_millis 100) @
         [EvTask 0 (Select WakeTick (quiet (from_millis 150)))] @ after_end 0) fast_heartbeat)
       (\<lambda>s. Server_connections (srv s) = 0 \<and> heartbeat_timeouts (Server_metrics (srv s)) = 1)"

definition test_json_ping_counts_as_liveness :: "serde \<Rightarrow> bool" where
  "test_json_ping_counts_as_liveness S =
     holds_after (play S (authed S 0 @ concat (map (\<lambda>i. request S 0 (from_millis (50 * i)) (Ping (of_nat i)) 2 @ tick_at 0 (from_millis (50 * i + 50)))
         [0, 1, 2, 3, 4, 5, 6, 7])) fast_heartbeat)
       (\<lambda>s. Server_connections (srv s) = 1)"

text \<open>The accept task is aborted by the change of the holders from \<open>l\<close> to \<open>l'\<close> that ends it.\<close>

definition aborted_by :: "life \<Rightarrow> life \<Rightarrow> test_event list" where
  "aborted_by l l' = (if loop_running l \<and> \<not> loop_running l' then [EvAbort] else [])"

definition test_dropping_the_last_server_closes_the_listener :: "serde \<Rightarrow> bool" where
  "test_dropping_the_last_server_closes_the_listener S =
     (holds_after (play S [EvAccept (Some ())] tester) (\<lambda>s. length (tasks s) = 1) \<and>
      holds_after (play S (EvAccept (Some ()) # aborted_by bound (Server_drop bound)) tester)
        (\<lambda>s. sys_exec S ref_mpsc ref_sem (EvAccept (Some ())) s = None))"

text \<open>The unit test of the parser, \<^verbatim>\<open>client_messages_parse\<close>.\<close>

definition test_client_messages_parse :: "serde \<Rightarrow> bool" where
  "test_client_messages_parse S \<longleftrightarrow>
     from_str S (''{'' @ quoted ''type'' @ '':'' @ quoted ''auth'' @ '','' @ quoted ''token'' @ '':'' @ quoted ''t'' @ ''}'') =
       Inr (Auth ''t'') \<and>
     from_str S (''{'' @ quoted ''type'' @ '':'' @ quoted ''subscribe'' @ '','' @ quoted ''channels'' @ '':['' @
       quoted ''a'' @ '','' @ quoted ''b'' @ '']}'') = Inr (Subscribe [''a'', ''b'']) \<and>
     from_str S (''{'' @ quoted ''type'' @ '':'' @ quoted ''ping'' @ ''}'') = Inr (Ping 0) \<and>
     (case from_str S (''{'' @ quoted ''type'' @ '':'' @ quoted ''nope'' @ ''}'') of Inl _ \<Rightarrow> True | Inr _ \<Rightarrow> False)"

text \<open>
  \<^verbatim>\<open>frames_written_to_the_queue_reach_a_subscriber\<close>: the source thread reads the three frames of the producer, and stops when the
  server has been dropped.
\<close>

definition seq_json :: "string \<Rightarrow> string" where
  "seq_json n = ''{'' @ quoted ''seq'' @ '':'' @ n @ ''}''"

definition test_decode :: "(string \<Rightarrow> string option) \<Rightarrow> unit \<Rightarrow> string \<Rightarrow> decoded option \<times> unit" where
  "test_decode raw st bytes =
     (case from_utf8 bytes of
        None \<Rightarrow> (None, st)
      | Some s \<Rightarrow>
          (case split_once (CHR 0x0A) s of
             None \<Rightarrow> (None, st)
           | Some (ch, js) \<Rightarrow>
               (case raw js of None \<Rightarrow> (None, st) | Some p \<Rightarrow> (Some \<lparr>on_channel = ch, payload = p\<rparr>, st))))"

definition test_frames_written_to_the_queue_reach_a_subscriber :: "serde \<Rightarrow> (string \<Rightarrow> string option) \<Rightarrow> bool" where
  "test_frames_written_to_the_queue_reach_a_subscriber S raw =
     holds_after (play S (connect 0 @ first_send S 0 (Auth ''t'') @ [EvTask 0 (AckSent (Inr ())), EvTask 0 (Register 0)] @
         request S 0 1 (Subscribe [''q'']) 3) (Builder_validator (StaticToken_validate (StaticToken_new ''t'' ''tester'')) Server_builder))
       (\<lambda>s. case consume_outcry S ref_mpsc (test_decode raw) (Sleep 100000)
            [(2, ReadSome (''q'' @ [CHR 0x0A] @ seq_json ''1'')), (2, ReadSome (''other'' @ [CHR 0x0A] @ seq_json ''2'')),
             (2, ReadSome (''q'' @ [CHR 0x0A] @ seq_json ''3'')), (1, ReadNone)] (new_source ()) (srv s) of
          (ctl, src, sh') \<Rightarrow> ctl = Stopped \<and> undecodable src = 0 \<and>
            holds_after (sys_run S ref_mpsc ref_sem (deliver_next 0 2 @ deliver_next 0 3) (s\<lparr>srv := sh'\<rparr>))
              (\<lambda>s. got S 0 [Authenticated ''tester'', Subscribed [''q''] [], Data ''q'' (seq_json ''1''), Data ''q'' (seq_json ''3'')] s))"

text \<open>
  \<^verbatim>\<open>slow_client_drops_frames_and_publisher_never_blocks\<close>: the client does not read, so its task, which is in the
  middle of a write, takes nothing from the queue while the frames are published.
\<close>

definition pad_json :: "nat \<Rightarrow> json" where
  "pad_json i = JObj [(''i'', JNum (of_nat i)), (''pad'', JStr (replicate (16 * 1024) (CHR ''x'')))]"

definition publish_all :: "serde \<Rightarrow> string \<Rightarrow> json list \<Rightarrow> (chan, nat) shared \<Rightarrow> (chan, nat) shared" where
  "publish_all S ch vs sh = fold (\<lambda>v sh. snd (Server_publish_json S ref_mpsc (\<lambda>v. Inr (render S v)) ch v sh)) vs sh"

definition test_slow_client_drops_frames_and_publisher_never_blocks :: "serde \<Rightarrow> bool" where
  "test_slow_client_drops_frames_and_publisher_never_blocks S =
     holds_after (play S (authed S 0 @ request S 0 1 (Subscribe [''fast'']) 3)
         (Builder_config (Config_default\<lparr>send_queue := 4, max_consecutive_drops := - 1\<rparr>) tester))
       (\<lambda>s. Server_subscribers ''fast'' (srv s) = 1 \<and>
          0 < frames_dropped (Server_metrics (publish_all S ''fast'' (map pad_json [0..<2000]) (srv s))))"

text \<open>\<open>encode\<close> is the JWT library's, as in the unit test.\<close>

definition test_claims :: "string \<Rightarrow> (string \<rightharpoonup> json_value)" where
  "test_claims expiry = [''sub'' \<mapsto> String ''alice'', ''exp'' \<mapsto> Number expiry, ''tier'' \<mapsto> String ''pro'']"

definition test_secret :: string where
  "test_secret = ''a-test-secret-that-is-long-enough''"

definition test_hs256_jwt_is_accepted_and_subject_is_the_claim ::
    "('k, 'x) jwt_scheme \<Rightarrow> ((string \<rightharpoonup> json_value) \<Rightarrow> string \<Rightarrow> string) \<Rightarrow> string \<Rightarrow> serde \<Rightarrow> bool" where
  "test_hs256_jwt_is_accepted_and_subject_is_the_claim J encode expiry S =
     (let secret = test_secret; tok = encode (test_claims expiry) secret
      in holds_after (play S (connect 0 @ first_send S 0 (Auth tok) @ [EvTask 0 (AckSent (Inr ()))])
             (Builder_validator (HmacJwt_validate J (HmacJwt_new J secret)) Server_builder))
           (\<lambda>s. got S 0 [Authenticated ''alice''] s))"

section \<open>They succeed\<close>

definition reads_requests :: "serde \<Rightarrow> bool" where
  "reads_requests S \<longleftrightarrow> (\<forall>m. from_str S (test_text S m) = Inr m)"

lemma test_json_asks:
  assumes "test_json m = JObj fs"
  shows "asks (\<lambda>k. field_values k fs) m \<and> list_all readable_entry fs"
  using assms by (cases m) (auto simp: list_all_iff readable_entry_def)

lemma reader_reads_requests:
  assumes "from_str S = client_from_str R" and "reader_ok S R"
  shows "reads_requests S"
  unfolding reads_requests_def
proof
  fix m
  obtain fs where fs: "test_json m = JObj fs" by (cases m) auto
  from object_understood [OF object_read [OF assms(2), of fs], of m] test_json_asks [OF fs] show "from_str S (test_text S m) = Inr m"
    by (simp add: assms(1) test_text_def fs del: render.simps)
qed

lemma few_acts: "replicate 2 x = [x, x]" "replicate 3 x = [x, x, x]" "replicate 4 x = [x, x, x, x]" "replicate 5 x = [x, x, x, x, x]"
  by (simp_all add: numeral_eq_Suc)

lemma third_task: "(x # y # z # zs)[2 := w] = x # y # w # zs"
  by (simp add: numeral_2_eq_2)

lemmas test_eval = holds_after_def play_def start_def tester_def TOKEN_def from_millis_def Builder_bind_def Config_validate_def
  Builder_validator_def Builder_config_def Builder_authorizer_def Builder_snapshots_def Builder_heartbeat_def
  Builder_max_connections_def Server_builder_def Builder_default_def fast_heartbeat_def
  aborted_by_def bound_def Server_drop_def drop_alive_def strong_count_def connect_def first_send_def authed_def send_raw_def send_text_def deliver_next_def request_def tick_at_def pong_at_def after_end_def
  got_def Server_connections_def Server_subscribers_def Server_metrics_def Registry_len_def Registry_subscribers_def
  Server_resync_all_def Registry_broadcast_def Registry_unsubscribe_def refuse_full_def count_heartbeat_timeout_def
  on_refusing_def on_inbound_def Accepting_drop_def AllowAll_may_subscribe_def NoSnapshots_snapshot_def
  closure_may_subscribe_def LastValue_record_def LastValue_new_def LastValue_snapshot_def from_secs_def
  ref_sem_def few_acts third_task demo_eval

lemma auth_behaviour:
  assumes S: "reads_requests S"
  shows "test_auth_is_acknowledged_before_anything_else S" and "test_bad_token_is_refused_with_an_error S"
    and "test_first_message_must_be_auth S"
proof -
  note read = S [unfolded reads_requests_def, rule_format]
  show "test_auth_is_acknowledged_before_anything_else S"
    unfolding test_auth_is_acknowledged_before_anything_else_def by (simp add: test_eval read)
  show "test_bad_token_is_refused_with_an_error S"
    unfolding test_bad_token_is_refused_with_an_error_def by (simp add: test_eval read)
  show "test_first_message_must_be_auth S"
    unfolding test_first_message_must_be_auth_def by (simp add: test_eval read)
qed

lemma subscription_behaviour:
  assumes S: "reads_requests S"
  shows "test_subscribe_then_publish_fans_out_to_every_subscriber_once S"
    and "test_unsubscribe_stops_delivery S"
    and "test_payload_is_embedded_verbatim S"
    and "test_snapshot_follows_the_subscribe_ack S"
    and "test_authorizer_rejects_per_channel S"
    and "test_subscription_limit_is_reported S"
proof -
  note read = S [unfolded reads_requests_def, rule_format]
  show "test_subscribe_then_publish_fans_out_to_every_subscriber_once S"
    unfolding test_subscribe_then_publish_fans_out_to_every_subscriber_once_def Let_def by (simp add: test_eval read)
  show "test_unsubscribe_stops_delivery S"
    unfolding test_unsubscribe_stops_delivery_def Let_def by (simp add: test_eval read)
  show "test_payload_is_embedded_verbatim S"
    unfolding test_payload_is_embedded_verbatim_def Let_def by (simp add: test_eval read)
  show "test_snapshot_follows_the_subscribe_ack S"
    unfolding test_snapshot_follows_the_subscribe_ack_def Let_def by (simp add: test_eval read)
  show "test_authorizer_rejects_per_channel S"
    unfolding test_authorizer_rejects_per_channel_def Let_def by (simp add: test_eval read)
  show "test_subscription_limit_is_reported S"
    unfolding test_subscription_limit_is_reported_def Let_def by (simp add: test_eval read)
qed

lemma test_text_long:
  assumes "\<And>s. length s \<le> length (quote S s)"
  shows "length ch \<le> length (test_text S (Subscribe [ch]))"
  using assms [of ch] by (simp add: test_text_def)

lemma server_behaviour:
  assumes S: "reads_requests S" and long: "\<And>s. length s \<le> length (quote S s)" and lib: "bounds_messages received"
  shows "test_max_connections_refuses_the_extra_one S"
    and "test_resync_all_reaches_every_connection S"
    and "test_oversized_message_closes_the_connection received S"
    and "test_dropping_the_last_server_closes_the_listener S"
proof -
  note read = S [unfolded reads_requests_def, rule_format]
  show "test_max_connections_refuses_the_extra_one S"
    unfolding test_max_connections_refuses_the_extra_one_def Let_def by (simp add: test_eval read)
  show "test_resync_all_reaches_every_connection S"
    unfolding test_resync_all_reaches_every_connection_def Let_def by (simp add: test_eval read)
  have "256 < length (test_text S (Subscribe [replicate 1000 (CHR ''x'')]))"
    using test_text_long [OF long, of "replicate 1000 (CHR ''x'')"] by (simp only: length_replicate)
  with lib obtain e where "received 256 (test_text S (Subscribe [replicate 1000 (CHR ''x'')])) = Inl e"
    unfolding bounds_messages_def by (metis not_le)
  then show "test_oversized_message_closes_the_connection received S"
    unfolding test_oversized_message_closes_the_connection_def Let_def by (simp add: test_eval read)
  show "test_dropping_the_last_server_closes_the_listener S"
    unfolding test_dropping_the_last_server_closes_the_listener_def Let_def by (simp add: test_eval read)
qed

lemma heartbeat_behaviour:
  assumes S: "reads_requests S"
  shows "test_browser_like_client_answering_ping_frames_survives S"
    and "test_silent_client_is_dropped_after_the_timeout S"
    and "test_json_ping_counts_as_liveness S"
proof -
  note read = S [unfolded reads_requests_def, rule_format]
  show "test_browser_like_client_answering_ping_frames_survives S"
    unfolding test_browser_like_client_answering_ping_frames_survives_def Let_def by (simp add: test_eval read)
  show "test_silent_client_is_dropped_after_the_timeout S"
    unfolding test_silent_client_is_dropped_after_the_timeout_def Let_def by (simp add: test_eval read)
  show "test_json_ping_counts_as_liveness S"
    unfolding test_json_ping_counts_as_liveness_def Let_def by (simp add: test_eval read)
qed

lemma invalid_json_behaviour:
  assumes S: "reads_requests S" and e: "from_str S ''{not json'' = Inl e"
  shows "test_invalid_json_gets_an_error_not_a_disconnect S"
  using S [unfolded reads_requests_def, rule_format]
  unfolding test_invalid_json_gets_an_error_not_a_disconnect_def by (simp add: test_eval e)

lemma jwt_behaviour:
  assumes S: "reads_requests S"
    and signed: "decode J (encode (test_claims expiry) test_secret) (from_secret J test_secret)
      \<lparr>algorithm = HS256, required_spec_claims = [''exp'', ''sub'']\<rparr> = Some (test_claims expiry)"
  shows "test_hs256_jwt_is_accepted_and_subject_is_the_claim J encode expiry S"
  using S [unfolded reads_requests_def, rule_format]
  unfolding test_hs256_jwt_is_accepted_and_subject_is_the_claim_def Let_def
  by (simp add: test_eval signed HmacJwt_new_def HmacJwt_validate_def as_string_def)
    (simp add: test_eval test_claims_def as_string_def)

lemma seq_json_value: "integer_part n \<Longrightarrow> json_value (seq_json n)"
proof -
  assume n: "integer_part n"
  have "string_body ''seq''" by (intro string_body.intros) (simp_all add: plain_def)
  then have "json_string (quoted ''seq'')" by (auto simp: json_string_def quoted_def)
  moreover have "json_text n"
    using json_text_value [OF Json_Grammar.Number [OF json_decimal [OF n, of "[]"]]] by (simp add: fraction_def)
  ultimately show ?thesis
    using json_object [of "[(quoted ''seq'', n)]"] by (simp add: seq_json_def)
qed

lemma raw_value_same: "raw_value_ok raw \<Longrightarrow> json_value p \<Longrightarrow> raw p = Some p"
  unfolding raw_value_ok_def using blank_Nil by (metis append_Nil append_Nil2)

lemma queue_behaviour:
  assumes S: "reads_requests S" and raw: "raw_value_ok raw"
  shows "test_frames_written_to_the_queue_reach_a_subscriber S raw"
proof -
  note read = S [unfolded reads_requests_def, rule_format]
  have dec: "test_decode raw () (ch @ CHR 0x0A # seq_json n) = (Some \<lparr>on_channel = ch, payload = seq_json n\<rparr>, ())"
    if "integer_part n" "list_all (byte_in 0 0x7F) n" "list_all (byte_in 0 0x7F) ch" "list_all (\<lambda>c. c \<noteq> CHR 0x0A) ch" for ch n
  proof -
    have "raw (seq_json n) = Some (seq_json n)" by (intro raw_value_same [OF raw] seq_json_value that)
    moreover have "utf8 (ch @ CHR 0x0A # seq_json n)"
      using that by (intro utf8_ascii) (simp add: seq_json_def quoted_def byte_in_def)
    moreover have "split_once (CHR 0x0A) (ch @ CHR 0x0A # rest) = Some (ch, rest)" for rest
      using that(4) by (intro split_once_eq) (auto simp: list_all_iff)
    ultimately show ?thesis by (simp add: test_decode_def from_utf8_def)
  qed
  have num: "integer_part ''1''" "integer_part ''2''" "integer_part ''3''" by (simp_all add: integer_part_def digit_def)
  have decs: "test_decode raw () (CHR ''q'' # CHR 0x0A # seq_json n) = (Some \<lparr>on_channel = ''q'', payload = seq_json n\<rparr>, ())"
    "test_decode raw () (CHR ''o'' # CHR ''t'' # CHR ''h'' # CHR ''e'' # CHR ''r'' # CHR 0x0A # seq_json n) =
      (Some \<lparr>on_channel = ''other'', payload = seq_json n\<rparr>, ())" if "n \<in> {''1'', ''2'', ''3''}" for n
    using dec [of n "''q''"] dec [of n "''other''"] that num by (auto simp: byte_in_def)
  have len: "length (seq_json n) = length n + 8" for n by (simp add: seq_json_def quoted_def)
  show ?thesis
    unfolding test_frames_written_to_the_queue_reach_a_subscriber_def
    by (simp add: test_eval read decs on_read_def new_source_def len)
qed

lemma publish_all_drops:
  assumes "connections (registry sh) = [(i, c)]" and "by_channel (registry sh) = [(ch, [i])]"
    and "tx c = \<lparr>capacity = n, buffered = fs, rx_gone = False\<rparr>" and "length fs \<le> n"
  shows "frames_dropped (metrics (registry (publish_all S ch vs sh))) =
    frames_dropped (metrics (registry sh)) + of_nat (length vs - (n - length fs))"
  using assms
proof (induction vs arbitrary: sh c fs)
  case Nil
  then show ?case by (simp add: publish_all_def)
next
  case (Cons v vs)
  let ?f = "to_frame S (Data ch (render S v))" and ?sh = "snd (Server_publish_json S ref_mpsc (\<lambda>v. Inr (render S v)) ch v sh)"
  let ?fs = "if length fs < n then fs @ [?f] else fs"
  note unfold = Server_publish_json_def Server_publish_def Registry_publish_def deliver_def ref_simps chan_try_send_def Let_def
  obtain c' where c': "connections (registry ?sh) = [(i, c')]" "tx c' = \<lparr>capacity = n, buffered = ?fs, rx_gone = False\<rparr>"
    using Cons.prems by (cases "length fs < n") (simp_all add: unfold)
  have "by_channel (registry ?sh) = [(ch, [i])]"
    and "frames_dropped (metrics (registry ?sh)) = frames_dropped (metrics (registry sh)) + (if length fs < n then 0 else 1)"
    using Cons.prems by (cases "length fs < n"; simp add: unfold)+
  moreover have "length ?fs \<le> n" using Cons.prems(4) by auto
  ultimately have "frames_dropped (metrics (registry (publish_all S ch vs ?sh))) =
      frames_dropped (metrics (registry sh)) + (if length fs < n then 0 else 1) + of_nat (length vs - (n - length ?fs))"
    using Cons.IH [OF c'(1) _ c'(2)] by simp
  then show ?case using Cons.prems(4) by (auto simp: publish_all_def not_less)
qed

lemma slow_client_behaviour:
  assumes S: "reads_requests S"
  shows "test_slow_client_drops_frames_and_publisher_never_blocks S"
proof -
  note read = S [unfolded reads_requests_def, rule_format]
  show ?thesis
    unfolding test_slow_client_drops_frames_and_publisher_never_blocks_def
    by (simp add: test_eval read publish_all_drops del: upt.simps)
qed

lemma json_quote_plain: "list_all plain s \<Longrightarrow> quote (json_serde p) s = quoted s"
proof -
  assume "list_all plain s"
  then have "json_escape s = s" by (induction s) (auto simp: plain_def)
  then show ?thesis by (simp add: quote_json quoted_def)
qed

lemma parser_behaviour:
  assumes ok: "reader_ok (json_serde (client_from_str R)) R"
  shows "test_client_messages_parse (json_serde (client_from_str R))"
proof -
  let ?S = "json_serde (client_from_str R)"
  have frm: "from_str ?S = client_from_str R" by (simp add: json_serde_def)
  note understood = object_understood [OF object_read [OF ok]]
  have t: "render ?S (JObj [(''type'', JStr ''auth''), (''token'', JStr ''t'')]) =
      ''{'' @ quoted ''type'' @ '':'' @ quoted ''auth'' @ '','' @ quoted ''token'' @ '':'' @ quoted ''t'' @ ''}''"
    "render ?S (JObj [(''type'', JStr ''subscribe''), (''channels'', JArr [JStr ''a'', JStr ''b''])]) =
      ''{'' @ quoted ''type'' @ '':'' @ quoted ''subscribe'' @ '','' @ quoted ''channels'' @ '':['' @
       quoted ''a'' @ '','' @ quoted ''b'' @ '']}''"
    "render ?S (JObj [(''type'', JStr ''ping'')]) = ''{'' @ quoted ''type'' @ '':'' @ quoted ''ping'' @ ''}''"
    "render ?S (JObj [(''type'', JStr ''nope'')]) = ''{'' @ quoted ''type'' @ '':'' @ quoted ''nope'' @ ''}''"
    by (simp_all add: json_quote_plain plain_def)
  have nope: "client_from_str R (render ?S (JObj [(''type'', JStr ''nope'')])) \<noteq> Inr m" for m
    using understood [of "[(''type'', JStr ''nope'')]" m] by (cases m) (simp_all add: readable_entry_def del: render.simps)
  have "client_from_str R (render ?S (JObj [(''type'', JStr ''auth''), (''token'', JStr ''t'')])) = Inr (Auth ''t'')"
    "client_from_str R (render ?S (JObj [(''type'', JStr ''subscribe''), (''channels'', JArr [JStr ''a'', JStr ''b''])])) =
      Inr (Subscribe [''a'', ''b''])"
    "client_from_str R (render ?S (JObj [(''type'', JStr ''ping'')])) = Inr (Ping 0)"
    by (subst understood; simp add: readable_entry_def del: render.simps)+
  with nope show ?thesis
    unfolding test_client_messages_parse_def frm t [symmetric] by (simp del: render.simps split: sum.splits)
qed

section \<open>Properties\<close>

text \<open>
  The model passes the crate's end-to-end tests, with the writer \<open>json_serde\<close> and the derived parser on top of every reader that
  reads back what it writes: from the text a client sends to the texts every client receives, on authentication, JWTs, fan-out,
  snapshots, rejections, limits, refused connections, resync, invalid input, oversized messages, heartbeats, slow clients and the
  end of the server, and the path from the shared-memory queue to a subscriber. Of the JWT library it is assumed that the token the
  test encodes decodes to the claims it was made of, and of the WebSocket library that it refuses a message over its size.
\<close>

theorem end_to_end_tests_pass:
  assumes "reader_ok (json_serde (client_from_str R)) R" and "parse_json R ''{not json'' = Inl e" and "raw_value_ok raw"
    and "decode J (encode (test_claims expiry) test_secret) (from_secret J test_secret)
      \<lparr>algorithm = HS256, required_spec_claims = [''exp'', ''sub'']\<rparr> = Some (test_claims expiry)"
    and "bounds_messages received"
  shows "let S = json_serde (client_from_str R) in
    test_client_messages_parse S \<and> test_auth_is_acknowledged_before_anything_else S \<and>
    test_bad_token_is_refused_with_an_error S \<and> test_first_message_must_be_auth S \<and>
    test_subscribe_then_publish_fans_out_to_every_subscriber_once S \<and> test_unsubscribe_stops_delivery S \<and>
    test_payload_is_embedded_verbatim S \<and> test_snapshot_follows_the_subscribe_ack S \<and>
    test_authorizer_rejects_per_channel S \<and> test_subscription_limit_is_reported S \<and>
    test_max_connections_refuses_the_extra_one S \<and> test_resync_all_reaches_every_connection S \<and>
    test_invalid_json_gets_an_error_not_a_disconnect S \<and> test_oversized_message_closes_the_connection received S \<and>
    test_browser_like_client_answering_ping_frames_survives S \<and> test_silent_client_is_dropped_after_the_timeout S \<and>
    test_json_ping_counts_as_liveness S \<and> test_dropping_the_last_server_closes_the_listener S \<and>
    test_slow_client_drops_frames_and_publisher_never_blocks S \<and>
    test_hs256_jwt_is_accepted_and_subject_is_the_claim J encode expiry S \<and>
    test_frames_written_to_the_queue_reach_a_subscriber S raw"
proof -
  let ?S = "json_serde (client_from_str R)"
  have frm: "from_str ?S = client_from_str R" by (simp add: json_serde_def)
  have reads: "reads_requests ?S" by (rule reader_reads_requests [OF frm assms(1)])
  have bad: "from_str ?S ''{not json'' = Inl e" using assms(2) by (simp add: frm client_from_str_def bind_sum_def)
  have long: "length s \<le> length (quote ?S s)" for s
  proof -
    have "length s \<le> length (json_escape s)" by (induction s) (auto simp: Let_def)
    then show ?thesis by (simp add: quote_json)
  qed
  show ?thesis
    unfolding Let_def
    by (intro conjI parser_behaviour [OF assms(1)] auth_behaviour [OF reads] subscription_behaviour [OF reads]
        server_behaviour [OF reads long assms(5)] heartbeat_behaviour [OF reads] invalid_json_behaviour [OF reads bad]
        slow_client_behaviour [OF reads] jwt_behaviour [where J = J and encode = encode and expiry = expiry, OF reads assms(4)]
        queue_behaviour [OF reads assms(3)])
qed

theorem end_to_end_tests_pass_witness:
  "\<exists>J encode. test_hs256_jwt_is_accepted_and_subject_is_the_claim (J :: string jwt) encode ''1'' full_serde \<and>
   test_client_messages_parse full_serde \<and> test_json_ping_counts_as_liveness full_serde \<and>
   test_frames_written_to_the_queue_reach_a_subscriber full_serde ref_raw_value"
proof -
  have json: "parse_json ref_reader ''{not json'' = Inl ''expected value''"
    by (simp add: ref_reader_def ref_parse_def)
  let ?J = "\<lparr>from_secret = (\<lambda>s. s), decode = (\<lambda>t k v. if t = k then Some (test_claims ''1'') else None)\<rparr>"
  have signed: "decode ?J ((\<lambda>m k. k) (test_claims ''1'') test_secret) (from_secret ?J test_secret)
      \<lparr>algorithm = HS256, required_spec_claims = [''exp'', ''sub'']\<rparr> = Some (test_claims ''1'')" by simp
  have lib: "bounds_messages (\<lambda>n s. if length s \<le> n then Inr (Text s) else Inl ''message too long'')"
    by (simp add: bounds_messages_def)
  note pass = end_to_end_tests_pass [where J = ?J and encode = "\<lambda>m k. k" and expiry = "''1''", OF ref_reader_ok json ref_raw_value_ok signed lib, unfolded Let_def, folded full_serde_def]
  show ?thesis by (rule exI [of _ ?J], rule exI [of _ "\<lambda>m k. k"], intro conjI) (use pass in blast)+
qed

end
