(* ===== verification/Spec2Isabelle.thy ===== *)
theory Spec2Isabelle
  imports Gap_Freedom Publishers Behaviour
begin

text \<open>
  Verification of \<^verbatim>\<open>ws-fanout\<close>, a WebSocket fan-out server: a publisher hands a message for a named
  channel to the server once, and every client that subscribed to the channel receives it.

  \<^bold>\<open>The program and its parts\<close> (\<^verbatim>\<open>src/src\<close>). \<^verbatim>\<open>lib.rs\<close> has the builder and the \<^verbatim>\<open>Server\<close> handle, whose clones
  publish from any thread. \<^verbatim>\<open>server.rs\<close> accepts connections under a semaphore, runs one task per connection
  (handshake, authentication, acknowledgement, registration, session), and handles the client's messages.
  \<^verbatim>\<open>registry.rs\<close> holds the connections, the index from channel to subscribers, the metrics, and puts frames on
  the connections' bounded queues without waiting. \<^verbatim>\<open>protocol.rs\<close> defines the messages, \<^verbatim>\<open>auth.rs\<close> who may
  connect and subscribe, \<^verbatim>\<open>snapshot.rs\<close> what a new subscriber is sent, \<^verbatim>\<open>outcry_source.rs\<close> a thread that
  publishes from a shared-memory queue, \<^verbatim>\<open>error.rs\<close> the errors. Publishers and tasks meet only in the shared
  state: the registry behind its lock, the queues in it, the semaphore.

  \<^bold>\<open>Theories.\<close>
  \<^item> \<open>Prelude\<close>: hash maps as association lists with distinct keys and hash sets as distinct lists (so that
    every iteration order is one the list may have), their simplification rules \<open>hash_simps\<close>, 64-bit counters, and the locale
    \<open>step_invariant\<close> for invariants of step relations.
  \<^item> \<open>Protocol\<close> (\<^verbatim>\<open>protocol.rs\<close>, \<^verbatim>\<open>error.rs\<close>): messages, their JSON form as the derived serialiser
    writes it, frames, errors. Frames of different messages differ; a payload is embedded unchanged.
  \<^item> \<open>Auth\<close> (\<^verbatim>\<open>auth.rs\<close>): claims, both token validators, the authorizers. What a validated token implies.
  \<^item> \<open>Snapshots\<close> (\<^verbatim>\<open>snapshot.rs\<close>): the bundled sources. The last value recorded is the one served.
  \<^item> \<open>Channel\<close>: the bounded queue between publishers and a task, a library the program calls; it exists for lengths from one to
    \<open>MAX_PERMITS\<close> and panics otherwise.
  \<^item> \<open>Registry\<close> (\<^verbatim>\<open>registry.rs\<close>): the state and every operation, the invariant that index, subscriptions, ids
    and active counter agree, and two interfaces: \<open>delivery_op\<close> (delivering frames leaves the routing alone), for
    publish, broadcast, send and what is built on them, and \<open>subscription_store\<close> (how subscriptions change), for the handler.
  \<^item> \<open>Registry_Spec\<close>: an abstract registry without index and order, the refinement of every operation and
    of every run of operations, and the functional properties of each operation, drop streaks and metrics included.
  \<^item> \<open>Publishers\<close>: threads inside \<^verbatim>\<open>publish\<close>, \<^verbatim>\<open>broadcast\<close> and \<^verbatim>\<open>send\<close> at the same time, under the read lock, with the
    three effects of each delivery (queue, counter, streak) as separate steps; writers and receivers among them. Every call
    reaches its targets once, the frames of one publisher stay in order, the counters account, the streak is off by at
    most one per other thread, and can be off; a call that nobody interrupts is the operation of \<open>Registry\<close>.
  \<^item> \<open>Settings\<close> (\<^verbatim>\<open>Config\<close> of \<^verbatim>\<open>server.rs\<close>): defaults and validation, and what a configuration that passes offers.
  \<^item> \<open>Handler\<close> (\<^verbatim>\<open>Shared\<close>, \<^verbatim>\<open>handle\<close>): the reaction to one client message. Only authorised channels of
    bounded length are subscribed, every requested channel is accounted for in the acknowledgement, which comes before the snapshots.
  \<^item> \<open>Session\<close> (\<^verbatim>\<open>authenticate\<close>, \<^verbatim>\<open>send_now\<close>, \<^verbatim>\<open>session\<close>): authentication, timed writes, the select loop
    over the events the runtime delivers. Who is authenticated; who survives the heartbeat and who does not.
  \<^item> \<open>Server_API\<close> (\<^verbatim>\<open>lib.rs\<close>): builder, \<^verbatim>\<open>bind\<close>, publishing and resync.
  \<^item> \<open>Lifecycle\<close> (\<^verbatim>\<open>serve\<close>, \<^verbatim>\<open>connection\<close>, \<^verbatim>\<open>Registered\<close>): each task as a machine that is between two of its
    effects on the shared state in one of twelve phases; the handler lock by lock; \<open>server_step\<close> interleaves tasks,
    the accept loop, publishers and changing snapshots; \<open>sys_run\<close> executes a given schedule.
  \<^item> \<open>System\<close>: an invariant of every reachable state, and from it: data only for authorised clients, the
    connection limit, the acknowledgement first, bounded cost per connection, nothing left of ended tasks; a
    schedule in which a stale snapshot follows a newer delta; a close that hangs keeps its slot; every other task can end; with JSON Web
    Tokens, the decoded claims decide what is received; a valid configuration with a queue that is too long, where every task panics.
  \<^item> \<open>Session_Steps\<close>: the two accounts of a session agree (the steps of \<open>Lifecycle\<close> for one event are the
    iteration of \<open>Session\<close>), and the handler's steps end after a number of them that the configuration bounds, whatever
    the others do to the shared state in between.
  \<^item> \<open>Progress\<close>: infinite runs of the system and fairness of the runtime as conditions on them: the task is polled, the
    heartbeat fires, the handshake and the first message complete or time out, closes and the two writes without a deadline (acknowledgement
    and refusal) complete. Then the task of every client that has fallen silent ends, and its connection's id
    leaves the registry for good.
  \<^item> \<open>Delivery_Order\<close>: what a client has received and what waits for it, of one channel, is a subsequence of
    what was offered to it, in that order, also where publishers overlap; the order of publication where they do not.
  \<^item> \<open>Eventual_Delivery\<close>: the queue of a session only grows at its end and moves its head to the socket; its receiver is there
    while it lasts. If the runtime does not neglect the outbound branch, what is published on a channel that a session holds is
    written to its socket, after everything queued before it, unless the session ends.
  \<^item> \<open>Gap_Freedom\<close>: while a session holds a channel and \<open>frames_dropped\<close> does not move, it misses nothing that is published on it.
  \<^item> \<open>Json_Grammar\<close>: JSON texts as a grammar over bytes, and that the serialiser writes them; the contract of the
    JSON library's writer and of \<^verbatim>\<open>RawValue::from_string\<close>.
  \<^item> \<open>Client_Json\<close> (\<^verbatim>\<open>ClientMessage\<close>): the derived deserialiser over JSON values, by field name; which objects are which
    request; a reader of JSON texts written out as the instance of its contract.
  \<^item> \<open>Wire_Json\<close>: a property that every frame has that the server makes holds of everything queued and written
    (locale \<open>frame_kind\<close>); for JSON: every text on every socket is JSON.
  \<^item> \<open>Outcry\<close> (\<^verbatim>\<open>outcry_source.rs\<close>, clones of \<^verbatim>\<open>Server\<close>): the source thread forwards in order, announces overruns,
    backs off when idle; when the accept loop (with the last holder, or with its listener) and the threads end, and that two threads keep
    each other running.
  \<^item> \<open>Gateway\<close> (\<^verbatim>\<open>src/examples/gateway.rs\<close>, \<^verbatim>\<open>src/examples/synthetic_feed.rs\<close>): server, source thread and
    shared \<^verbatim>\<open>LastValue\<close> put together. The thread's turns are steps of the server, so its states are reachable ones;
    new subscribers are served the last value read; what the feed writes and the gateway gets to read, it publishes, with a resync
    for every overrun of the queue.
  \<^item> \<open>Conformance\<close>: the crate's unit tests as executable checks, passed for every channel that meets its contract.
  \<^item> \<open>Behaviour\<close> (\<^verbatim>\<open>src/tests\<close>): the end-to-end tests as runs of the whole model, from the JSON text a client sends to the
    texts every client receives, passed with every reader that reads back what the writer \<open>json_serde\<close> writes.

  \<^bold>\<open>Parameters.\<close> The JSON library (\<open>serde\<close>, and \<open>reader\<close> where its parser is taken apart), the bounded channel (\<open>mpsc\<close>), the semaphore (\<open>semaphore\<close>), the JWT
  library (\<open>jwt\<close>), \<^verbatim>\<open>RawValue::from_string\<close> (\<open>raw\<close>), the listener and the decoder are arguments of the definitions that use them. What the
  program relies on of them is named: \<open>serde_ok\<close>, \<open>mpsc_ok\<close>, \<open>sem_ok\<close>, \<open>reads_fit\<close>, \<open>writer_ok\<close>,
  \<open>raw_value_ok\<close>, \<open>reader_ok\<close>; each is met by a concrete instance (\<open>ref_serde\<close>, \<open>json_serde\<close>, \<open>ref_reader\<close>, \<open>full_serde\<close>, \<open>ref_mpsc\<close>, \<open>ref_sem\<close>, \<open>demo_jwt\<close>,
  \<open>ref_raw_value\<close>). What the runtime, the sockets and the
  shared-memory queue deliver is input: outcomes of timeouts and writes, received messages, instants, read results.

  \<^bold>\<open>Bounds.\<close> Counters are 64-bit words, as in the source. Ids come from a 64-bit counter that starts at one; the
  invariants of \<open>Registry\<close> and the steps of \<open>Lifecycle\<close> stop before it wraps, after \<open>2 ^ 64 - 2\<close> registrations. The
  model uses no fuel: loops run over the list they consume, a session and a source thread over the
  events they are given, of any number; the number of steps of the handler is bounded by \<open>2 * max_subscriptions + 2\<close>.
  Only the reference reader of JSON texts has fuel, the length of the text and one more, and is proved to read back every
  value that the writer writes.

  \<^bold>\<open>Interleaving.\<close> An operation of the registry holds its lock throughout and is one step. Publishers hold it
  as readers, so two publications may alternate between subscribers: \<open>server_step\<close> also has the delivery to a single
  subscriber as a step. There the memory operations of one delivery are one step; \<open>Publishers\<close> separates them, for the registry alone.
  The events of \<open>sys_run\<close> have both, whole publications and single deliveries, so that the runs of \<open>Delivery_Order\<close> and \<open>Gap_Freedom\<close>
  include overlapping publishers. These may be received in different orders by different clients, so order is stated per connection; \<open>Publishers\<close>
  relates it to the order in which each publisher made its calls. In \<open>Gateway\<close> a turn of the source thread (record,
  then publish) is one step of a run, made of two steps of the server.

  \<^bold>\<open>Not modelled\<close>: logging; TLS and HTTP, the WebSocket library's own pings and size limits (a message over the limit is an
  error it delivers); that the
  runtime is fair, which \<open>Progress\<close> and \<open>Eventual_Delivery\<close> assume; real time, beyond the instants an iteration observes; panics of the decoder closure; reorderings of
  relaxed memory operations of different threads;
  authorizers and validators with state of their own; the sine of the feed's price, which is given as text; what
  the JSON library makes of an array in place of a request, and its error texts; the unit test that
  compares addresses of buffers and the one assertion of the end-to-end tests on elapsed time.
\<close>

end
